(* ===== verification/Go_Prelude.thy ===== *)
theory Go_Prelude
  imports
    "HOL-Library.Word"
    "HOL-Library.AList"
    "HOL-Library.Char_ord"
    "HOL-Library.List_Lexorder"
begin

section \<open>Prelude: the part of Go and its standard library the program uses\<close>

text \<open>
  Go's \<open>string\<close> and \<open>[]byte\<close> are both modelled by Isabelle's \<open>string\<close>: a list of 8-bit
  characters, so \<open>len\<close> is \<open>length\<close> and the conversions between the two types are the
  identity. A Go \<open>int\<close> is an \<open>int\<close> where no wrap-around is reachable, a \<open>uint16\<close> is a
  \<open>16 word\<close>. A Go function that returns a value and an \<open>error\<close> returns a pair whose
  second component is a \<open>go_err option\<close>: the value that accompanies an error is kept,
  because the program sometimes ignores the error and uses it.

  The theory holds the functions of the packages \<open>strings\<close>, \<open>strconv\<close> and \<open>fmt\<close> the
  program calls, with the lemmas the components share: searching and splitting,
  trimming, number parsing and printing, and the round trips between the last two.
\<close>

unbundle bit_operations_syntax

named_theorems go_defs \<open>definitions of standard library functions that are unfolded together\<close>
named_theorems go_trip \<open>round trips between printing and parsing\<close>

subsection \<open>Errors\<close>

datatype go_err =
    EOF
  | ErrShortWrite
  | ErrNoProgress
  | ErrBufferFull
  | ErrNegativeCount
  | ErrSyntax
  | ErrRange
  | ErrNet string
  | ErrMsg string

type_synonym 'a go_ret = "'a \<times> go_err option"

text \<open>A run-time panic is a value, so that every index, slice and nil dereference is a branch.\<close>

datatype 'a outcome = Panics | Returns 'a

subsection \<open>Package strings\<close>

definition HasPrefix :: "string \<Rightarrow> string \<Rightarrow> bool" where
  "HasPrefix s p \<longleftrightarrow> take (length p) s = p"

definition HasSuffix :: "string \<Rightarrow> string \<Rightarrow> bool" where
  "HasSuffix s p \<longleftrightarrow> length p \<le> length s \<and> drop (length s - length p) s = p"

fun find_sub :: "string \<Rightarrow> string \<Rightarrow> nat option" where
  "find_sub [] sub = (if sub = [] then Some 0 else None)"
| "find_sub (c # cs) sub =
     (if HasPrefix (c # cs) sub then Some 0 else map_option Suc (find_sub cs sub))"

definition strings_Index :: "string \<Rightarrow> string \<Rightarrow> int" where
  "strings_Index s sub = (case find_sub s sub of None \<Rightarrow> -1 | Some i \<Rightarrow> int i)"

definition Contains :: "string \<Rightarrow> string \<Rightarrow> bool" where
  "Contains s sub \<longleftrightarrow> find_sub s sub \<noteq> None"

fun find_byte :: "char \<Rightarrow> string \<Rightarrow> nat option" where
  "find_byte b [] = None"
| "find_byte b (c # cs) = (if c = b then Some 0 else map_option Suc (find_byte b cs))"

definition IndexByte :: "string \<Rightarrow> char \<Rightarrow> int" where
  "IndexByte s b = (case find_byte b s of None \<Rightarrow> -1 | Some i \<Rightarrow> int i)"

text \<open>
  \<open>strings.Split\<close>; an empty separator splits after each byte (the program never
  passes one).
\<close>

function Split :: "string \<Rightarrow> string \<Rightarrow> string list" where
  "Split s sep =
     (if sep = [] then map (\<lambda>c. [c]) s
      else case find_sub s sep of
        None \<Rightarrow> [s]
      | Some i \<Rightarrow> take i s # Split (drop (i + length sep) s) sep)"
  by pat_completeness auto
termination
proof (relation "measure (\<lambda>(s, sep). length s)")
  show "wf (measure (\<lambda>(s :: string, sep :: string). length s))" by simp
next
  fix s sep :: string and i
  assume "sep \<noteq> []" and f: "find_sub s sep = Some i"
  moreover have "s \<noteq> []" using calculation by (cases s) auto
  ultimately show "((drop (i + length sep) s, sep), s, sep) \<in> measure (\<lambda>(s, sep). length s)"
    by simp
qed

declare Split.simps [simp del]

fun Join :: "string list \<Rightarrow> string \<Rightarrow> string" where
  "Join [] sep = []"
| "Join [x] sep = x"
| "Join (x # y # xs) sep = x @ sep @ Join (y # xs) sep"

text \<open>\<open>strings.ReplaceAll\<close> with one-byte arguments, the only use the program makes of it.\<close>

definition ReplaceByte :: "char \<Rightarrow> char \<Rightarrow> string \<Rightarrow> string" where
  "ReplaceByte a b s = map (\<lambda>c. if c = a then b else c) s"

text \<open>
  \<open>strings.TrimSpace\<close> strips Unicode white space: the ASCII spaces and the UTF-8
  encodings of U+0085, U+00A0, U+1680, U+2000 to U+200A, U+2028, U+2029, U+202F, U+205F
  and U+3000.
\<close>

definition space_seqs :: "string list" where
  "space_seqs =
     map (\<lambda>n. [char_of (n :: nat)]) [9, 10, 11, 12, 13, 32] @
     map (map (char_of :: nat \<Rightarrow> char))
       ([[0xC2, 0x85], [0xC2, 0xA0], [0xE1, 0x9A, 0x80]] @
        map (\<lambda>k. [0xE2, 0x80, k]) [0x80 ..< 0x8B] @
        [[0xE2, 0x80, 0xA8], [0xE2, 0x80, 0xA9], [0xE2, 0x80, 0xAF], [0xE2, 0x81, 0x9F],
         [0xE3, 0x80, 0x80]])"

fun trim_left :: "string list \<Rightarrow> nat \<Rightarrow> string \<Rightarrow> string" where
  "trim_left seqs 0 s = s"
| "trim_left seqs (Suc n) s =
     (case List.find (\<lambda>w. w \<noteq> [] \<and> HasPrefix s w) seqs of
        None \<Rightarrow> s
      | Some w \<Rightarrow> trim_left seqs n (drop (length w) s))"

definition TrimSpace :: "string \<Rightarrow> string" where
  "TrimSpace s =
     (let l = trim_left space_seqs (length s) s
      in rev (trim_left (map rev space_seqs) (length l) (rev l)))"

text \<open>\<open>textproto.TrimString\<close> strips the four ASCII spaces only.\<close>

definition is_ascii_space :: "char \<Rightarrow> bool" where
  "is_ascii_space c \<longleftrightarrow> of_char c \<in> {9, 10, 13, 32 :: nat}"

definition TrimString :: "string \<Rightarrow> string" where
  "TrimString s = rev (dropWhile is_ascii_space (rev (dropWhile is_ascii_space s)))"

text \<open>
  \<open>strings.ToUpper\<close> on the ASCII letters, and on the two other runes whose upper case is
  an ASCII letter (U+017F and U+0131). Other runes keep their bytes: the program only
  compares the result with ASCII words, and no other rune has an ASCII upper case.
\<close>

definition upper_char :: "char \<Rightarrow> char" where
  "upper_char c =
     (let n = of_char c :: nat in if 97 \<le> n \<and> n \<le> 122 then char_of (n - 32) else c)"

fun ToUpper :: "string \<Rightarrow> string" where
  "ToUpper [] = []"
| "ToUpper [c] = [upper_char c]"
| "ToUpper (c # d # cs) =
     (if of_char c = (0xC5 :: nat) \<and> of_char d = (0xBF :: nat) then CHR ''S'' # ToUpper cs
      else if of_char c = (0xC4 :: nat) \<and> of_char d = (0xB1 :: nat) then CHR ''I'' # ToUpper cs
      else upper_char c # ToUpper (d # cs))"

subsection \<open>Package strconv\<close>

definition digit_char :: "nat \<Rightarrow> char" where
  "digit_char d = char_of (48 + d)"

fun dec_digits :: "nat \<Rightarrow> string" where
  "dec_digits n =
     (if n < 10 then [digit_char n] else dec_digits (n div 10) @ [digit_char (n mod 10)])"

declare dec_digits.simps [simp del]

definition Itoa :: "int \<Rightarrow> string" where
  "Itoa i = (if i < 0 then CHR ''-'' # dec_digits (nat (- i)) else dec_digits (nat i))"

definition lower_nat :: "char \<Rightarrow> nat" where
  "lower_nat c = (of_char c :: nat) OR 32"

definition digit_val :: "char \<Rightarrow> nat option" where
  "digit_val c =
     (let n = of_char c :: nat in
      if 48 \<le> n \<and> n \<le> 57 then Some (n - 48)
      else if 97 \<le> lower_nat c \<and> lower_nat c \<le> 122 then Some (lower_nat c - 97 + 10)
      else None)"

text \<open>
  The digit loop of \<open>strconv.ParseUint\<close>; \<open>b0\<close> says the base argument was 0, which is
  when underscores are skipped. The two overflow tests of the source (\<open>n >= cutoff\<close> and
  \<open>n1 < n || n1 > maxVal\<close>) are the single test \<open>n1 > maxv\<close> on unbounded naturals.
\<close>

fun parse_digits :: "bool \<Rightarrow> nat \<Rightarrow> nat \<Rightarrow> nat \<Rightarrow> string \<Rightarrow> nat go_ret" where
  "parse_digits b0 base maxv n [] = (n, None)"
| "parse_digits b0 base maxv n (c # cs) =
     (if b0 \<and> c = CHR ''_'' then parse_digits b0 base maxv n cs
      else case digit_val c of
        None \<Rightarrow> (0, Some ErrSyntax)
      | Some d \<Rightarrow>
          if base \<le> d then (0, Some ErrSyntax)
          else if maxv < n * base + d then (maxv, Some ErrRange)
          else parse_digits b0 base maxv (n * base + d) cs)"

text \<open>The loop of \<open>strconv.underscoreOK\<close>: \<open>saw\<close> is the kind of the last character.\<close>

fun underscore_scan :: "bool \<Rightarrow> char \<Rightarrow> string \<Rightarrow> bool" where
  "underscore_scan hex saw [] = (saw \<noteq> CHR ''_'')"
| "underscore_scan hex saw (c # cs) =
     (let n = of_char c :: nat in
      if (48 \<le> n \<and> n \<le> 57) \<or> (hex \<and> 97 \<le> lower_nat c \<and> lower_nat c \<le> 102)
      then underscore_scan hex CHR ''0'' cs
      else if c = CHR ''_''
      then (if saw \<noteq> CHR ''0'' then False else underscore_scan hex CHR ''_'' cs)
      else if saw = CHR ''_'' then False
      else underscore_scan hex CHR ''!'' cs)"

definition underscoreOK :: "string \<Rightarrow> bool" where
  "underscoreOK s0 =
     (let s = (case s0 of c # cs \<Rightarrow> if c = CHR ''-'' \<or> c = CHR ''+'' then cs else s0 | [] \<Rightarrow> s0)
      in case s of
           c # d # cs \<Rightarrow>
             if c = CHR ''0'' \<and> lower_nat d \<in> {98, 111, 120}
             then underscore_scan (lower_nat d = 120) CHR ''0'' cs
             else underscore_scan False CHR ''^'' s
         | _ \<Rightarrow> underscore_scan False CHR ''^'' s)"

text \<open>The prefix handling of base 0: the effective base and the digits after the prefix.\<close>

definition base_prefix :: "string \<Rightarrow> nat \<times> string" where
  "base_prefix s =
     (case s of
        c # cs \<Rightarrow>
          if c \<noteq> CHR ''0'' then (10, s)
          else if 3 \<le> length s \<and> lower_nat (s ! 1) = 98 then (2, drop 2 s)
          else if 3 \<le> length s \<and> lower_nat (s ! 1) = 111 then (8, drop 2 s)
          else if 3 \<le> length s \<and> lower_nat (s ! 1) = 120 then (16, drop 2 s)
          else (8, cs)
      | [] \<Rightarrow> (10, s))"

definition ParseUint :: "string \<Rightarrow> nat \<Rightarrow> nat \<Rightarrow> nat go_ret" where
  "ParseUint s base bits =
     (if s = [] then (0, Some ErrSyntax)
      else let b0 = (base = 0);
               (b, ds) = (if b0 then base_prefix s else (base, s));
               (n, e) = parse_digits b0 b (2 ^ bits - 1) 0 ds
           in if e = None \<and> b0 \<and> CHR ''_'' \<in> set ds \<and> \<not> underscoreOK s
              then (0, Some ErrSyntax) else (n, e))"

definition ParseInt :: "string \<Rightarrow> nat \<Rightarrow> nat \<Rightarrow> int go_ret" where
  "ParseInt s base bits =
     (case s of
        [] \<Rightarrow> (0, Some ErrSyntax)
      | c # cs \<Rightarrow>
          let neg = (c = CHR ''-'');
              ds = (if c = CHR ''+'' \<or> c = CHR ''-'' then cs else s);
              (un, e) = ParseUint ds base bits;
              cutoff = 2 ^ (bits - 1)
          in if e \<noteq> None \<and> e \<noteq> Some ErrRange then (0, e)
             else if \<not> neg \<and> cutoff \<le> un then (int cutoff - 1, Some ErrRange)
             else if neg \<and> cutoff < un then (- int cutoff, Some ErrRange)
             else (if neg then - int un else int un, None))"

definition Atoi :: "string \<Rightarrow> int go_ret" where
  "Atoi s = ParseInt s 10 64"

text \<open>Go's conversion \<open>uint16(x)\<close> of an \<open>int\<close> or \<open>uint64\<close> keeps the low 16 bits.\<close>

definition uint16 :: "int \<Rightarrow> 16 word" where
  "uint16 i = word_of_int i"

definition port_str :: "16 word \<Rightarrow> string" where
  "port_str p = Itoa (uint p)"

subsection \<open>Searching and splitting\<close>

lemma HasPrefix_append [simp]: "HasPrefix (p @ s) p"
  by (simp add: HasPrefix_def)

lemma HasPrefix_Nil [simp]: "HasPrefix s []"
  by (simp add: HasPrefix_def)

lemma HasPrefixE: "HasPrefix s p \<Longrightarrow> \<exists>t. s = p @ t"
  unfolding HasPrefix_def by (metis append_take_drop_id)

lemma HasPrefix_single [simp]: "HasPrefix (c # cs) [b] \<longleftrightarrow> c = b"
  by (auto simp: HasPrefix_def)

lemma find_sub_Some: "find_sub s sub = Some i \<Longrightarrow> s = take i s @ sub @ drop (i + length sub) s"
proof (induction s arbitrary: i)
  case Nil
  then show ?case by (auto split: if_splits)
next
  case (Cons c cs)
  show ?case
  proof (cases "HasPrefix (c # cs) sub")
    case True
    with Cons.prems show ?thesis by (auto dest: HasPrefixE)
  next
    case False
    with Cons show ?thesis by (auto simp del: append_take_drop_id)
  qed
qed

lemma find_sub_bound: "find_sub s sub = Some i \<Longrightarrow> i + length sub \<le> length s"
proof (induction s arbitrary: i)
  case Nil
  then show ?case by (auto split: if_splits)
next
  case (Cons c cs)
  then show ?case
    by (cases "HasPrefix (c # cs) sub")
      (auto dest!: HasPrefixE dest: arg_cong [where f = length])
qed

lemma find_sub_single: "find_sub s [b] = find_byte b s"
  by (induction s) auto

lemma find_byte_None_iff: "find_byte b s = None \<longleftrightarrow> b \<notin> set s"
  by (induction s) auto

lemma find_byte_append_notin [simp]:
  "b \<notin> set xs \<Longrightarrow> find_byte b (xs @ b # ys) = Some (length xs)"
  by (induction xs) auto

lemma find_byte_SomeD:
  "find_byte b s = Some i \<Longrightarrow> i < length s \<and> s ! i = b \<and> b \<notin> set (take i s)"
  by (induction s arbitrary: i) (auto split: if_splits)

lemma first_split_unique:
  "d \<notin> set k \<Longrightarrow> d \<notin> set l \<Longrightarrow> k @ d # p = l @ d # r \<longleftrightarrow> k = l \<and> p = r"
  by (induction k l rule: list_induct2') auto

lemma Contains_single [simp]: "Contains s [b] \<longleftrightarrow> b \<in> set s"
  by (auto simp: Contains_def find_sub_single find_byte_None_iff)

lemma Join_Cons: "xs \<noteq> [] \<Longrightarrow> Join (x # xs) sep = x @ sep @ Join xs sep"
  by (cases xs) auto

lemma Split_not_Nil [simp]: "Split s sep = [] \<longleftrightarrow> sep = [] \<and> s = []"
  by (subst Split.simps) (auto split: option.splits)

text \<open>Splitting loses nothing: joining the pieces gives the string back.\<close>

lemma Join_Split [go_trip]: "sep \<noteq> [] \<Longrightarrow> Join (Split s sep) sep = s"
proof (induction s sep rule: Split.induct)
  case (1 s sep)
  show ?case
  proof (cases "find_sub s sep")
    case None
    with 1 show ?thesis by (simp add: Split.simps)
  next
    case (Some i)
    then have s: "take i s @ sep @ drop (i + length sep) s = s"
      by (metis find_sub_Some)
    from Some 1 have "Join (Split (drop (i + length sep) s) sep) sep = drop (i + length sep) s"
      by simp
    with Some 1 s show ?thesis
      by (subst Split.simps) (simp add: Join_Cons)
  qed
qed

lemma Split_byte_none: "b \<notin> set s \<Longrightarrow> Split s [b] = [s]"
  by (subst Split.simps) (simp add: find_sub_single find_byte_None_iff [symmetric])

lemma Split_byte_append: "b \<notin> set xs \<Longrightarrow> Split (xs @ b # ys) [b] = xs # Split ys [b]"
  by (subst Split.simps) (simp add: find_sub_single)

lemmas Split_byte = Split_byte_none Split_byte_append

lemma Split_byte_pieces: "x \<in> set (Split s [b]) \<Longrightarrow> b \<notin> set x"
proof (induction s "[b]" rule: Split.induct)
  case (1 s)
  show ?case
  proof (cases "find_byte b s")
    case None
    with "1.prems" show ?thesis
      by (simp add: Split_byte_none find_byte_None_iff)
  next
    case (Some i)
    with "1.prems" have "x = take i s \<or> x \<in> set (Split (drop (i + 1) s) [b])"
      by (subst (asm) Split.simps) (simp add: find_sub_single)
    with Some "1.hyps" show ?thesis
      by (auto simp: find_sub_single dest: find_byte_SomeD)
  qed
qed

subsection \<open>Printing and parsing numbers\<close>

lemma of_char_digit [simp]: "d < 10 \<Longrightarrow> of_char (digit_char d) = (48 + d :: nat)"
  by (simp add: digit_char_def)

lemma digit_val_digit [simp]: "d < 10 \<Longrightarrow> digit_val (digit_char d) = Some d"
  by (simp add: digit_val_def)

lemma digit_char_eq [simp]: "d < 10 \<Longrightarrow> digit_char d = c \<longleftrightarrow> of_char c = (48 + d :: nat)"
  by (metis of_char_digit of_char_eq_iff)

lemma dec_digits_not_Nil [simp]: "dec_digits n \<noteq> []"
  by (subst dec_digits.simps) simp

lemma set_dec_digits: "set (dec_digits n) \<subseteq> digit_char ` {..<10}"
proof (induction n rule: dec_digits.induct)
  case (1 n)
  show ?case
  proof (cases "n < 10")
    case True
    then show ?thesis by (subst dec_digits.simps) (simp del: digit_char_eq)
  next
    case False
    with 1 show ?thesis by (subst dec_digits.simps) (auto simp del: digit_char_eq)
  qed
qed

lemma dec_digits_notin: "of_char c < (48::nat) \<or> 57 < (of_char c :: nat) \<Longrightarrow> c \<notin> set (dec_digits n)"
  using set_dec_digits [of n] by fastforce

lemma dec_digits_hd_nonzero: "0 < n \<Longrightarrow> hd (dec_digits n) \<noteq> CHR ''0''"
proof (induction n rule: dec_digits.induct)
  case (1 n)
  show ?case
  proof (cases "n < 10")
    case True
    with 1 show ?thesis by (subst dec_digits.simps) simp
  next
    case False
    with 1 show ?thesis by (subst dec_digits.simps) simp
  qed
qed

lemma parse_digits_append:
  "parse_digits b0 base maxv n xs = (m, None) \<Longrightarrow>
   parse_digits b0 base maxv n (xs @ ys) = parse_digits b0 base maxv m ys"
  by (induction xs arbitrary: n) (auto split: option.splits if_splits)

lemma parse_dec_digits:
  "n \<le> maxv \<Longrightarrow> parse_digits b0 10 maxv 0 (dec_digits n) = (n, None)"
proof (induction n rule: dec_digits.induct)
  case (1 n)
  show ?case
  proof (cases "n < 10")
    case True
    with 1 show ?thesis by (subst dec_digits.simps) simp
  next
    case False
    with 1 have "parse_digits b0 10 maxv 0 (dec_digits (n div 10)) = (n div 10, None)" by simp
    with False 1 show ?thesis
      by (subst dec_digits.simps) (simp add: parse_digits_append)
  qed
qed

lemma base_prefix_dec_digits:
  "base_prefix (dec_digits n) = (if n = 0 then (8, []) else (10, dec_digits n))"
proof (cases "n = 0")
  case True
  then show ?thesis by (simp add: dec_digits.simps [of 0] base_prefix_def)
next
  case False
  then obtain c cs where "dec_digits n = c # cs" "c \<noteq> CHR ''0''"
    using dec_digits_hd_nonzero [of n] dec_digits_not_Nil [of n] by (cases "dec_digits n") auto
  with False show ?thesis by (simp add: base_prefix_def)
qed

lemma ParseUint_dec_digits [go_trip]:
  assumes "n < 2 ^ bits" and "base \<in> {0, 10}"
  shows "ParseUint (dec_digits n) base bits = (n, None)"
  using assms parse_dec_digits [of n "2 ^ bits - 1"] dec_digits_notin [of "CHR ''_''" n]
  by (auto simp: ParseUint_def base_prefix_dec_digits)

lemma ParseUint_Itoa [go_trip]:
  "n < 2 ^ bits \<Longrightarrow> ParseUint (Itoa (int n)) 0 bits = (n, None)"
  by (simp add: Itoa_def ParseUint_dec_digits)

lemma Itoa_not_Nil [simp]: "Itoa i \<noteq> []"
  by (simp add: Itoa_def)

lemma Itoa_notin: "of_char c < (45::nat) \<or> 57 < (of_char c :: nat) \<Longrightarrow> c \<notin> set (Itoa i)"
  using dec_digits_notin [of c] by (auto simp: Itoa_def)

lemma Atoi_Itoa [go_trip]:
  assumes "- (2 ^ 63) \<le> i" and "i < 2 ^ 63"
  shows "Atoi (Itoa i) = (i, None)"
proof (cases "i < 0")
  case True
  with assms have "nat (- i) < 2 ^ 64" "nat (- i) \<le> 2 ^ 63" by auto
  with True show ?thesis
    by (auto simp: Atoi_def ParseInt_def Itoa_def ParseUint_dec_digits Let_def)
next
  case False
  with assms have n: "nat i < 2 ^ 64" "nat i < 2 ^ 63" by auto
  obtain c cs where d: "dec_digits (nat i) = c # cs" by (cases "dec_digits (nat i)") auto
  with dec_digits_notin [of "CHR ''+''" "nat i"] dec_digits_notin [of "CHR ''-''" "nat i"]
  have "c \<noteq> CHR ''+''" "c \<noteq> CHR ''-''" by auto
  with False n d ParseUint_dec_digits [of "nat i" 64 10] show ?thesis
    by (auto simp: Atoi_def ParseInt_def Itoa_def Let_def)
qed

lemma port_str_not_Nil [simp]: "port_str p \<noteq> []"
  by (simp add: port_str_def)

lemma uint16_bounds: "uint (p :: 16 word) < 65536"
  using uint_bounded [of p] by simp

lemma Atoi_port_str [simp]: "Atoi (port_str p) = (uint p, None)"
proof -
  have "- (2 ^ 63) \<le> uint p" "uint p < 2 ^ 63"
    using uint16_bounds [of p] by (auto intro: order_trans [OF _ uint_ge_0])
  then show ?thesis by (simp add: port_str_def Atoi_Itoa)
qed

lemma uint16_uint [simp]: "uint16 (uint p) = p"
  by (simp add: uint16_def)

lemma port_str_notin: "of_char c < (45::nat) \<or> 57 < (of_char c :: nat) \<Longrightarrow> c \<notin> set (port_str p)"
  by (simp add: port_str_def Itoa_notin)

lemma colon_notin_port [simp]: "CHR '':'' \<notin> set (port_str p)"
  by (simp add: port_str_notin)

lemma port_str_inject [simp]: "port_str p = port_str q \<longleftrightarrow> p = q"
  by (metis Atoi_port_str prod.inject uint16_uint)

end
