(* ===== verification/Tools.thy ===== *)
theory Tools
  imports Go_Prelude
begin

section \<open>Address helpers, process configuration and command-line rewriting\<close>

text \<open>
  The packages \<open>utils/tools\<close>, \<open>utils/trace\<close>, \<open>config\<close> and \<open>utils/daemon\<close>: splitting
  \<open>ip:port\<close> strings, the process-wide settings (the package variables of
  \<open>config/config.go\<close> are the fields of the record \<open>settings\<close>), and the argument list a
  daemon is started with. Logging is not modelled.
\<close>

subsection \<open>utils/tools/string.go\<close>

text \<open>The loops run downwards; the second argument is the number of indices left.\<close>

fun GetPort_loop :: "string \<Rightarrow> nat \<Rightarrow> string" where
  "GetPort_loop addr 0 = []"
| "GetPort_loop addr (Suc i) =
     (if addr ! i = CHR '':'' then drop (Suc i) addr else GetPort_loop addr i)"

definition GetPort :: "string \<Rightarrow> string" where
  "GetPort addr = GetPort_loop addr (length addr)"

fun GetRemoteIp_loop :: "string \<Rightarrow> nat \<Rightarrow> string" where
  "GetRemoteIp_loop addr 0 = addr"
| "GetRemoteIp_loop addr (Suc i) =
     (if i < 1 then addr
      else if addr ! i = CHR '':'' then take i addr else GetRemoteIp_loop addr i)"

definition GetRemoteIp :: "string \<Rightarrow> string" where
  "GetRemoteIp addr = GetRemoteIp_loop addr (length addr)"

text \<open>\<open>crypto/md5\<close> is a parameter: the program only compares digests.\<close>

definition hex_digit :: "nat \<Rightarrow> char" where
  "hex_digit d = (if d < 10 then char_of (48 + d) else char_of (87 + d))"

definition hex_encode :: "string \<Rightarrow> string" where
  "hex_encode s =
     concat (map (\<lambda>c. [hex_digit ((of_char c :: nat) div 16), hex_digit ((of_char c :: nat) mod 16)]) s)"

definition Md5Str :: "(string \<Rightarrow> string) \<Rightarrow> string \<Rightarrow> string go_ret" where
  "Md5Str md5 s = (hex_encode (md5 s), None)"

definition FillPort :: "string \<Rightarrow> string" where
  "FillPort port =
     (if \<not> Contains port '':'' then
        (case Atoi port of (d, err) \<Rightarrow>
           if err = None \<and> Itoa d = port then CHR '':'' # port else port)
      else port)"

subsection \<open>utils/trace/trace.go\<close>

definition trace_ID :: "nat \<Rightarrow> string" where
  "trace_ID i = ''ID #'' @ Itoa (int i) @ '',''"

subsection \<open>config/config.go\<close>

record settings =
  ProxyScheme :: string
  ProxyServer :: string
  ProxyPort :: "16 word"
  DebugLevel :: int
  ListenPort :: "16 word"

definition init_settings :: settings where
  "init_settings =
     \<lparr>ProxyScheme = ''tunnel'', ProxyServer = '''', ProxyPort = 0, DebugLevel = 0, ListenPort = 0\<rparr>"

definition SetProxyServer :: "string \<Rightarrow> settings \<Rightarrow> settings" where
  "SetProxyServer spec cfg =
     (if spec = '''' then cfg
      else
        let tmp = Split spec ''://'';
            (cfg, spec) = (if length tmp = 2 then (cfg\<lparr>ProxyScheme := tmp ! 0\<rparr>, tmp ! 1)
                           else (cfg, spec));
            tmp = Split spec '':''
        in if length tmp = 2 then
             (case Atoi (tmp ! 1) of
                (portInt, None) \<Rightarrow>
                  cfg\<lparr>ProxyServer := tmp ! 0, ProxyPort := uint16 portInt\<rparr>
              | (portInt, Some err) \<Rightarrow> cfg)
           else cfg)"

definition SetDebugLevel :: "int \<Rightarrow> settings \<Rightarrow> settings" where
  "SetDebugLevel gDebug cfg = cfg\<lparr>DebugLevel := gDebug\<rparr>"

text \<open>A parse error is logged and the value returned beside it is used.\<close>

definition SetListenPort :: "string \<Rightarrow> settings \<Rightarrow> settings" where
  "SetListenPort addr cfg = cfg\<lparr>ListenPort := uint16 (fst (Atoi (GetPort addr)))\<rparr>"

definition IfEmptyThen :: "string \<Rightarrow> string \<Rightarrow> string \<Rightarrow> string" where
  "IfEmptyThen str str2 str3 =
     (if str = '''' then (if str2 = '''' then str3 else str2) else str)"

subsection \<open>utils/daemon/daemon.go\<close>

text \<open>The loop of \<open>Daemonize\<close> that rewrites the first \<open>-daemon\<close> flag of the child's arguments.\<close>

fun daemon_args :: "string list \<Rightarrow> string list" where
  "daemon_args [] = []"
| "daemon_args (a # as) =
     (if a = ''-daemon'' \<or> a = ''-daemon=true'' then ''-daemon=false'' # as
      else a # daemon_args as)"

datatype daemon_action = Continue | ForkChild "string list"

definition Daemonize :: "bool \<Rightarrow> int \<Rightarrow> string list \<Rightarrow> daemon_action" where
  "Daemonize daemon ppid osArgs =
     (if daemon \<and> ppid > 1 then ForkChild (daemon_args (tl osArgs)) else Continue)"

definition IsForeground :: "(string \<Rightarrow> string) \<Rightarrow> string \<Rightarrow> bool" where
  "IsForeground getenv envName = (getenv envName = '''')"

subsection \<open>Lemmas\<close>

lemma GetPort_loop_found:
  assumes "CHR '':'' \<notin> set p" and "k \<le> length p"
  shows "GetPort_loop (h @ CHR '':'' # p) (Suc (length h) + k) = p"
  using assms
proof (induction k)
  case 0
  then show ?case by (simp add: nth_append)
next
  case (Suc k)
  then have "p ! k \<noteq> CHR '':''" by (auto simp: in_set_conv_nth)
  with Suc show ?case by (simp add: nth_append)
qed

lemma GetPort_join [simp]: "CHR '':'' \<notin> set p \<Longrightarrow> GetPort (h @ CHR '':'' # p) = p"
  using GetPort_loop_found [of p "length p" h] by (simp add: GetPort_def)

lemma GetPort_join0 [simp]: "CHR '':'' \<notin> set p \<Longrightarrow> GetPort (CHR '':'' # p) = p"
  using GetPort_join [of p "[]"] by simp

lemma GetRemoteIp_loop_found:
  assumes "CHR '':'' \<notin> set p" and "k \<le> length p" and "h \<noteq> []"
  shows "GetRemoteIp_loop (h @ CHR '':'' # p) (Suc (length h) + k) = h"
  using assms
proof (induction k)
  case 0
  then show ?case by (simp add: nth_append)
next
  case (Suc k)
  then have "p ! k \<noteq> CHR '':''" by (auto simp: in_set_conv_nth)
  with Suc show ?case by (simp add: nth_append)
qed

lemma GetRemoteIp_join:
  "CHR '':'' \<notin> set p \<Longrightarrow> h \<noteq> [] \<Longrightarrow> GetRemoteIp (h @ CHR '':'' # p) = h"
  using GetRemoteIp_loop_found [of p "length p" h] by (simp add: GetRemoteIp_def)

lemma FillPort_port [simp]: "FillPort (port_str p) = CHR '':'' # port_str p"
  by (simp add: FillPort_def port_str_def [symmetric])

lemma FillPort_colon [simp]: "CHR '':'' \<in> set s \<Longrightarrow> FillPort s = s"
  by (simp add: FillPort_def)

lemma find_sub_notin_hd: "c \<notin> set s \<Longrightarrow> find_sub s (c # w) = None"
  by (induction s) (auto simp: HasPrefix_def)

lemma find_sub_append_notin:
  "c \<notin> set s \<Longrightarrow> find_sub (s @ (c # w) @ t) (c # w) = Some (length s)"
  by (induction s) (auto simp: HasPrefix_def)

text \<open>A specification without \<open>://\<close> in its parts splits into scheme and address.\<close>

lemma Split_scheme:
  assumes "CHR '':'' \<notin> set sch" and "find_sub rest ''://'' = None"
  shows "Split (sch @ ''://'' @ rest) ''://'' = [sch, rest]"
proof -
  have "find_sub (sch @ ''://'' @ rest) ''://'' = Some (length sch)"
    by (rule find_sub_append_notin [OF assms(1)])
  then have "Split (sch @ ''://'' @ rest) ''://'' = sch # Split rest ''://''"
    by (subst Split.simps) simp
  also have "Split rest ''://'' = [rest]"
    by (subst Split.simps) (simp add: assms(2))
  finally show ?thesis .
qed

lemma Split_host_port:
  "CHR '':'' \<notin> set h \<Longrightarrow> Split (h @ CHR '':'' # port_str p) '':'' = [h, port_str p]"
  by (simp add: Split_byte)

end
