(* ===== verification/Crypto.thy ===== *)
theory Crypto
  imports Go_Prelude
begin

section \<open>AES-CBC with PKCS padding\<close>

text \<open>
  The package \<open>crypto\<close> (\<open>crypto/aes.go\<close>) and the CBC mode of \<open>crypto/cipher\<close> it uses. The AES
  block transformation of the standard library is the pair of parameters \<open>E\<close> and \<open>D\<close>
  (key, then block); the theorems assume of it only what is documented: on a 16-byte
  block it returns 16 bytes, and \<open>D\<close> inverts \<open>E\<close>.
\<close>

type_synonym block_fun = "string \<Rightarrow> string \<Rightarrow> string"

subsection \<open>Padding\<close>

definition padding :: "string \<Rightarrow> nat \<Rightarrow> string" where
  "padding src blockSize =
     (let padNum = blockSize - length src mod blockSize
      in src @ replicate padNum (char_of padNum))"

text \<open>Indexing the last byte of an empty slice and a negative slice bound both panic.\<close>

definition unpadding :: "string \<Rightarrow> string outcome" where
  "unpadding src =
     (let n = length src in
      if n = 0 then Panics
      else let unPadNum = of_char (src ! (n - 1))
           in if n < unPadNum then Panics else Returns (take (n - unPadNum) src))"

subsection \<open>The CBC mode\<close>

definition xor_char :: "char \<Rightarrow> char \<Rightarrow> char" where
  "xor_char a b = char_of ((of_char a :: nat) XOR of_char b)"

definition xor_bytes :: "string \<Rightarrow> string \<Rightarrow> string" where
  "xor_bytes a b = map2 xor_char a b"

function cbc_encrypt :: "(string \<Rightarrow> string) \<Rightarrow> string \<Rightarrow> string \<Rightarrow> string" where
  "cbc_encrypt E iv src =
     (if src = [] then []
      else let c = E (xor_bytes (take 16 src) iv) in c @ cbc_encrypt E c (drop 16 src))"
  by pat_completeness auto
termination by (relation "measure (\<lambda>(E, iv, src). length src)") auto

function cbc_decrypt :: "(string \<Rightarrow> string) \<Rightarrow> string \<Rightarrow> string \<Rightarrow> string" where
  "cbc_decrypt D iv src =
     (if src = [] then []
      else xor_bytes (D (take 16 src)) iv @ cbc_decrypt D (take 16 src) (drop 16 src))"
  by pat_completeness auto
termination by (relation "measure (\<lambda>(D, iv, src). length src)") auto

declare cbc_encrypt.simps [simp del] cbc_decrypt.simps [simp del]

subsection \<open>crypto/aes.go\<close>

definition key_sizes :: "nat set" where
  "key_sizes = {16, 24, 32}"

text \<open>
  \<open>aes.NewCipher\<close> refuses other key sizes; \<open>cipher.NewCBCEncrypter\<close> panics when the IV,
  here the key, is not one block long; \<open>CryptBlocks\<close> panics on a partial block.
\<close>

definition EncryptAES :: "block_fun \<Rightarrow> string \<Rightarrow> string \<Rightarrow> string go_ret outcome" where
  "EncryptAES E src key =
     (if length key \<notin> key_sizes then Returns ([], Some (ErrMsg ''crypto/aes: invalid key size''))
      else
        let src = padding src 16
        in if length key \<noteq> 16 then Panics
           else if length src mod 16 \<noteq> 0 then Panics
           else Returns (cbc_encrypt (E key) key src, None))"

definition DecryptAES :: "block_fun \<Rightarrow> string \<Rightarrow> string \<Rightarrow> string go_ret outcome" where
  "DecryptAES D src key =
     (if length key \<notin> key_sizes then Returns ([], Some (ErrMsg ''crypto/aes: invalid key size''))
      else if length key \<noteq> 16 then Panics
      else if length src mod 16 \<noteq> 0 then Panics
      else case unpadding (cbc_decrypt (D key) key src) of
             Panics \<Rightarrow> Panics
           | Returns s \<Rightarrow> Returns (s, None))"

text \<open>What the program relies on of the AES block transformation.\<close>

definition block_cipher :: "block_fun \<Rightarrow> block_fun \<Rightarrow> bool" where
  "block_cipher E D \<longleftrightarrow>
     (\<forall>k b. length b = 16 \<longrightarrow>
        length (E k b) = 16 \<and> length (D k b) = 16 \<and> D k (E k b) = b)"

subsection \<open>Lemmas\<close>

lemma length_padding: "0 < bs \<Longrightarrow> length (padding s bs) = (length s div bs + 1) * bs"
proof -
  assume "0 < bs"
  then have "length s mod bs < bs" by simp
  moreover have "bs * (length s div bs) + length s mod bs = length s" by simp
  ultimately have "length s + (bs - length s mod bs) = bs * (length s div bs) + bs"
    by linarith
  then show ?thesis by (simp add: padding_def Let_def algebra_simps)
qed

lemma unpadding_padding:
  assumes "0 < bs" and "bs < 256"
  shows "unpadding (padding s bs) = Returns s"
proof -
  define p where "p = bs - length s mod bs"
  have p: "0 < p" "p < 256" using assms by (auto simp: p_def)
  then have "(s @ replicate p (char_of p)) ! (length s + p - 1) = char_of p"
    by (subst nth_append) auto
  moreover have "of_char (char_of p :: char) = p" using p by simp
  ultimately show ?thesis using p
    by (simp add: unpadding_def padding_def Let_def flip: p_def)
qed

lemma take_bit_of_char [simp]: "take_bit 8 (of_char c :: nat) = of_char c"
  by (simp add: take_bit_eq_mod)

lemma xor_char_cancel [simp]: "xor_char (xor_char a b) b = a"
proof -
  have "of_char (char_of ((of_char a :: nat) XOR of_char b) :: char)
      = take_bit 8 ((of_char a :: nat) XOR of_char b)"
    by (simp add: take_bit_eq_mod)
  also have "\<dots> = of_char a XOR of_char b"
    by (simp add: take_bit_xor)
  finally show ?thesis by (simp add: xor_char_def xor.assoc)
qed

lemma length_xor_bytes [simp]: "length (xor_bytes a b) = min (length a) (length b)"
  by (simp add: xor_bytes_def)

lemma xor_bytes_cancel [simp]: "length a = length b \<Longrightarrow> xor_bytes (xor_bytes a b) b = a"
  by (induction a b rule: list_induct2) (auto simp: xor_bytes_def)

text \<open>CBC decryption inverts CBC encryption on whole blocks and keeps the length.\<close>

lemma cbc_roundtrip:
  assumes E: "\<And>b. length b = 16 \<Longrightarrow> length (E b) = 16"
    and D: "\<And>b. length b = 16 \<Longrightarrow> D (E b) = b"
  shows "length src = 16 * n \<Longrightarrow> length iv = 16 \<Longrightarrow>
    length (cbc_encrypt E iv src) = 16 * n \<and> cbc_decrypt D iv (cbc_encrypt E iv src) = src"
proof (induction n arbitrary: src iv)
  case 0
  then show ?case by (simp add: cbc_encrypt.simps cbc_decrypt.simps)
next
  case (Suc n)
  define x where "x = xor_bytes (take 16 src) iv"
  have x: "length x = 16" using Suc.prems by (simp add: x_def)
  have c: "length (E x) = 16" using E x by simp
  have "length (drop 16 src) = 16 * n" using Suc.prems by simp
  from Suc.IH [OF this c] have IH: "length (cbc_encrypt E (E x) (drop 16 src)) = 16 * n"
    "cbc_decrypt D (E x) (cbc_encrypt E (E x) (drop 16 src)) = drop 16 src" by auto
  have enc: "cbc_encrypt E iv src = E x @ cbc_encrypt E (E x) (drop 16 src)"
    using Suc.prems by (subst cbc_encrypt.simps) (auto simp: Let_def x_def)
  have "xor_bytes (D (E x)) iv = take 16 src"
    using D [OF x] Suc.prems by (simp add: x_def)
  then have "cbc_decrypt D iv (E x @ cbc_encrypt E (E x) (drop 16 src)) = src"
    using c IH(2) by (subst cbc_decrypt.simps) auto
  with enc c IH(1) show ?case by simp
qed

lemma length_cbc_decrypt:
  assumes D: "\<And>b. length b = 16 \<Longrightarrow> length (D b) = 16"
  shows "length src = 16 * n \<Longrightarrow> length iv = 16 \<Longrightarrow> length (cbc_decrypt D iv src) = length src"
proof (induction n arbitrary: src iv)
  case 0
  then show ?case by (simp add: cbc_decrypt.simps)
next
  case (Suc n)
  then show ?case by (subst cbc_decrypt.simps) (auto simp: D)
qed

text \<open>A block cipher to evaluate with: the key is xored onto the block.\<close>

definition xor_cipher :: block_fun where
  "xor_cipher k b = (if length k = length b then xor_bytes b k else b)"

lemma block_cipher_xor: "block_cipher xor_cipher xor_cipher"
  by (auto simp: block_cipher_def xor_cipher_def)

lemma aes_round_trip:
  assumes "block_cipher E D" and "length key = 16"
  shows "\<exists>c. EncryptAES E src key = Returns (c, None)
       \<and> length c = (length src div 16 + 1) * 16
       \<and> DecryptAES D c key = Returns (src, None)"
proof -
  define p where "p = padding src 16"
  have p: "length p = 16 * (length src div 16 + 1)"
    by (simp add: p_def length_padding)
  have c: "length (cbc_encrypt (E key) key p) = 16 * (length src div 16 + 1)"
    "cbc_decrypt (D key) key (cbc_encrypt (E key) key p) = p"
    using cbc_roundtrip [of "E key" "D key" p _ key, OF _ _ p] assms
    by (auto simp: block_cipher_def)
  have "EncryptAES E src key = Returns (cbc_encrypt (E key) key p, None)"
    using assms(2) p by (simp add: EncryptAES_def key_sizes_def Let_def flip: p_def)
  moreover have "DecryptAES D (cbc_encrypt (E key) key p) key = Returns (src, None)"
    using assms(2) c unpadding_padding [of 16 src]
    by (simp add: DecryptAES_def key_sizes_def flip: p_def)
  ultimately show ?thesis using c by auto
qed

subsection \<open>Properties\<close>

text \<open>
  With a 16-byte key, \<open>EncryptAES\<close> succeeds on every plaintext, the ciphertext is
  the plaintext's length rounded up to the next multiple of 16 (a full block is added
  to a multiple), and \<open>DecryptAES\<close> under the same key gives the plaintext back.
\<close>

theorem EncryptAES_DecryptAES:
  assumes "block_cipher E D" and "length key = 16"
  shows "\<exists>c. EncryptAES E src key = Returns (c, None)
       \<and> length c = (length src div 16 + 1) * 16
       \<and> DecryptAES D c key = Returns (src, None)"
  by (rule aes_round_trip [OF assms])

theorem EncryptAES_DecryptAES_witness:
  "\<exists>c. EncryptAES xor_cipher ''golang.org:443'' ''anyproxyproxyany'' = Returns (c, None)
       \<and> length c = 16
       \<and> DecryptAES xor_cipher c ''anyproxyproxyany'' = Returns (''golang.org:443'', None)"
  using EncryptAES_DecryptAES [OF block_cipher_xor, of "''anyproxyproxyany''" "''golang.org:443''"]
  by simp

text \<open>
  Under a 16-byte key \<open>DecryptAES\<close> never returns an error. It returns a plaintext
  exactly when the ciphertext is a non-empty whole number of blocks whose decrypted last
  byte is at most its length, and panics on every other input, such as a peer's truncated
  or forged ciphertext.
\<close>

theorem DecryptAES_outcome:
  assumes "block_cipher E D" and "length key = 16"
  shows "DecryptAES D src key =
    (if src \<noteq> [] \<and> 16 dvd length src
        \<and> (of_char (last (cbc_decrypt (D key) key src)) :: nat) \<le> length src
     then Returns (take (length src - of_char (last (cbc_decrypt (D key) key src)))
                     (cbc_decrypt (D key) key src), None)
     else Panics)"
proof (cases "16 dvd length src")
  case False
  then show ?thesis using assms by (simp add: DecryptAES_def key_sizes_def dvd_eq_mod_eq_0)
next
  case True
  then obtain n where "length src = 16 * n" by (auto elim: dvdE)
  from length_cbc_decrypt [OF _ this] assms
  have "length (cbc_decrypt (D key) key src) = length src"
    by (simp add: block_cipher_def)
  moreover from this have "src \<noteq> [] \<Longrightarrow> cbc_decrypt (D key) key src \<noteq> []" by auto
  ultimately show ?thesis using assms(2) True
    by (auto simp: DecryptAES_def key_sizes_def unpadding_def Let_def last_conv_nth)
qed

theorem DecryptAES_outcome_witness:
  "DecryptAES xor_cipher ''abc'' ''anyproxyproxyany'' = Panics
   \<and> DecryptAES xor_cipher [] ''anyproxyproxyany'' = Panics"
  using DecryptAES_outcome [OF block_cipher_xor, of "''anyproxyproxyany''"]
  by (simp add: dvd_eq_mod_eq_0 del: One_nat_def)

end
