(* ===== verification/Conf_Router.thy ===== *)
theory Conf_Router
  imports Go_Prelude
begin

section \<open>The router configuration\<close>

text \<open>
  The package \<open>utils/conf\<close> (\<open>router.go\<close>, \<open>config.go\<close>): the configuration records, the
  search for the file, loading and reloading. The YAML package, the file system and the
  directories of the process are parameters: \<open>load\<close> reads and parses a file, \<open>stat\<close> says
  what the file system knows of a path.
\<close>

subsection \<open>utils/conf/router.go\<close>

record port_map =
  From :: "16 word"
  To :: "16 word"

record conf_host =
  h_Name :: string
  h_Match :: string
  h_Target :: string
  h_DNS :: string
  h_IP :: string
  h_Port :: "port_map list"
  h_Proxy :: string
  h_AllowIP :: "string list"

record subscribe =
  sub_Key :: string
  sub_Val :: string

record conf_websocket =
  ws_Listen :: string
  ws_Connect :: string
  ws_Host :: string
  ws_User :: string
  ws_Pass :: string
  ws_Email :: string
  ws_Subscribe :: "subscribe list"

record conf_default =
  d_Match :: string
  d_Target :: string
  d_DNS :: string
  d_Proxy :: string
  d_TCPTarget :: string

record conf_tcpcopy =
  tc_Enable :: bool
  tc_IP :: string
  tc_Port :: "16 word"

record conf_firstline =
  fl_Host :: string
  fl_Custom :: "string \<rightharpoonup> string"

record router =
  r_Listen :: string
  r_Network :: string
  r_LogDir :: string
  r_Watcher :: bool
  r_Token :: string
  r_TcpCopy :: conf_tcpcopy
  r_Default :: conf_default
  r_Hosts :: "conf_host list"
  r_AllowIP :: "string list"
  r_FirstLine :: conf_firstline
  r_Websocket :: conf_websocket

text \<open>The zero values of Go.\<close>

definition no_host :: conf_host where
  "no_host = \<lparr>h_Name = '''', h_Match = '''', h_Target = '''', h_DNS = '''', h_IP = '''', h_Port = [],
     h_Proxy = '''', h_AllowIP = []\<rparr>"

definition empty_router :: router where
  "empty_router =
     \<lparr>r_Listen = '''', r_Network = '''', r_LogDir = '''', r_Watcher = False, r_Token = '''',
      r_TcpCopy = \<lparr>tc_Enable = False, tc_IP = '''', tc_Port = 0\<rparr>,
      r_Default = \<lparr>d_Match = '''', d_Target = '''', d_DNS = '''', d_Proxy = '''', d_TCPTarget = ''''\<rparr>,
      r_Hosts = [], r_AllowIP = [], r_FirstLine = \<lparr>fl_Host = '''', fl_Custom = Map.empty\<rparr>,
      r_Websocket = \<lparr>ws_Listen = '''', ws_Connect = '''', ws_Host = '''', ws_User = '''', ws_Pass = '''',
        ws_Email = '''', ws_Subscribe = []\<rparr>\<rparr>"

subsection \<open>Finding the file\<close>

datatype stat_result = StatOk | StatNotExist | StatError

definition fileExists :: "(string \<Rightarrow> stat_result) \<Rightarrow> string \<Rightarrow> bool" where
  "fileExists stat name = (stat name \<noteq> StatNotExist)"

text \<open>\<open>filepath.Join\<close>: join with slashes, then clean dots, double dots and empty parts.\<close>

fun clean_parts :: "bool \<Rightarrow> string list \<Rightarrow> string list \<Rightarrow> string list" where
  "clean_parts rooted acc [] = rev acc"
| "clean_parts rooted acc (p # ps) =
     (if p = '''' \<or> p = ''.'' then clean_parts rooted acc ps
      else if p = ''..'' then
        (case acc of
           [] \<Rightarrow> if rooted then clean_parts rooted [] ps else clean_parts rooted [''..''] ps
         | a # as \<Rightarrow> if a = ''..'' then clean_parts rooted (''..'' # acc) ps else clean_parts rooted as ps)
      else clean_parts rooted (p # acc) ps)"

definition path_clean :: "string \<Rightarrow> string" where
  "path_clean p =
     (let rooted = HasPrefix p ''/''; r = Join (clean_parts rooted [] (Split p ''/'')) ''/''
      in if p = '''' then ''.'' else if rooted then CHR ''/'' # r else if r = '''' then ''.'' else r)"

definition path_join :: "string list \<Rightarrow> string" where
  "path_join ps =
     (let qs = dropWhile (\<lambda>p. p = '''') ps in if qs = [] then '''' else path_clean (Join qs ''/''))"

record dirs =
  workPath :: string
  AppPath :: string
  AppSrcPath :: string

definition GetPath :: "(string \<Rightarrow> stat_result) \<Rightarrow> dirs \<Rightarrow> string \<Rightarrow> string go_ret" where
  "GetPath stat ds filename =
     (let configPath = path_join [workPath ds, ''conf'', filename]
      in if fileExists stat configPath then (configPath, None)
         else let configPath = path_join [AppPath ds, ''conf'', filename]
              in if fileExists stat configPath then (configPath, None)
                 else let configPath = path_join [AppSrcPath ds, ''conf'', filename]
                      in if fileExists stat configPath then (configPath, None)
                         else ('''', Some (ErrMsg (''conf/'' @ filename @ '' not found''))))"

subsection \<open>Loading and reloading\<close>

text \<open>
  The global \<open>RouterConfig\<close> is a pointer, nil until a file has been loaded; \<open>watching\<close> is
  the path of the file a watcher goroutine follows.
\<close>

record conf_state =
  RouterConfig :: "router option"
  watching :: "string option"

definition conf_path :: "(string \<Rightarrow> stat_result) \<Rightarrow> dirs \<Rightarrow> string \<Rightarrow> string go_ret" where
  "conf_path stat ds filePath =
     (if filePath = '''' then GetPath stat ds ''router.yaml''
      else if \<not> fileExists stat filePath then GetPath stat ds filePath
      else (filePath, None))"

definition LoadAllConfig ::
  "(string \<Rightarrow> stat_result) \<Rightarrow> dirs \<Rightarrow> (string \<Rightarrow> router go_ret) \<Rightarrow> string \<Rightarrow> conf_state \<Rightarrow> conf_state" where
  "LoadAllConfig stat ds load filePath st =
     (case conf_path stat ds filePath of
        (path, Some err) \<Rightarrow> st
      | (path, None) \<Rightarrow>
          (case load path of
             (cnf, Some err) \<Rightarrow> st
           | (cnf, None) \<Rightarrow>
               let st = st\<lparr>RouterConfig := Some cnf\<rparr>
               in if r_Watcher cnf then st\<lparr>watching := Some path\<rparr> else st))"

text \<open>The events the watcher goroutine selects on; a closed channel ends it.\<close>

datatype watch_event = FileEvent nat | WatchError | WatchClosed

definition op_Write :: nat where "op_Write = 2"

text \<open>One turn of the loop; \<open>load\<close> is what the file parses to at that moment.\<close>

definition notify_step :: "(string \<Rightarrow> router go_ret) \<Rightarrow> watch_event \<Rightarrow> conf_state \<Rightarrow> conf_state" where
  "notify_step load ev st =
     (case watching st of
        None \<Rightarrow> st
      | Some path \<Rightarrow>
          (case ev of
             FileEvent op \<Rightarrow>
               if op AND op_Write = op_Write then
                 (case load path of
                    (cnf, Some err) \<Rightarrow> st
                  | (cnf, None) \<Rightarrow> st\<lparr>RouterConfig := Some cnf\<rparr>)
               else st
           | WatchError \<Rightarrow> st
           | WatchClosed \<Rightarrow> st\<lparr>watching := None\<rparr>))"

fun notify_run :: "((string \<Rightarrow> router go_ret) \<times> watch_event) list \<Rightarrow> conf_state \<Rightarrow> conf_state" where
  "notify_run [] st = st"
| "notify_run ((load, ev) # evs) st = notify_run evs (notify_step load ev st)"

subsection \<open>Lemmas\<close>

lemma GetPath_cases:
  "GetPath stat ds f = (p, None) \<Longrightarrow>
   fileExists stat p \<and> p \<in> set (map (\<lambda>d. path_join [d, ''conf'', f]) [workPath ds, AppPath ds, AppSrcPath ds])"
  by (auto simp: GetPath_def Let_def split: if_splits)

lemma notify_step_loaded: "RouterConfig st \<noteq> None \<Longrightarrow> RouterConfig (notify_step load ev st) \<noteq> None"
  by (auto simp: notify_step_def split: option.splits watch_event.splits prod.splits)

lemma notify_run_append: "notify_run (xs @ ys) st = notify_run ys (notify_run xs st)"
  by (induction xs arbitrary: st) auto

text \<open>The write events before the channel closes, with what the file was then.\<close>

fun effective :: "((string \<Rightarrow> router go_ret) \<times> watch_event) list \<Rightarrow> (string \<Rightarrow> router go_ret) list" where
  "effective [] = []"
| "effective ((load, FileEvent op) # evs) =
     (if op AND op_Write = op_Write then load # effective evs else effective evs)"
| "effective ((load, WatchError) # evs) = effective evs"
| "effective ((load, WatchClosed) # evs) = []"

definition good_loads :: "string \<Rightarrow> (string \<Rightarrow> router go_ret) list \<Rightarrow> router list" where
  "good_loads path ls = map (\<lambda>l. fst (l path)) (filter (\<lambda>l. snd (l path) = None) ls)"

lemma notify_run_closed: "watching st = None \<Longrightarrow> notify_run evs st = st"
  by (induction evs arbitrary: st) (auto simp: notify_step_def)

lemma notify_run_last:
  "watching st = Some path \<Longrightarrow>
   RouterConfig (notify_run evs st) =
     (case good_loads path (effective evs) of [] \<Rightarrow> RouterConfig st | cs \<Rightarrow> Some (last cs))"
proof (induction evs arbitrary: st rule: effective.induct)
  case 1
  then show ?case by (simp add: good_loads_def)
next
  case (2 load op evs)
  show ?case
  proof (cases "op AND op_Write = op_Write \<and> snd (load path) = None")
    case True
    then have "notify_step load (FileEvent op) st = st\<lparr>RouterConfig := Some (fst (load path))\<rparr>"
      using 2 by (cases "load path") (simp add: notify_step_def)
    then show ?thesis
      using True 2 by (auto simp: good_loads_def split: list.splits)
  next
    case False
    then have "notify_step load (FileEvent op) st = st"
      using 2 by (cases "load path") (auto simp: notify_step_def)
    then show ?thesis
      using False 2 by (auto simp: good_loads_def split: list.splits)
  qed
next
  case (3 load evs)
  then show ?case by (simp add: notify_step_def)
next
  case (4 load evs)
  then have "notify_step load WatchClosed st = st\<lparr>watching := None\<rparr>" by (simp add: notify_step_def)
  then show ?case by (simp add: notify_run_closed good_loads_def)
qed

subsection \<open>Properties\<close>

text \<open>
  A file is taken from the first of the working directory, the directory of the binary
  and the source directory that has it below \<open>conf\<close>, and the search fails exactly when
  none of them has it.
\<close>

theorem GetPath_first:
  "let cs = map (\<lambda>d. path_join [d, ''conf'', f]) [workPath ds, AppPath ds, AppSrcPath ds]
   in case List.find (fileExists stat) cs of
        Some p \<Rightarrow> GetPath stat ds f = (p, None)
      | None \<Rightarrow> GetPath stat ds f = ('''', Some (ErrMsg (''conf/'' @ f @ '' not found'')))"
  by (simp add: GetPath_def Let_def)

text \<open>
  C32: while the watcher runs, the configuration in force is the one of the last write event
  whose file could be parsed, or the one loaded at the start when there is none: a broken
  file never replaces a good configuration, and nothing changes after the watcher ends.
\<close>

theorem reload_keeps_last_good:
  assumes "LoadAllConfig stat ds load f st0 = st" and "watching st = Some path" and "RouterConfig st = Some c0"
  shows "RouterConfig (notify_run evs st) = Some (last (c0 # good_loads path (effective evs)))"
  using notify_run_last [OF assms(2), of evs] assms(3) by (simp split: list.splits)

theorem reload_keeps_last_good_witness:
  "RouterConfig (notify_run
      [(\<lambda>_. (empty_router, Some ErrSyntax), FileEvent 2), (\<lambda>_. (empty_router\<lparr>r_Token := ''t''\<rparr>, None), FileEvent 3),
       (\<lambda>_. (empty_router, None), FileEvent 4)]
      (LoadAllConfig (\<lambda>_. StatOk) \<lparr>workPath = ''/w'', AppPath = ''/a'', AppSrcPath = ''/s''\<rparr>
         (\<lambda>_. (empty_router\<lparr>r_Watcher := True\<rparr>, None)) ''r.yaml'' \<lparr>RouterConfig = None, watching = None\<rparr>))
    = Some (empty_router\<lparr>r_Token := ''t''\<rparr>)"
proof -
  let ?st = "LoadAllConfig (\<lambda>_. StatOk) \<lparr>workPath = ''/w'', AppPath = ''/a'', AppSrcPath = ''/s''\<rparr>
         (\<lambda>_. (empty_router\<lparr>r_Watcher := True\<rparr>, None)) ''r.yaml'' \<lparr>RouterConfig = None, watching = None\<rparr>"
  have "watching ?st = Some ''r.yaml''" "RouterConfig ?st = Some (empty_router\<lparr>r_Watcher := True\<rparr>)"
    by (simp_all add: LoadAllConfig_def conf_path_def fileExists_def Let_def)
  then show ?thesis
    by (subst reload_keeps_last_good [OF refl]) (assumption | simp add: good_loads_def op_Write_def)+
qed

end
