(* ===== verification/Http_Header.thy ===== *)
theory Http_Header
  imports Go_Prelude
begin

section \<open>HTTP headers\<close>

text \<open>
  The package \<open>proto/http\<close> (\<open>proto/http/header.go\<close>). A Go map has no order, so a header
  is an association list with distinct keys (\<open>header_ok\<close>), and every result that leaves the
  component is shown not to depend on the order of the list. Writers are a state and a
  write function, so that a failing write stops the output where the code stops.
\<close>

type_synonym header = "(string \<times> string list) list"

subsection \<open>Canonical keys\<close>

text \<open>The keys of \<open>isTokenTable\<close>.\<close>

definition token_chars :: string where
  "token_chars =
     ''!#$%&'' @ [CHR 0x27] @ ''*+-.0123456789ABCDEFGHIJKLMNOPQRSTUWVXYZ^_`abcdefghijklmnopqrstuvwxyz|~''"

definition validHeaderFieldByte :: "char \<Rightarrow> bool" where
  "validHeaderFieldByte b \<longleftrightarrow> (of_char b :: nat) < 127 \<and> b \<in> set token_chars"

definition is_lower :: "char \<Rightarrow> bool" where
  "is_lower c \<longleftrightarrow> 97 \<le> (of_char c :: nat) \<and> (of_char c :: nat) \<le> 122"

definition is_upper :: "char \<Rightarrow> bool" where
  "is_upper c \<longleftrightarrow> 65 \<le> (of_char c :: nat) \<and> (of_char c :: nat) \<le> 90"

definition commonHeaders :: "string list" where
  "commonHeaders =
    [''Accept'', ''Accept-Charset'', ''Accept-Encoding'', ''Accept-Language'', ''Accept-Ranges'',
     ''Cache-Control'', ''Cc'', ''Connection'', ''Content-Id'', ''Content-Language'',
     ''Content-Length'', ''Content-Transfer-Encoding'', ''Content-Type'', ''Cookie'', ''Date'',
     ''Dkim-Signature'', ''Etag'', ''Expires'', ''From'', ''Host'', ''If-Modified-Since'',
     ''If-None-Match'', ''In-Reply-To'', ''Last-Modified'', ''Location'', ''Message-Id'',
     ''Mime-Version'', ''Pragma'', ''Received'', ''Return-Path'', ''Server'', ''Set-Cookie'',
     ''Subject'', ''To'', ''User-Agent'', ''Via'', ''X-Forwarded-For'', ''X-Imforwards'',
     ''X-Powered-By'']"

text \<open>The second loop of \<open>canonicalMIMEHeaderKey\<close>: \<open>upper\<close> says the next letter is capital.\<close>

fun canon_bytes :: "bool \<Rightarrow> string \<Rightarrow> string" where
  "canon_bytes upper [] = []"
| "canon_bytes upper (c # cs) =
     (let c' = (if upper \<and> is_lower c then char_of ((of_char c :: nat) - 32)
                else if \<not> upper \<and> is_upper c then char_of ((of_char c :: nat) + 32)
                else c)
      in c' # canon_bytes (c' = CHR ''-'') cs)"

definition canonicalMIMEHeaderKey :: "string \<Rightarrow> string" where
  "canonicalMIMEHeaderKey a =
     (if \<not> list_all validHeaderFieldByte a then a
      else let tmp = canon_bytes True a in if tmp \<in> set commonHeaders then tmp else a)"

fun canon_scan :: "string \<Rightarrow> bool \<Rightarrow> string \<Rightarrow> string" where
  "canon_scan s upper [] = s"
| "canon_scan s upper (c # cs) =
     (if \<not> validHeaderFieldByte c then s
      else if upper \<and> is_lower c then canonicalMIMEHeaderKey s
      else if \<not> upper \<and> is_upper c then canonicalMIMEHeaderKey s
      else canon_scan s (c = CHR ''-'') cs)"

definition CanonicalMIMEHeaderKey :: "string \<Rightarrow> string" where
  "CanonicalMIMEHeaderKey s = canon_scan s True s"

subsection \<open>Access\<close>

definition header_vals :: "header \<Rightarrow> string \<Rightarrow> string list" where
  "header_vals h k = (case map_of h k of Some vs \<Rightarrow> vs | None \<Rightarrow> [])"

definition Header_Add :: "string \<Rightarrow> string \<Rightarrow> header \<Rightarrow> header" where
  "Header_Add key value h =
     (let key = CanonicalMIMEHeaderKey key in AList.update key (header_vals h key @ [value]) h)"

definition Header_Set :: "string \<Rightarrow> string \<Rightarrow> header \<Rightarrow> header" where
  "Header_Set key value h = AList.update (CanonicalMIMEHeaderKey key) [value] h"

definition Header_Get :: "header \<Rightarrow> string \<Rightarrow> string" where
  "Header_Get h key =
     (case header_vals h (CanonicalMIMEHeaderKey key) of [] \<Rightarrow> '''' | v # _ \<Rightarrow> v)"

definition Header_Del :: "string \<Rightarrow> header \<Rightarrow> header" where
  "Header_Del key h = AList.delete (CanonicalMIMEHeaderKey key) h"

subsection \<open>Writing\<close>

definition sortedKeyValues :: "(string \<Rightarrow> bool) \<Rightarrow> header \<Rightarrow> header" where
  "sortedKeyValues exclude h = sort_key fst (filter (\<lambda>(k, vv). \<not> exclude k) h)"

definition newline_to_space :: "string \<Rightarrow> string" where
  "newline_to_space v = map (\<lambda>c. if c = CHR 0x0A \<or> c = CHR 0x0D then CHR '' '' else c) v"

definition crlf :: string where
  "crlf = [CHR 0x0D, CHR 0x0A]"

definition wire_value :: "string \<Rightarrow> string" where
  "wire_value v = TrimString (newline_to_space v)"

text \<open>Each write is one call of the writer; the first error ends the output.\<close>

fun write_strings :: "('w \<Rightarrow> string \<Rightarrow> go_err option \<times> 'w) \<Rightarrow> string list \<Rightarrow> 'w \<Rightarrow> go_err option \<times> 'w" where
  "write_strings wr [] st = (None, st)"
| "write_strings wr (s # ss) st =
     (case wr st s of
        (Some e, st') \<Rightarrow> (Some e, st')
      | (None, st') \<Rightarrow> write_strings wr ss st')"

definition header_strings :: "(string \<Rightarrow> bool) \<Rightarrow> header \<Rightarrow> string list" where
  "header_strings exclude h =
     concat (map (\<lambda>(k, vs). concat (map (\<lambda>v. [k, '': '', wire_value v, crlf]) vs))
       (sortedKeyValues exclude h))"

definition writeSubset ::
  "('w \<Rightarrow> string \<Rightarrow> go_err option \<times> 'w) \<Rightarrow> (string \<Rightarrow> bool) \<Rightarrow> header \<Rightarrow> 'w \<Rightarrow> go_err option \<times> 'w" where
  "writeSubset wr exclude h st = write_strings wr (header_strings exclude h) st"

definition Header_Write ::
  "('w \<Rightarrow> string \<Rightarrow> go_err option \<times> 'w) \<Rightarrow> header \<Rightarrow> 'w \<Rightarrow> go_err option \<times> 'w" where
  "Header_Write wr h st = writeSubset wr (\<lambda>_. False) h st"

text \<open>The writer of the websocket path is a \<open>bytes.Buffer\<close>, whose writes never fail.\<close>

definition buffer_write :: "string \<Rightarrow> string \<Rightarrow> go_err option \<times> string" where
  "buffer_write b s = (None, b @ s)"

definition header_wire :: "header \<Rightarrow> string" where
  "header_wire h = snd (Header_Write buffer_write h [])"

subsection \<open>Invariant\<close>

text \<open>Distinct keys, each in canonical form, none without a value.\<close>

definition header_ok :: "header \<Rightarrow> bool" where
  "header_ok h \<longleftrightarrow> distinct (map fst h)
     \<and> (\<forall>(k, vs) \<in> set h. CanonicalMIMEHeaderKey k = k \<and> vs \<noteq> [])"

subsection \<open>Lemmas on keys\<close>

definition ascii_lower :: "string \<Rightarrow> string" where
  "ascii_lower s = map (\<lambda>c. if is_upper c then char_of ((of_char c :: nat) + 32) else c) s"

definition lower_char :: "char \<Rightarrow> char" where
  "lower_char c = (if is_upper c then char_of ((of_char c :: nat) + 32) else c)"

lemma ascii_lower_Cons [simp]: "ascii_lower (c # cs) = lower_char c # ascii_lower cs"
  and ascii_lower_Nil [simp]: "ascii_lower [] = []"
  by (simp_all add: ascii_lower_def lower_char_def)

definition canon_char :: "bool \<Rightarrow> char \<Rightarrow> char" where
  "canon_char upper c =
     (if upper \<and> is_lower c then char_of ((of_char c :: nat) - 32)
      else if \<not> upper \<and> is_upper c then char_of ((of_char c :: nat) + 32)
      else c)"

lemma canon_bytes_Cons:
  "canon_bytes upper (c # cs) = canon_char upper c # canon_bytes (canon_char upper c = CHR ''-'') cs"
  by (simp add: canon_char_def Let_def)

lemma canon_char_lower: "canon_char upper (lower_char c) = canon_char upper c"
  by (auto simp: canon_char_def lower_char_def is_lower_def is_upper_def)

lemma canon_bytes_lower: "canon_bytes upper (ascii_lower s) = canon_bytes upper s"
  by (induction s arbitrary: upper) (simp_all add: canon_bytes_Cons canon_char_lower del: canon_bytes.simps(2))

definition ascii_letters :: string where
  "ascii_letters = ''ABCDEFGHIJKLMNOPQRSTUVWXYZabcdefghijklmnopqrstuvwxyz''"

lemma ascii_letters_eq: "map char_of ([65 ..< 91 :: nat] @ [97 ..< 123]) = ascii_letters"
  by (simp add: ascii_letters_def char_of_eq_iff take_bit_eq_mod)

lemma valid_ascii_letters: "list_all validHeaderFieldByte ascii_letters"
  by code_simp

lemma valid_letters: "list_all (\<lambda>n. validHeaderFieldByte (char_of (n :: nat))) ([65 ..< 91] @ [97 ..< 123])"
  using valid_ascii_letters unfolding ascii_letters_eq [symmetric] by (simp only: list.pred_map comp_def)

lemma valid_lower_case: "is_lower c \<Longrightarrow> validHeaderFieldByte c"
proof -
  assume "is_lower c"
  then have "(of_char c :: nat) \<in> set ([65 ..< 91] @ [97 ..< 123])"
    by (simp only: set_append set_upt) (auto simp: is_lower_def)
  with valid_letters have "validHeaderFieldByte (char_of (of_char c :: nat))"
    unfolding list_all_iff by blast
  then show ?thesis by simp
qed

lemma valid_upper: "is_upper c \<Longrightarrow> validHeaderFieldByte c \<and> validHeaderFieldByte (lower_char c)"
proof -
  assume u: "is_upper c"
  then have "(of_char c :: nat) \<in> set ([65 ..< 91] @ [97 ..< 123])"
    "(of_char c :: nat) + 32 \<in> set ([65 ..< 91] @ [97 ..< 123])"
    by (simp_all only: set_append set_upt) (auto simp: is_upper_def)
  with valid_letters have "validHeaderFieldByte (char_of (of_char c :: nat))"
    "validHeaderFieldByte (char_of ((of_char c :: nat) + 32))"
    unfolding list_all_iff by blast+
  then show ?thesis by (simp add: lower_char_def u)
qed

lemma valid_dash: "validHeaderFieldByte CHR ''-''"
  by code_simp

lemma commonHeaders_letters:
  "list_all (list_all (\<lambda>c. is_lower c \<or> is_upper c \<or> c = CHR ''-'')) commonHeaders"
  by (simp add: commonHeaders_def is_lower_def is_upper_def)

lemma commonHeaders_canon_bytes: "list_all (\<lambda>v. canon_bytes True v = v) commonHeaders"
  by code_simp

lemma commonHeaders_canonical:
  "list_all (\<lambda>v. canon_bytes True v = v \<and> list_all validHeaderFieldByte v) commonHeaders"
  using commonHeaders_letters commonHeaders_canon_bytes
  by (fastforce simp: list_all_iff valid_lower_case valid_upper valid_dash)

lemma valid_lower: "validHeaderFieldByte (lower_char c) = validHeaderFieldByte c"
  by (cases "is_upper c") (auto simp: valid_upper, auto simp: lower_char_def)

lemma valid_ascii_lower: "list_all validHeaderFieldByte (ascii_lower s) = list_all validHeaderFieldByte s"
  by (induction s) (auto simp: valid_lower)

lemma canon_scan_eq:
  assumes "list_all validHeaderFieldByte pre" and "s = pre @ rest"
    and "canon_bytes True s = pre @ canon_bytes upper rest"
  shows "canon_scan s upper rest = canonicalMIMEHeaderKey s"
  using assms
proof (induction rest arbitrary: pre upper)
  case Nil
  then show ?case by (auto simp: canonicalMIMEHeaderKey_def Let_def)
next
  case (Cons c cs)
  show ?case
  proof (cases "validHeaderFieldByte c \<and> \<not> (upper \<and> is_lower c) \<and> \<not> (\<not> upper \<and> is_upper c)")
    case True
    then have "canon_char upper c = c" by (auto simp: canon_char_def)
    with Cons.prems True have "canon_scan s (c = CHR ''-'') cs = canonicalMIMEHeaderKey s"
      by (intro Cons.IH [of "pre @ [c]"])
        (simp_all add: canon_bytes_Cons del: canon_bytes.simps(2))
    with True show ?thesis by auto
  next
    case False
    then show ?thesis using Cons.prems by (auto simp: canonicalMIMEHeaderKey_def)
  qed
qed

lemma CanonicalMIMEHeaderKey_eq: "CanonicalMIMEHeaderKey s = canonicalMIMEHeaderKey s"
  unfolding CanonicalMIMEHeaderKey_def by (rule canon_scan_eq [of "[]"]) simp_all

lemma canonical_common: "v \<in> set commonHeaders \<Longrightarrow> canonicalMIMEHeaderKey v = v"
  using commonHeaders_canonical by (auto simp: canonicalMIMEHeaderKey_def list_all_iff Let_def)

lemma canonical_idem [simp]:
  "canonicalMIMEHeaderKey (canonicalMIMEHeaderKey s) = canonicalMIMEHeaderKey s"
proof (cases "list_all validHeaderFieldByte s \<and> canon_bytes True s \<in> set commonHeaders")
  case True
  then have "canonicalMIMEHeaderKey s = canon_bytes True s" by (simp add: canonicalMIMEHeaderKey_def)
  with True canonical_common show ?thesis by simp
next
  case False
  then have "canonicalMIMEHeaderKey s = s" by (auto simp: canonicalMIMEHeaderKey_def Let_def)
  then show ?thesis by simp
qed

lemma canonical_fold_case:
  assumes "ascii_lower s = ascii_lower v" and "v \<in> set commonHeaders"
  shows "canonicalMIMEHeaderKey s = v"
proof -
  have v: "canon_bytes True v = v" "list_all validHeaderFieldByte v"
    using commonHeaders_canonical assms(2) by (auto simp: list_all_iff)
  then have "canon_bytes True s = v" "list_all validHeaderFieldByte s"
    using assms(1) canon_bytes_lower [of True s] canon_bytes_lower [of True v]
      valid_ascii_lower [of s] valid_ascii_lower [of v] by auto
  with assms(2) show ?thesis by (simp add: canonicalMIMEHeaderKey_def)
qed

subsection \<open>Lemmas on access\<close>

lemma header_vals_update: "header_vals (AList.update k vs h) k' = (if k = k' then vs else header_vals h k')"
  by (auto simp: header_vals_def AList.update_conv')

lemma header_vals_delete: "header_vals (AList.delete k h) k' = (if k = k' then [] else header_vals h k')"
  by (auto simp: header_vals_def AList.delete_conv')

lemma header_ok_update:
  "header_ok h \<Longrightarrow> vs \<noteq> [] \<Longrightarrow> header_ok (AList.update (CanonicalMIMEHeaderKey k) vs h)"
proof -
  assume h: "header_ok h" and vs: "vs \<noteq> []"
  have "set (AList.update q ws g) \<subseteq> insert (q, ws) (set g)" for q ws and g :: header
    by (induction g) auto
  with h vs show ?thesis
    by (fastforce simp: header_ok_def CanonicalMIMEHeaderKey_eq AList.distinct_update)
qed

lemma header_ok_Set: "header_ok h \<Longrightarrow> header_ok (Header_Set k v h)"
  by (simp add: Header_Set_def header_ok_update)

lemma header_ok_Add: "header_ok h \<Longrightarrow> header_ok (Header_Add k v h)"
  by (simp add: Header_Add_def Let_def header_ok_update)

lemma header_ok_Del: "header_ok h \<Longrightarrow> header_ok (Header_Del k h)"
  using AList.distinct_delete [of h "CanonicalMIMEHeaderKey k"]
  by (auto simp: header_ok_def Header_Del_def AList.delete_eq)

lemma Header_Get_Set:
  "Header_Get (Header_Set k v h) k' =
     (if CanonicalMIMEHeaderKey k = CanonicalMIMEHeaderKey k' then v else Header_Get h k')"
  by (simp add: Header_Get_def Header_Set_def header_vals_update)

lemma Header_Get_Add:
  "Header_Get (Header_Add k v h) k' =
     (if CanonicalMIMEHeaderKey k = CanonicalMIMEHeaderKey k' \<and> header_vals h (CanonicalMIMEHeaderKey k) = []
      then v else Header_Get h k')"
  by (auto simp: Header_Get_def Header_Add_def header_vals_update Let_def split: list.splits)

lemma Header_Get_Del:
  "Header_Get (Header_Del k h) k' =
     (if CanonicalMIMEHeaderKey k = CanonicalMIMEHeaderKey k' then '''' else Header_Get h k')"
  by (simp add: Header_Get_def Header_Del_def header_vals_delete)

subsection \<open>The contract of a header\<close>

text \<open>What the stream and the hubs rely on when they read, add and remove fields.\<close>

locale field_map =
  fixes getf :: "'h \<Rightarrow> string \<Rightarrow> string"
    and setf :: "string \<Rightarrow> string \<Rightarrow> 'h \<Rightarrow> 'h"
    and delf :: "string \<Rightarrow> 'h \<Rightarrow> 'h"
    and canon :: "string \<Rightarrow> string"
    and ok :: "'h \<Rightarrow> bool"
  assumes canon_idem: "canon (canon k) = canon k"
    and ok_setf: "ok h \<Longrightarrow> ok (setf k v h)"
    and ok_delf: "ok h \<Longrightarrow> ok (delf k h)"
    and getf_setf: "getf (setf k v h) k' = (if canon k = canon k' then v else getf h k')"
    and getf_delf: "getf (delf k h) k' = (if canon k = canon k' then '''' else getf h k')"
begin

lemma getf_canon_setf [simp]: "getf (setf (canon k) v h) k = v"
  by (simp add: getf_setf canon_idem)

lemma setf_overwrites: "getf (setf k v (setf k v' h)) k' = getf (setf k v h) k'"
  by (simp add: getf_setf)

lemma delf_undoes_setf: "getf h k = '''' \<Longrightarrow> getf (delf k (setf k v h)) k' = getf (delf k h) k'"
  by (simp add: getf_setf getf_delf)

end

interpretation hdr: field_map Header_Get Header_Set Header_Del CanonicalMIMEHeaderKey header_ok
  by unfold_locales
    (simp_all add: CanonicalMIMEHeaderKey_eq header_ok_Set header_ok_Del
      Header_Get_Set Header_Get_Del)

subsection \<open>Lemmas on writing\<close>

lemma write_strings_buffer: "write_strings buffer_write ss b = (None, b @ concat ss)"
  by (induction ss arbitrary: b) (auto simp: buffer_write_def)

lemma header_wire_eq: "header_wire h = concat (header_strings (\<lambda>_. False) h)"
  by (simp add: header_wire_def Header_Write_def writeSubset_def write_strings_buffer)

lemma sortedKeyValues_unique:
  assumes "distinct (map fst h)" and "distinct (map fst h')" and "map_of h = map_of h'"
  shows "sortedKeyValues exclude h = sortedKeyValues exclude h'"
proof -
  have "set h = set h'" using assms by (metis map_of_inject_set)
  moreover have "inj_on fst (set h)" using assms(1) by (simp add: distinct_map)
  ultimately show ?thesis
    unfolding sortedKeyValues_def using assms(1,2)
    by (intro map_sorted_distinct_set_unique [of fst])
      (auto simp: distinct_map inj_on_def split: prod.splits)
qed

lemma TrimString_set: "set (TrimString s) \<subseteq> set s"
  unfolding TrimString_def by (auto dest!: set_dropWhileD)

lemma wire_value_clean: "c \<in> set (wire_value v) \<Longrightarrow> c \<noteq> CHR 0x0A \<and> c \<noteq> CHR 0x0D"
  unfolding wire_value_def using TrimString_set [of "newline_to_space v"]
  by (auto simp: newline_to_space_def split: if_splits)

subsection \<open>Properties\<close>


text \<open>
  The fields of the table of common names are found in any letter case: a value set
  under a common name is what \<open>Get\<close> returns for every spelling of the name.
\<close>

theorem common_names_fold_case:
  assumes "v \<in> set commonHeaders" and "ascii_lower s = ascii_lower v" and "ascii_lower t = ascii_lower v"
  shows "Header_Get (Header_Set s x h) t = x \<and> Header_Get (Header_Del s h) t = ''''"
  using assms canonical_fold_case [of s v] canonical_fold_case [of t v]
  by (simp add: Header_Get_Set Header_Get_Del CanonicalMIMEHeaderKey_eq)

theorem common_names_fold_case_witness:
  "Header_Get (Header_Set ''content-LENGTH'' ''12'' []) ''Content-length'' = ''12''"
  by (rule common_names_fold_case [of "''Content-Length''", THEN conjunct1]) code_simp+

text \<open>
  C0: names outside the table keep their spelling, so that \<open>Get\<close> tells \<open>transfer-encoding\<close>
  from \<open>Transfer-Encoding\<close>, although its comment calls it case insensitive.
\<close>

theorem uncommon_names_case_sensitive:
  "Header_Get (Header_Set ''transfer-encoding'' v h) ''Transfer-Encoding'' = Header_Get h ''Transfer-Encoding''"
proof -
  have "CanonicalMIMEHeaderKey ''transfer-encoding'' \<noteq> CanonicalMIMEHeaderKey ''Transfer-Encoding''"
    by code_simp
  then show ?thesis by (simp add: Header_Get_Set)
qed

text \<open>
  What \<open>Write\<close> sends is independent of the order in which the map is walked, and it is
  the fields in the order of their keys, values in the order they were added.
\<close>

theorem header_wire_order:
  assumes "header_ok h" and "header_ok h'" and "map_of h = map_of h'"
  shows "header_wire h = header_wire h' \<and> sorted (map fst (sortedKeyValues (\<lambda>_. False) h))
    \<and> set (sortedKeyValues (\<lambda>_. False) h) = set h"
proof -
  have "sortedKeyValues (\<lambda>_. False) h = sortedKeyValues (\<lambda>_. False) h'"
    using assms by (intro sortedKeyValues_unique) (auto simp: header_ok_def)
  then have "header_wire h = header_wire h'" by (simp add: header_wire_eq header_strings_def)
  moreover have "sorted (map fst (sortedKeyValues (\<lambda>_. False) h))
    \<and> set (sortedKeyValues (\<lambda>_. False) h) = set h" by (simp add: sortedKeyValues_def)
  ultimately show ?thesis by simp
qed

theorem header_wire_order_witness:
  "header_wire [(''To'', [''b'']), (''Host'', [''a''])] = header_wire [(''Host'', [''a'']), (''To'', [''b''])]"
proof -
  have "header_ok [(''To'', [''b'']), (''Host'', [''a''])]" "header_ok [(''Host'', [''a'']), (''To'', [''b''])]"
    unfolding header_ok_def by code_simp+
  then show ?thesis
    using header_wire_order [of "[(''To'', [''b'']), (''Host'', [''a''])]" "[(''Host'', [''a'']), (''To'', [''b''])]"]
    by (auto simp: fun_eq_iff)
qed

end
