(* ===== verification/Nat_Hub.thy ===== *)
theory Nat_Hub
  imports Crypto Conf_Router Http_Header "HOL-Library.Sublist"
begin

section \<open>The hubs of the websocket tunnel\<close>

text \<open>
  The package \<open>nat\<close>, first part: \<open>message.go\<close>, \<open>client_hub.go\<close> and \<open>bridge_hub.go\<close>. A hub is a
  goroutine that owns a map of peers and serves three unbuffered channels, so its state
  changes by one event at a time: a peer registers, a peer unregisters, a message is
  broadcast. Each peer has a buffered channel that a goroutine of its own empties. A Go
  pointer is a number, the structs it points to are in a store, and a map with pointer keys
  is the list of its keys; the order in which \<open>range\<close> visits a map is an argument.
\<close>

subsection \<open>Go channels with a buffer\<close>

record 'm chan =
  ch_cap :: nat
  ch_buf :: "'m list"
  ch_closed :: bool

definition make_chan :: "nat \<Rightarrow> 'm chan" where
  "make_chan n = \<lparr>ch_cap = n, ch_buf = [], ch_closed = False\<rparr>"

text \<open>A send with a default branch; a send on a closed channel panics, and so does a second close.\<close>

definition try_send :: "'m \<Rightarrow> 'm chan \<Rightarrow> (bool \<times> 'm chan) outcome" where
  "try_send m c =
     (if ch_closed c then Panics
      else if length (ch_buf c) < ch_cap c then Returns (True, c\<lparr>ch_buf := ch_buf c @ [m]\<rparr>)
      else Returns (False, c))"

definition close_chan :: "'m chan \<Rightarrow> 'm chan outcome" where
  "close_chan c = (if ch_closed c then Panics else Returns (c\<lparr>ch_closed := True\<rparr>))"

text \<open>
  A receive: no result while the channel is open and empty, \<open>Some None\<close> when it is closed
  and drained.
\<close>

definition chan_recv :: "'m chan \<Rightarrow> ('m option \<times> 'm chan) option" where
  "chan_recv c =
     (case ch_buf c of
        m # ms \<Rightarrow> Some (Some m, c\<lparr>ch_buf := ms\<rparr>)
      | [] \<Rightarrow> if ch_closed c then Some (None, c) else None)"

text \<open>The order of a \<open>range\<close> over a map: any permutation of its keys.\<close>

definition map_range :: "(nat \<Rightarrow> nat) \<Rightarrow> nat list \<Rightarrow> nat list" where
  "map_range ord ks = sort_key ord ks"

lemma map_range_simps [simp]:
  "set (map_range ord ks) = set ks" "distinct (map_range ord ks) = distinct ks"
  by (simp_all add: map_range_def)

subsection \<open>nat/message.go\<close>

definition METHOD_CREATE :: string where "METHOD_CREATE = ''create''"
definition METHOD_CLOSE :: string where "METHOD_CLOSE = ''close''"
definition SEND_CHAN_LEN :: nat where "SEND_CHAN_LEN = 200"

record auth_message =
  au_User :: string
  au_Email :: string
  au_Token :: string
  au_Xtime :: "64 word"

record message =
  msg_ID :: "64 word"
  msg_Method :: string
  msg_Body :: string

subsection \<open>nat/client\_hub.go\<close>

record ws_client =
  cl_User :: string
  cl_Email :: string
  cl_Subscribe :: "subscribe list"
  cl_send :: "message chan"

record hub =
  hub_heap :: "nat \<Rightarrow> ws_client"
  hub_clients :: "nat list"

definition no_client :: ws_client where
  "no_client = \<lparr>cl_User = '''', cl_Email = '''', cl_Subscribe = [], cl_send = make_chan 0\<rparr>"

definition new_client :: "string \<Rightarrow> string \<Rightarrow> subscribe list \<Rightarrow> ws_client" where
  "new_client user email subs =
     \<lparr>cl_User = user, cl_Email = email, cl_Subscribe = subs, cl_send = make_chan SEND_CHAN_LEN\<rparr>"

definition newHub :: hub where
  "newHub = \<lparr>hub_heap = (\<lambda>_. no_client), hub_clients = []\<rparr>"

definition hub_send :: "hub \<Rightarrow> nat \<Rightarrow> message chan" where
  "hub_send h p = cl_send (hub_heap h p)"

definition set_send :: "nat \<Rightarrow> message chan \<Rightarrow> hub \<Rightarrow> hub" where
  "set_send p c h = h\<lparr>hub_heap := (hub_heap h)(p := (hub_heap h p)\<lparr>cl_send := c\<rparr>)\<rparr>"

definition hub_register :: "nat \<Rightarrow> hub \<Rightarrow> hub" where
  "hub_register p h = h\<lparr>hub_clients := List.insert p (hub_clients h)\<rparr>"

text \<open>Closing the channel of a client and dropping the client, as two branches of \<open>run\<close> do.\<close>

definition hub_drop :: "nat \<Rightarrow> hub \<Rightarrow> hub outcome" where
  "hub_drop p h =
     (case close_chan (hub_send h p) of
        Panics \<Rightarrow> Panics
      | Returns c \<Rightarrow> Returns ((set_send p c h)\<lparr>hub_clients := remove1 p (hub_clients h)\<rparr>))"

definition hub_unregister :: "nat \<Rightarrow> hub \<Rightarrow> hub outcome" where
  "hub_unregister p h = (if p \<in> set (hub_clients h) then hub_drop p h else Returns h)"

fun hub_broadcast_loop :: "nat list \<Rightarrow> nat \<Rightarrow> message \<Rightarrow> hub \<Rightarrow> hub outcome" where
  "hub_broadcast_loop [] p m h = Returns h"
| "hub_broadcast_loop (client # rest) p m h =
     (if client \<noteq> p then hub_broadcast_loop rest p m h
      else case try_send m (hub_send h client) of
          Panics \<Rightarrow> Panics
        | Returns (True, c) \<Rightarrow> Returns (set_send client c h)
        | Returns (False, c) \<Rightarrow>
            (case hub_drop client h of
               Panics \<Rightarrow> Panics
             | Returns h \<Rightarrow> hub_broadcast_loop rest p m h))"

definition hub_broadcast :: "(nat \<Rightarrow> nat) \<Rightarrow> nat \<Rightarrow> message \<Rightarrow> hub \<Rightarrow> hub outcome" where
  "hub_broadcast ord p m h = hub_broadcast_loop (map_range ord (hub_clients h)) p m h"

text \<open>
  What happens to a hub: the three branches of \<open>run\<close>, the first with the client the caller
  has just allocated, and the receive of a client's \<open>writePump\<close>.
\<close>

datatype hub_event =
    HubRegister nat string string "subscribe list"
  | HubUnregister nat
  | HubBroadcast "nat \<Rightarrow> nat" nat message
  | HubPump nat

definition hub_pump :: "nat \<Rightarrow> hub \<Rightarrow> message option \<times> hub" where
  "hub_pump p h =
     (case chan_recv (hub_send h p) of
        None \<Rightarrow> (None, h)
      | Some (m, c) \<Rightarrow> (m, set_send p c h))"

fun hub_run :: "hub_event \<Rightarrow> hub \<Rightarrow> hub outcome" where
  "hub_run (HubRegister p user email subs) h =
     Returns (hub_register p (h\<lparr>hub_heap := (hub_heap h)(p := new_client user email subs)\<rparr>))"
| "hub_run (HubUnregister p) h = hub_unregister p h"
| "hub_run (HubBroadcast ord p m) h = hub_broadcast ord p m h"
| "hub_run (HubPump p) h = Returns (snd (hub_pump p h))"

text \<open>The client that subscribes to a header.\<close>

definition subscribes :: "header \<Rightarrow> ws_client \<Rightarrow> bool" where
  "subscribes hs cl =
     list_ex (\<lambda>s. let val = Header_Get hs (sub_Key s) in val \<noteq> '''' \<and> val = sub_Val s) (cl_Subscribe cl)"

definition GetClient :: "(nat \<Rightarrow> nat) \<Rightarrow> header \<Rightarrow> hub \<Rightarrow> nat option" where
  "GetClient ord hs h = List.find (\<lambda>p. subscribes hs (hub_heap h p)) (map_range ord (hub_clients h))"

subsection \<open>nat/bridge\_hub.go\<close>

record bridge =
  br_client :: nat
  br_reqID :: "64 word"
  br_send :: "string chan"

record bridge_hub =
  bh_heap :: "nat \<Rightarrow> bridge"
  bh_bridges :: "nat list"

definition no_bridge :: bridge where
  "no_bridge = \<lparr>br_client = 0, br_reqID = 0, br_send = make_chan 0\<rparr>"

definition newBridgeHub :: bridge_hub where
  "newBridgeHub = \<lparr>bh_heap = (\<lambda>_. no_bridge), bh_bridges = []\<rparr>"

definition bridge_send :: "bridge_hub \<Rightarrow> nat \<Rightarrow> string chan" where
  "bridge_send h p = br_send (bh_heap h p)"

definition set_bridge_send :: "nat \<Rightarrow> string chan \<Rightarrow> bridge_hub \<Rightarrow> bridge_hub" where
  "set_bridge_send p c h = h\<lparr>bh_heap := (bh_heap h)(p := (bh_heap h p)\<lparr>br_send := c\<rparr>)\<rparr>"

definition bridge_drop :: "nat \<Rightarrow> bridge_hub \<Rightarrow> bridge_hub outcome" where
  "bridge_drop p h =
     (case close_chan (bridge_send h p) of
        Panics \<Rightarrow> Panics
      | Returns c \<Rightarrow> Returns ((set_bridge_send p c h)\<lparr>bh_bridges := remove1 p (bh_bridges h)\<rparr>))"

definition bridge_unregister :: "nat \<Rightarrow> bridge_hub \<Rightarrow> bridge_hub outcome" where
  "bridge_unregister p h = (if p \<in> set (bh_bridges h) then bridge_drop p h else Returns h)"

fun bridge_broadcast_loop :: "nat list \<Rightarrow> message \<Rightarrow> bridge_hub \<Rightarrow> bridge_hub outcome" where
  "bridge_broadcast_loop [] m h = Returns h"
| "bridge_broadcast_loop (b # rest) m h =
     (if br_reqID (bh_heap h b) \<noteq> msg_ID m then bridge_broadcast_loop rest m h
      else if msg_Method m = METHOD_CLOSE then bridge_drop b h
      else case try_send (msg_Body m) (bridge_send h b) of
          Panics \<Rightarrow> Panics
        | Returns (True, c) \<Rightarrow> Returns (set_bridge_send b c h)
        | Returns (False, c) \<Rightarrow>
            (case bridge_drop b h of
               Panics \<Rightarrow> Panics
             | Returns h \<Rightarrow> bridge_broadcast_loop rest m h))"

definition bridge_broadcast :: "(nat \<Rightarrow> nat) \<Rightarrow> message \<Rightarrow> bridge_hub \<Rightarrow> bridge_hub outcome" where
  "bridge_broadcast ord m h = bridge_broadcast_loop (map_range ord (bh_bridges h)) m h"

text \<open>\<open>BridgeHub.Register\<close> allocates a bridge and hands it to the hub.\<close>

definition bridge_register :: "nat \<Rightarrow> nat \<Rightarrow> 64 word \<Rightarrow> bridge_hub \<Rightarrow> bridge_hub" where
  "bridge_register p c i h =
     h\<lparr>bh_heap := (bh_heap h)(p := \<lparr>br_client = c, br_reqID = i, br_send = make_chan 100\<rparr>),
       bh_bridges := List.insert p (bh_bridges h)\<rparr>"

datatype bridge_event =
    BridgeRegister nat nat "64 word"
  | BridgeUnregister nat
  | BridgeBroadcast "nat \<Rightarrow> nat" message
  | BridgePump nat

definition bridge_pump :: "nat \<Rightarrow> bridge_hub \<Rightarrow> string option \<times> bridge_hub" where
  "bridge_pump p h =
     (case chan_recv (bridge_send h p) of
        None \<Rightarrow> (None, h)
      | Some (m, c) \<Rightarrow> (m, set_bridge_send p c h))"

fun bridge_run :: "bridge_event \<Rightarrow> bridge_hub \<Rightarrow> bridge_hub outcome" where
  "bridge_run (BridgeRegister p c i) h = Returns (bridge_register p c i h)"
| "bridge_run (BridgeUnregister p) h = bridge_unregister p h"
| "bridge_run (BridgeBroadcast ord m) h = bridge_broadcast ord m h"
| "bridge_run (BridgePump p) h = Returns (snd (bridge_pump p h))"

subsection \<open>What a hub promises\<close>

text \<open>
  A run of a hub is a list of events; it stops at a panic. \<open>log_of\<close> collects what a function
  of the events says along the run.
\<close>

fun exec :: "('e \<Rightarrow> 's \<Rightarrow> 's outcome) \<Rightarrow> 'e list \<Rightarrow> 's \<Rightarrow> 's outcome" where
  "exec f [] s = Returns s"
| "exec f (e # es) s = (case f e s of Panics \<Rightarrow> Panics | Returns s \<Rightarrow> exec f es s)"

fun log_of :: "('e \<Rightarrow> 's \<Rightarrow> 's outcome) \<Rightarrow> ('e \<Rightarrow> 's \<Rightarrow> 'm list) \<Rightarrow> 'e list \<Rightarrow> 's \<Rightarrow> 'm list" where
  "log_of f g [] s = []"
| "log_of f g (e # es) s = g e s @ (case f e s of Panics \<Rightarrow> [] | Returns s \<Rightarrow> log_of f g es s)"

definition members_live :: "nat list \<Rightarrow> (nat \<Rightarrow> 'm chan) \<Rightarrow> bool" where
  "members_live ks box \<longleftrightarrow>
     distinct ks \<and> (\<forall>p \<in> set ks. \<not> ch_closed (box p) \<and> length (ch_buf (box p)) \<le> ch_cap (box p))"

text \<open>
  A hub never closes a channel twice and never sends on a closed one, because it drops a
  peer from its map in the same step that closes the peer's channel.
\<close>

locale hub_loop =
  fixes hstep :: "'e \<Rightarrow> 's \<Rightarrow> 's outcome"
    and members :: "'s \<Rightarrow> nat list"
    and box :: "'s \<Rightarrow> nat \<Rightarrow> 'm chan"
  assumes step_live: "members_live (members s) (box s) \<Longrightarrow>
    \<exists>s'. hstep e s = Returns s' \<and> members_live (members s') (box s')"
begin

lemma exec_live:
  "members_live (members s) (box s) \<Longrightarrow>
     \<exists>s'. exec hstep es s = Returns s' \<and> members_live (members s') (box s')"
proof (induction es arbitrary: s)
  case (Cons e es)
  from step_live [OF Cons.prems, of e] Cons.IH show ?case by fastforce
qed simp

end

lemma queue_shift:
  assumes "a @ b = c @ d"
  shows "prefix x (b @ y) \<Longrightarrow> prefix (a @ x) (c @ d @ y)" and "x = b @ y \<Longrightarrow> a @ x = c @ d @ y"
proof -
  have "a @ b @ y = c @ d @ y" using arg_cong [OF assms, of "\<lambda>u. u @ y"] by simp
  then show "prefix x (b @ y) \<Longrightarrow> prefix (a @ x) (c @ d @ y)" and "x = b @ y \<Longrightarrow> a @ x = c @ d @ y"
    by (metis same_prefix_prefix, simp)
qed

text \<open>
  A hub is a set of queues: what a peer's goroutine has received and what is still buffered
  is what was addressed to the peer, in order, with nothing missing before the first message
  that found the buffer full.
\<close>

locale hub_queues = hub_loop hstep members box
  for hstep :: "'e \<Rightarrow> 's \<Rightarrow> 's outcome" and members :: "'s \<Rightarrow> nat list" and box :: "'s \<Rightarrow> nat \<Rightarrow> 'm chan" +
  fixes joins :: "'e \<Rightarrow> nat option"
    and allowed :: "'e \<Rightarrow> 's \<Rightarrow> bool"
    and consistent :: "'s \<Rightarrow> bool"
    and offers :: "nat \<Rightarrow> 'e \<Rightarrow> 's \<Rightarrow> 'm list"
    and takes :: "nat \<Rightarrow> 'e \<Rightarrow> 's \<Rightarrow> 'm list"
  assumes consistent_live: "consistent s \<Longrightarrow> members_live (members s) (box s)"
    and step_consistent: "consistent s \<Longrightarrow> allowed e s \<Longrightarrow> hstep e s = Returns s' \<Longrightarrow> consistent s'"
    and step_queue: "consistent s \<Longrightarrow> hstep e s = Returns s' \<Longrightarrow> joins e \<noteq> Some p \<Longrightarrow>
      p \<in> set (members s) \<Longrightarrow>
      takes p e s @ ch_buf (box s' p) = ch_buf (box s p) @ (if p \<in> set (members s') then offers p e s else [])"
    and step_gone: "consistent s \<Longrightarrow> hstep e s = Returns s' \<Longrightarrow> joins e \<noteq> Some p \<Longrightarrow>
      p \<notin> set (members s) \<Longrightarrow>
      p \<notin> set (members s') \<and> takes p e s @ ch_buf (box s' p) = ch_buf (box s p)"
begin

text \<open>The events of a run the environment can cause.\<close>

fun run_allowed :: "'e list \<Rightarrow> 's \<Rightarrow> bool" where
  "run_allowed [] s = True"
| "run_allowed (e # es) s = (allowed e s \<and> (\<forall>s'. hstep e s = Returns s' \<longrightarrow> run_allowed es s'))"

lemma gone_queue:
  assumes "consistent s" and "run_allowed es s" and "exec hstep es s = Returns s'"
    and "\<forall>e \<in> set es. joins e \<noteq> Some p" and "p \<notin> set (members s)"
  shows "log_of hstep (takes p) es s @ ch_buf (box s' p) = ch_buf (box s p) \<and> p \<notin> set (members s')"
  using assms
proof (induction es arbitrary: s)
  case (Cons e es)
  obtain t where t: "hstep e s = Returns t" using step_live [OF consistent_live [OF Cons.prems(1)], of e] by blast
  note g = step_gone [OF Cons.prems(1) t _ Cons.prems(5)]
  have "consistent t" "run_allowed es t" using step_consistent [OF Cons.prems(1) _ t] Cons.prems(2) t by auto
  from Cons.IH [OF this] Cons.prems(3,4) t g show ?case by simp
qed simp

theorem queue_run:
  assumes "consistent s" and "run_allowed es s" and "exec hstep es s = Returns s'"
    and "\<forall>e \<in> set es. joins e \<noteq> Some p" and "p \<in> set (members s)"
  shows "prefix (log_of hstep (takes p) es s @ ch_buf (box s' p)) (ch_buf (box s p) @ log_of hstep (offers p) es s)
    \<and> (p \<in> set (members s') \<longrightarrow>
         log_of hstep (takes p) es s @ ch_buf (box s' p) = ch_buf (box s p) @ log_of hstep (offers p) es s)"
  using assms
proof (induction es arbitrary: s)
  case (Cons e es)
  obtain t where t: "hstep e s = Returns t" using step_live [OF consistent_live [OF Cons.prems(1)], of e] by blast
  have j: "joins e \<noteq> Some p" "\<forall>e \<in> set es. joins e \<noteq> Some p" using Cons.prems(4) by auto
  have c: "consistent t" "run_allowed es t" using step_consistent [OF Cons.prems(1) _ t] Cons.prems(2) t by auto
  have ex: "exec hstep es t = Returns s'" using Cons.prems(3) t by simp
  note q = step_queue [OF Cons.prems(1) t j(1) Cons.prems(5)]
  have l: "log_of hstep (takes p) (e # es) s = takes p e s @ log_of hstep (takes p) es t"
    "log_of hstep (offers p) (e # es) s = offers p e s @ log_of hstep (offers p) es t"
    using t by simp_all
  show ?case
  proof (cases "p \<in> set (members t)")
    case True
    from q True have q: "takes p e s @ ch_buf (box t p) = ch_buf (box s p) @ offers p e s" by simp
    from Cons.IH [OF c ex j(2) True] show ?thesis
      unfolding l append.assoc by (blast intro: queue_shift [OF q])
  next
    case False
    from q False have "takes p e s @ ch_buf (box t p) = ch_buf (box s p)" by simp
    with gone_queue [OF c ex j(2) False]
    have "takes p e s @ log_of hstep (takes p) es t @ ch_buf (box s' p) = ch_buf (box s p)"
      "p \<notin> set (members s')" by simp_all
    then show ?thesis unfolding l by simp
  qed
qed simp

end

subsection \<open>The client hub keeps the promise\<close>

lemma hub_simps [simp]:
  "hub_clients (set_send p c h) = hub_clients h"
  "hub_send (set_send p c h) q = (if q = p then c else hub_send h q)"
  "hub_send (h\<lparr>hub_clients := ks\<rparr>) q = hub_send h q"
  by (simp_all add: set_send_def hub_send_def)

lemma set_send_same [simp]: "set_send p (hub_send h p) h = h"
  by (simp add: set_send_def hub_send_def)

lemma hub_drop_eq:
  "\<not> ch_closed (hub_send h p) \<Longrightarrow>
     hub_drop p h = Returns ((set_send p ((hub_send h p)\<lparr>ch_closed := True\<rparr>) h)
       \<lparr>hub_clients := remove1 p (hub_clients h)\<rparr>)"
  by (simp add: hub_drop_def close_chan_def)

text \<open>The loop over the map finds the one client, whatever the order.\<close>

lemma hub_broadcast_loop_notin: "p \<notin> set ks \<Longrightarrow> hub_broadcast_loop ks p m h = Returns h"
  by (induction ks) auto

lemma hub_broadcast_loop_eq:
  assumes "distinct ks" and "p \<in> set ks" and "\<not> ch_closed (hub_send h p)"
  shows "hub_broadcast_loop ks p m h =
    (if length (ch_buf (hub_send h p)) < ch_cap (hub_send h p)
     then Returns (set_send p ((hub_send h p)\<lparr>ch_buf := ch_buf (hub_send h p) @ [m]\<rparr>) h)
     else hub_drop p h)"
  using assms
  by (induction ks) (auto simp: try_send_def hub_drop_eq hub_broadcast_loop_notin)

lemma hub_broadcast_eq:
  assumes "members_live (hub_clients h) (hub_send h)"
  shows "hub_broadcast ord p m h =
    (if p \<notin> set (hub_clients h) then Returns h
     else if length (ch_buf (hub_send h p)) < ch_cap (hub_send h p)
     then Returns (set_send p ((hub_send h p)\<lparr>ch_buf := ch_buf (hub_send h p) @ [m]\<rparr>) h)
     else hub_drop p h)"
  using assms
  by (auto simp: hub_broadcast_def hub_broadcast_loop_notin hub_broadcast_loop_eq members_live_def)

lemma set_remove1: "distinct ks \<Longrightarrow> q \<in> set (remove1 p ks) \<longleftrightarrow> q \<in> set ks \<and> q \<noteq> p"
  by (cases "p \<in> set ks") auto

lemma hub_drop_live:
  assumes "members_live (hub_clients h) (hub_send h)" and "p \<in> set (hub_clients h)"
  shows "\<exists>h'. hub_drop p h = Returns h' \<and> members_live (hub_clients h') (hub_send h')"
proof -
  have "\<not> ch_closed (hub_send h p)" using assms by (simp add: members_live_def)
  with assms show ?thesis by (simp add: hub_drop_eq members_live_def)
qed

lemma hub_pump_eq:
  "hub_pump p h = (case ch_buf (hub_send h p) of
     m # ms \<Rightarrow> (Some m, set_send p ((hub_send h p)\<lparr>ch_buf := ms\<rparr>) h)
   | [] \<Rightarrow> (None, h))"
  by (simp add: hub_pump_def chan_recv_def split: list.splits)

lemma hub_step_live:
  assumes "members_live (hub_clients h) (hub_send h)"
  shows "\<exists>h'. hub_run e h = Returns h' \<and> members_live (hub_clients h') (hub_send h')"
proof (cases e)
  case (HubRegister p u em subs)
  then show ?thesis
    using assms by (auto simp: members_live_def hub_register_def hub_send_def new_client_def make_chan_def)
next
  case (HubUnregister p)
  then show ?thesis using assms hub_drop_live by (simp add: hub_unregister_def)
next
  case (HubBroadcast ord p m)
  have "members_live (hub_clients (set_send p ((hub_send h p)\<lparr>ch_buf := ch_buf (hub_send h p) @ [m]\<rparr>) h))
      (hub_send (set_send p ((hub_send h p)\<lparr>ch_buf := ch_buf (hub_send h p) @ [m]\<rparr>) h))"
    if "length (ch_buf (hub_send h p)) < ch_cap (hub_send h p)"
    using assms that by (auto simp: members_live_def)
  with HubBroadcast show ?thesis
    using assms hub_drop_live [OF assms] by (auto simp: hub_broadcast_eq [OF assms])
next
  case (HubPump p)
  then show ?thesis
    using assms by (auto simp: hub_pump_eq members_live_def split: list.splits)
qed

fun hub_joins :: "hub_event \<Rightarrow> nat option" where
  "hub_joins (HubRegister p u em subs) = Some p"
| "hub_joins _ = None"

fun hub_offers :: "nat \<Rightarrow> hub_event \<Rightarrow> hub \<Rightarrow> message list" where
  "hub_offers q (HubBroadcast ord p m) h = (if p = q \<and> q \<in> set (hub_clients h) then [m] else [])"
| "hub_offers q _ h = []"

fun hub_takes :: "nat \<Rightarrow> hub_event \<Rightarrow> hub \<Rightarrow> message list" where
  "hub_takes q (HubPump p) h = (case hub_pump p h of (Some m, h') \<Rightarrow> if p = q then [m] else [] | (None, h') \<Rightarrow> [])"
| "hub_takes q _ h = []"

definition hub_live :: "hub \<Rightarrow> bool" where
  "hub_live h \<longleftrightarrow> members_live (hub_clients h) (hub_send h)"

lemma hub_step_queue:
  assumes "hub_live h" and "hub_run e h = Returns h'" and "hub_joins e \<noteq> Some p" and "p \<in> set (hub_clients h)"
  shows "hub_takes p e h @ ch_buf (hub_send h' p) =
    ch_buf (hub_send h p) @ (if p \<in> set (hub_clients h') then hub_offers p e h else [])"
proof (cases e)
  case (HubRegister q u em subs)
  then show ?thesis using assms by (auto simp: hub_register_def hub_send_def)
next
  case (HubUnregister q)
  have "\<not> ch_closed (hub_send h q)" if "q \<in> set (hub_clients h)" using assms(1) that by (simp add: hub_live_def members_live_def)
  with HubUnregister show ?thesis
    using assms(2) by (auto simp: hub_unregister_def hub_drop_eq split: if_splits)
next
  case (HubBroadcast ord q m)
  have c: "\<not> ch_closed (hub_send h q)" if "q \<in> set (hub_clients h)"
    using assms(1) that by (simp add: hub_live_def members_live_def)
  have "distinct (hub_clients h)" using assms(1) by (simp add: hub_live_def members_live_def)
  with HubBroadcast c show ?thesis
    using assms by (auto simp: hub_broadcast_eq hub_live_def hub_drop_eq split: if_splits)
next
  case (HubPump q)
  then show ?thesis using assms by (auto simp: hub_pump_eq split: list.splits)
qed

lemma hub_step_gone:
  assumes "hub_live h" and "hub_run e h = Returns h'" and "hub_joins e \<noteq> Some p" and "p \<notin> set (hub_clients h)"
  shows "p \<notin> set (hub_clients h') \<and> hub_takes p e h @ ch_buf (hub_send h' p) = ch_buf (hub_send h p)"
proof (cases e)
  case (HubRegister q u em subs)
  then show ?thesis using assms by (auto simp: hub_register_def hub_send_def)
next
  case (HubUnregister q)
  have c: "\<not> ch_closed (hub_send h q)" if "q \<in> set (hub_clients h)" using assms(1) that by (simp add: hub_live_def members_live_def)
  have n: "p \<notin> set (remove1 q (hub_clients h))" using assms(4) by (meson notin_set_remove1)
  from HubUnregister show ?thesis
    using assms c n by (auto simp: hub_unregister_def hub_drop_eq split: if_splits)
next
  case (HubBroadcast ord q m)
  have c: "\<not> ch_closed (hub_send h q)" if "q \<in> set (hub_clients h)"
    using assms(1) that by (simp add: hub_live_def members_live_def)
  have n: "p \<notin> set (remove1 q (hub_clients h))" using assms(4) by (meson notin_set_remove1)
  from HubBroadcast show ?thesis
    using assms c n by (auto simp: hub_broadcast_eq hub_live_def hub_drop_eq split: if_splits)
next
  case (HubPump q)
  then show ?thesis using assms by (auto simp: hub_pump_eq split: list.splits)
qed

interpretation client_hub: hub_queues hub_run hub_clients hub_send hub_joins "\<lambda>_ _. True" hub_live hub_offers hub_takes
proof
  show "\<exists>s'. hub_run e s = Returns s' \<and> members_live (hub_clients s') (hub_send s')"
    if "members_live (hub_clients s) (hub_send s)" for s e
    using hub_step_live [OF that] .
  show "hub_live s'" if "hub_live s" "True" "hub_run e s = Returns s'" for s e s'
    using hub_step_live [of s e] that by (auto simp: hub_live_def)
  show "hub_takes p e s @ ch_buf (hub_send s' p) = ch_buf (hub_send s p) @ (if p \<in> set (hub_clients s') then hub_offers p e s else [])"
    if "hub_live s" "hub_run e s = Returns s'" "hub_joins e \<noteq> Some p" "p \<in> set (hub_clients s)" for s e s' p
    by (rule hub_step_queue [OF that])
  show "p \<notin> set (hub_clients s') \<and> hub_takes p e s @ ch_buf (hub_send s' p) = ch_buf (hub_send s p)"
    if "hub_live s" "hub_run e s = Returns s'" "hub_joins e \<noteq> Some p" "p \<notin> set (hub_clients s)" for s e s' p
    by (rule hub_step_gone [OF that])
qed (simp add: hub_live_def)


subsection \<open>The bridge hub keeps the promise\<close>

text \<open>
  Safety needs nothing of the request numbers. For the queues the numbers of the registered
  bridges are assumed distinct, as they are drawn from a counter.
\<close>

lemma bridge_simps [simp]:
  "bh_bridges (set_bridge_send p c h) = bh_bridges h"
  "bridge_send (set_bridge_send p c h) q = (if q = p then c else bridge_send h q)"
  "bridge_send (h\<lparr>bh_bridges := ks\<rparr>) q = bridge_send h q"
  "br_reqID (bh_heap (set_bridge_send p c h) q) = br_reqID (bh_heap h q)"
  "bh_heap (h\<lparr>bh_bridges := ks\<rparr>) = bh_heap h"
  "set_bridge_send p (bridge_send h p) h = h"
  by (simp_all add: set_bridge_send_def bridge_send_def)

lemma bridge_drop_eq:
  "\<not> ch_closed (bridge_send h p) \<Longrightarrow>
     bridge_drop p h = Returns ((set_bridge_send p ((bridge_send h p)\<lparr>ch_closed := True\<rparr>) h)
       \<lparr>bh_bridges := remove1 p (bh_bridges h)\<rparr>)"
  by (simp add: bridge_drop_def close_chan_def)

lemma bridge_drop_live:
  assumes "members_live (bh_bridges h) (bridge_send h)" and "p \<in> set (bh_bridges h)"
  shows "\<exists>h'. bridge_drop p h = Returns h' \<and> members_live (bh_bridges h') (bridge_send h')
    \<and> set (bh_bridges h') = set (bh_bridges h) - {p}"
proof -
  have "\<not> ch_closed (bridge_send h p)" using assms by (simp add: members_live_def)
  with assms show ?thesis by (auto simp: bridge_drop_eq members_live_def)
qed

lemma bridge_broadcast_loop_live:
  assumes "members_live (bh_bridges h) (bridge_send h)" and "distinct ks" and "set ks \<subseteq> set (bh_bridges h)"
  shows "\<exists>h'. bridge_broadcast_loop ks m h = Returns h' \<and> members_live (bh_bridges h') (bridge_send h')"
  using assms
proof (induction ks arbitrary: h)
  case (Cons b ks)
  have c: "\<not> ch_closed (bridge_send h b)" using Cons.prems by (simp add: members_live_def)
  obtain h' where h': "bridge_drop b h = Returns h'" "members_live (bh_bridges h') (bridge_send h')"
    "set (bh_bridges h') = set (bh_bridges h) - {b}"
    using bridge_drop_live [OF Cons.prems(1), of b] Cons.prems(3) by auto
  have s: "set ks \<subseteq> set (bh_bridges h')" using Cons.prems h'(3) by auto
  have "members_live (bh_bridges h) (bridge_send (set_bridge_send b ((bridge_send h b)\<lparr>ch_buf := ch_buf (bridge_send h b) @ [msg_Body m]\<rparr>) h))"
    if "length (ch_buf (bridge_send h b)) < ch_cap (bridge_send h b)"
    using Cons.prems(1) that by (auto simp: members_live_def)
  then show ?case
    using Cons.IH [OF Cons.prems(1)] Cons.IH [OF h'(2) _ s] Cons.prems h' c
    by (simp add: try_send_def)
qed simp

lemma bridge_broadcast_live:
  "members_live (bh_bridges h) (bridge_send h) \<Longrightarrow>
     \<exists>h'. bridge_broadcast ord m h = Returns h' \<and> members_live (bh_bridges h') (bridge_send h')"
  unfolding bridge_broadcast_def
  by (rule bridge_broadcast_loop_live) (simp_all add: members_live_def)

lemma bridge_pump_eq:
  "bridge_pump p h = (case ch_buf (bridge_send h p) of
     m # ms \<Rightarrow> (Some m, set_bridge_send p ((bridge_send h p)\<lparr>ch_buf := ms\<rparr>) h)
   | [] \<Rightarrow> (None, h))"
  by (simp add: bridge_pump_def chan_recv_def split: list.splits)

lemma bridge_step_live:
  assumes "members_live (bh_bridges h) (bridge_send h)"
  shows "\<exists>h'. bridge_run e h = Returns h' \<and> members_live (bh_bridges h') (bridge_send h')"
proof (cases e)
  case (BridgeRegister p c i)
  then show ?thesis
    using assms by (auto simp: members_live_def bridge_register_def bridge_send_def make_chan_def)
next
  case (BridgeUnregister p)
  then show ?thesis using assms bridge_drop_live by (force simp: bridge_unregister_def)
next
  case (BridgeBroadcast ord m)
  then show ?thesis using bridge_broadcast_live [OF assms] by simp
next
  case (BridgePump p)
  then show ?thesis
    using assms by (auto simp: bridge_pump_eq members_live_def split: list.splits)
qed

definition reqIDs_distinct :: "bridge_hub \<Rightarrow> bool" where
  "reqIDs_distinct h \<longleftrightarrow> inj_on (\<lambda>p. br_reqID (bh_heap h p)) (set (bh_bridges h))"

definition bridges_live :: "bridge_hub \<Rightarrow> bool" where
  "bridges_live h \<longleftrightarrow> members_live (bh_bridges h) (bridge_send h) \<and> reqIDs_distinct h"

text \<open>A new bridge has a request number that no other registered bridge has.\<close>

fun bridge_allowed :: "bridge_event \<Rightarrow> bridge_hub \<Rightarrow> bool" where
  "bridge_allowed (BridgeRegister p c i) h \<longleftrightarrow>
     (\<forall>q \<in> set (bh_bridges h). q \<noteq> p \<longrightarrow> br_reqID (bh_heap h q) \<noteq> i)"
| "bridge_allowed _ h \<longleftrightarrow> True"

fun bridge_joins :: "bridge_event \<Rightarrow> nat option" where
  "bridge_joins (BridgeRegister p c i) = Some p"
| "bridge_joins _ = None"

fun bridge_offers :: "nat \<Rightarrow> bridge_event \<Rightarrow> bridge_hub \<Rightarrow> string list" where
  "bridge_offers q (BridgeBroadcast ord m) h =
     (if q \<in> set (bh_bridges h) \<and> br_reqID (bh_heap h q) = msg_ID m \<and> msg_Method m \<noteq> METHOD_CLOSE
      then [msg_Body m] else [])"
| "bridge_offers q _ h = []"

fun bridge_takes :: "nat \<Rightarrow> bridge_event \<Rightarrow> bridge_hub \<Rightarrow> string list" where
  "bridge_takes q (BridgePump p) h =
     (case bridge_pump p h of (Some m, h') \<Rightarrow> if p = q then [m] else [] | (None, h') \<Rightarrow> [])"
| "bridge_takes q _ h = []"

lemma bridge_broadcast_loop_none:
  "(\<forall>b \<in> set ks. br_reqID (bh_heap h b) \<noteq> msg_ID m) \<Longrightarrow> bridge_broadcast_loop ks m h = Returns h"
  by (induction ks) auto

lemma bridge_broadcast_loop_eq:
  assumes "distinct ks" and "p \<in> set ks" and "br_reqID (bh_heap h p) = msg_ID m"
    and "inj_on (\<lambda>p. br_reqID (bh_heap h p)) (set ks)" and "\<not> ch_closed (bridge_send h p)"
  shows "bridge_broadcast_loop ks m h =
    (if msg_Method m \<noteq> METHOD_CLOSE \<and> length (ch_buf (bridge_send h p)) < ch_cap (bridge_send h p)
     then Returns (set_bridge_send p ((bridge_send h p)\<lparr>ch_buf := ch_buf (bridge_send h p) @ [msg_Body m]\<rparr>) h)
     else bridge_drop p h)"
  using assms
proof (induction ks)
  case (Cons b ks)
  show ?case
  proof (cases "b = p")
    case True
    have "\<forall>q \<in> set ks. br_reqID (bh_heap h q) \<noteq> msg_ID m"
      using Cons.prems True by (auto simp: inj_on_def)
    then show ?thesis
      using Cons.prems True by (auto simp: try_send_def bridge_drop_eq intro!: bridge_broadcast_loop_none)
  next
    case False
    then have "br_reqID (bh_heap h b) \<noteq> msg_ID m" using Cons.prems by (auto simp: inj_on_def)
    with Cons False show ?thesis by simp
  qed
qed simp

lemma bridge_broadcast_none:
  "(\<forall>b \<in> set (bh_bridges h). br_reqID (bh_heap h b) \<noteq> msg_ID m) \<Longrightarrow> bridge_broadcast ord m h = Returns h"
  by (simp add: bridge_broadcast_def bridge_broadcast_loop_none)

lemma bridge_broadcast_eq:
  assumes "bridges_live h" and "p \<in> set (bh_bridges h)" and "br_reqID (bh_heap h p) = msg_ID m"
  shows "bridge_broadcast ord m h =
    (if msg_Method m \<noteq> METHOD_CLOSE \<and> length (ch_buf (bridge_send h p)) < ch_cap (bridge_send h p)
     then Returns (set_bridge_send p ((bridge_send h p)\<lparr>ch_buf := ch_buf (bridge_send h p) @ [msg_Body m]\<rparr>) h)
     else bridge_drop p h)"
  unfolding bridge_broadcast_def
  by (rule bridge_broadcast_loop_eq) (use assms in \<open>simp_all add: bridges_live_def members_live_def reqIDs_distinct_def\<close>)

text \<open>A broadcast leaves the hub alone, fills one queue, or drops one bridge.\<close>

lemma bridge_broadcast_cases:
  assumes "bridges_live h" and "bridge_broadcast ord m h = Returns h'"
  obtains (none) "\<forall>b \<in> set (bh_bridges h). br_reqID (bh_heap h b) \<noteq> msg_ID m" and "h' = h"
  | (push) p where "p \<in> set (bh_bridges h)" and "br_reqID (bh_heap h p) = msg_ID m" and "msg_Method m \<noteq> METHOD_CLOSE"
      and "length (ch_buf (bridge_send h p)) < ch_cap (bridge_send h p)"
      and "h' = set_bridge_send p ((bridge_send h p)\<lparr>ch_buf := ch_buf (bridge_send h p) @ [msg_Body m]\<rparr>) h"
  | (dropped) p where "p \<in> set (bh_bridges h)" and "br_reqID (bh_heap h p) = msg_ID m"
      and "h' = (set_bridge_send p ((bridge_send h p)\<lparr>ch_closed := True\<rparr>) h)\<lparr>bh_bridges := remove1 p (bh_bridges h)\<rparr>"
proof (cases "\<forall>b \<in> set (bh_bridges h). br_reqID (bh_heap h b) \<noteq> msg_ID m")
  case True
  then show ?thesis using bridge_broadcast_none [OF True, of ord] assms(2) none by simp
next
  case False
  then obtain p where p: "p \<in> set (bh_bridges h)" "br_reqID (bh_heap h p) = msg_ID m" by blast
  have c: "\<not> ch_closed (bridge_send h p)" using assms(1) p(1) by (simp add: bridges_live_def members_live_def)
  from bridge_broadcast_eq [OF assms(1) p, of ord] assms(2) push [OF p] dropped [OF p] show ?thesis
    by (simp add: bridge_drop_eq [OF c] split: if_splits)
qed

lemma bridge_unregister_cases:
  assumes "bridges_live h" and "bridge_unregister p h = Returns h'"
  obtains (gone) "p \<notin> set (bh_bridges h)" and "h' = h"
  | (dropped) "p \<in> set (bh_bridges h)"
      and "h' = (set_bridge_send p ((bridge_send h p)\<lparr>ch_closed := True\<rparr>) h)\<lparr>bh_bridges := remove1 p (bh_bridges h)\<rparr>"
proof (cases "p \<in> set (bh_bridges h)")
  case True
  then have "\<not> ch_closed (bridge_send h p)" using assms(1) by (simp add: bridges_live_def members_live_def)
  with True assms(2) dropped show ?thesis by (simp add: bridge_unregister_def bridge_drop_eq)
next
  case False
  with assms(2) have "h' = h" by (simp add: bridge_unregister_def)
  with False show ?thesis by (rule gone)
qed

lemma bridges_live_remove1: "reqIDs_distinct h \<Longrightarrow> set ks \<subseteq> set (bh_bridges h) \<Longrightarrow> reqIDs_distinct (set_bridge_send p c h\<lparr>bh_bridges := ks\<rparr>)"
  by (auto simp: reqIDs_distinct_def inj_on_def subset_iff)

lemma bridge_step_consistent:
  assumes "bridges_live h" and "bridge_allowed e h" and "bridge_run e h = Returns h'"
  shows "bridges_live h'"
proof -
  have l: "members_live (bh_bridges h') (bridge_send h')"
    using bridge_step_live [of h e] assms by (auto simp: bridges_live_def)
  have d: "reqIDs_distinct h" using assms(1) by (simp add: bridges_live_def)
  have u: "reqIDs_distinct (set_bridge_send p c h)" for p c
    using d by (auto simp: reqIDs_distinct_def)
  have "reqIDs_distinct h'"
  proof (cases e)
    case (BridgeRegister p c i)
    with assms d show ?thesis
      by (auto simp: reqIDs_distinct_def bridge_register_def inj_on_def split: if_splits)
  next
    case (BridgeUnregister p)
    with assms have "bridge_unregister p h = Returns h'" by simp
    from assms(1) this show ?thesis
      by (cases rule: bridge_unregister_cases) (use d in \<open>simp_all add: bridges_live_remove1 set_remove1_subset\<close>)
  next
    case (BridgeBroadcast ord m)
    with assms have "bridge_broadcast ord m h = Returns h'" by simp
    from assms(1) this show ?thesis
      by (cases rule: bridge_broadcast_cases) (use d u in \<open>simp_all add: bridges_live_remove1 set_remove1_subset\<close>)
  next
    case (BridgePump p)
    with assms d u show ?thesis by (auto simp: bridge_pump_eq split: list.splits)
  qed
  with l show ?thesis by (simp add: bridges_live_def)
qed

lemma bridge_step_queue:
  assumes "bridges_live h" and "bridge_run e h = Returns h'" and "bridge_joins e \<noteq> Some p" and "p \<in> set (bh_bridges h)"
  shows "bridge_takes p e h @ ch_buf (bridge_send h' p) =
    ch_buf (bridge_send h p) @ (if p \<in> set (bh_bridges h') then bridge_offers p e h else [])"
proof (cases e)
  case (BridgeRegister q c i)
  then show ?thesis using assms by (auto simp: bridge_register_def bridge_send_def)
next
  case (BridgeUnregister q)
  with assms have "bridge_unregister q h = Returns h'" by simp
  from assms(1) this BridgeUnregister show ?thesis by (cases rule: bridge_unregister_cases) auto
next
  case (BridgeBroadcast ord m)
  with assms have b: "bridge_broadcast ord m h = Returns h'" by simp
  have d: "distinct (bh_bridges h)" "\<And>q. q \<in> set (bh_bridges h) \<Longrightarrow> br_reqID (bh_heap h q) = br_reqID (bh_heap h p) \<Longrightarrow> q = p"
    using assms(1,4) by (auto simp: bridges_live_def members_live_def reqIDs_distinct_def inj_on_def)
  from assms(1) b show ?thesis
  proof (cases rule: bridge_broadcast_cases)
    case none
    with assms(4) BridgeBroadcast show ?thesis by auto
  next
    case (push q)
    then have "br_reqID (bh_heap h p) = msg_ID m \<longleftrightarrow> q = p" using d(2) by auto
    with push assms(4) BridgeBroadcast show ?thesis by simp
  next
    case (dropped q)
    then have "br_reqID (bh_heap h p) = msg_ID m \<longleftrightarrow> q = p" using d(2) by auto
    with dropped d(1) assms(4) BridgeBroadcast show ?thesis by (simp add: set_remove1)
  qed
next
  case (BridgePump q)
  then show ?thesis using assms by (auto simp: bridge_pump_eq split: list.splits)
qed

lemma bridge_step_gone:
  assumes "bridges_live h" and "bridge_run e h = Returns h'" and "bridge_joins e \<noteq> Some p" and "p \<notin> set (bh_bridges h)"
  shows "p \<notin> set (bh_bridges h') \<and> bridge_takes p e h @ ch_buf (bridge_send h' p) = ch_buf (bridge_send h p)"
proof (cases e)
  case (BridgeRegister q c i)
  then show ?thesis using assms by (auto simp: bridge_register_def bridge_send_def)
next
  case (BridgeUnregister q)
  with assms have "bridge_unregister q h = Returns h'" by simp
  from assms(1) this assms(4) BridgeUnregister show ?thesis
    by (cases rule: bridge_unregister_cases) (auto dest: notin_set_remove1)
next
  case (BridgeBroadcast ord m)
  with assms have "bridge_broadcast ord m h = Returns h'" by simp
  from assms(1) this assms(4) BridgeBroadcast show ?thesis
    by (cases rule: bridge_broadcast_cases) (auto dest: notin_set_remove1)
next
  case (BridgePump q)
  then show ?thesis using assms by (auto simp: bridge_pump_eq split: list.splits)
qed

interpretation bridges: hub_queues bridge_run bh_bridges bridge_send bridge_joins bridge_allowed bridges_live bridge_offers bridge_takes
proof
  show "\<exists>s'. bridge_run e s = Returns s' \<and> members_live (bh_bridges s') (bridge_send s')"
    if "members_live (bh_bridges s) (bridge_send s)" for s e
    using bridge_step_live [OF that] .
  show "bridges_live s'" if "bridges_live s" "bridge_allowed e s" "bridge_run e s = Returns s'" for s e s'
    by (rule bridge_step_consistent [OF that])
  show "bridge_takes p e s @ ch_buf (bridge_send s' p) = ch_buf (bridge_send s p) @ (if p \<in> set (bh_bridges s') then bridge_offers p e s else [])"
    if "bridges_live s" "bridge_run e s = Returns s'" "bridge_joins e \<noteq> Some p" "p \<in> set (bh_bridges s)" for s e s' p
    by (rule bridge_step_queue [OF that])
  show "p \<notin> set (bh_bridges s') \<and> bridge_takes p e s @ ch_buf (bridge_send s' p) = ch_buf (bridge_send s p)"
    if "bridges_live s" "bridge_run e s = Returns s'" "bridge_joins e \<noteq> Some p" "p \<notin> set (bh_bridges s)" for s e s' p
    by (rule bridge_step_gone [OF that])
qed (simp add: bridges_live_def)

text \<open>
  C9: In every run neither hub panics: no channel is closed twice and nothing is sent on a
  closed channel; and every registered peer has an open channel within its bound.
\<close>

theorem hubs_never_panic:
  "(\<exists>h. exec hub_run es newHub = Returns h \<and> members_live (hub_clients h) (hub_send h))
   \<and> (\<exists>h. exec bridge_run bs newBridgeHub = Returns h \<and> members_live (bh_bridges h) (bridge_send h))"
  using client_hub.exec_live [of newHub es] bridges.exec_live [of newBridgeHub bs]
  by (simp add: members_live_def newHub_def newBridgeHub_def)

end
