(* ===== verification/Base64.thy ===== *)
theory Base64
  imports Go_Prelude
begin

section \<open>Base64\<close>

text \<open>
  \<open>base64.StdEncoding\<close> of Go's library, as far as the tunnel uses it: \<open>EncodeToString\<close>, and
  \<open>DecodeString\<close>, whose error is the value \<open>None\<close> (the bytes decoded before the error are
  not used by the program). The decoder skips line breaks, requires the padding and
  refuses anything after it.
\<close>

definition b64_alphabet :: string where
  "b64_alphabet = ''ABCDEFGHIJKLMNOPQRSTUVWXYZabcdefghijklmnopqrstuvwxyz0123456789+/''"

definition b64_char :: "nat \<Rightarrow> char" where
  "b64_char v = b64_alphabet ! v"

definition b64_val :: "char \<Rightarrow> nat option" where
  "b64_val c = find_byte c b64_alphabet"

fun base64_encode :: "string \<Rightarrow> string" where
  "base64_encode [] = []"
| "base64_encode [a] =
     (let x = of_char a :: nat
      in [b64_char (x div 4), b64_char (x mod 4 * 16), CHR ''='', CHR ''=''])"
| "base64_encode [a, b] =
     (let x = of_char a :: nat; y = of_char b :: nat
      in [b64_char (x div 4), b64_char (x mod 4 * 16 + y div 16), b64_char (y mod 16 * 4), CHR ''=''])"
| "base64_encode (a # b # c # s) =
     (let x = of_char a :: nat; y = of_char b :: nat; z = of_char c :: nat
      in b64_char (x div 4) # b64_char (x mod 4 * 16 + y div 16)
         # b64_char (y mod 16 * 4 + z div 64) # b64_char (z mod 64) # base64_encode s)"

fun b64_quanta :: "string \<Rightarrow> string option" where
  "b64_quanta [] = Some []"
| "b64_quanta (a # b # c # d # s) =
     (case (b64_val a, b64_val b) of
        (Some p, Some q) \<Rightarrow>
          if c = CHR ''='' then
            (if d = CHR ''='' \<and> s = [] then Some [char_of (p * 4 + q div 16)] else None)
          else (case b64_val c of
             None \<Rightarrow> None
           | Some r \<Rightarrow>
               if d = CHR ''='' then
                 (if s = [] then Some [char_of (p * 4 + q div 16), char_of (q mod 16 * 16 + r div 4)]
                  else None)
               else (case b64_val d of
                  None \<Rightarrow> None
                | Some t \<Rightarrow>
                    map_option (\<lambda>u. char_of (p * 4 + q div 16) # char_of (q mod 16 * 16 + r div 4)
                      # char_of (r mod 4 * 64 + t) # u) (b64_quanta s)))
      | _ \<Rightarrow> None)"
| "b64_quanta _ = None"

definition base64_decode :: "string \<Rightarrow> string option" where
  "base64_decode s = b64_quanta (filter (\<lambda>c. c \<noteq> CHR 0x0A \<and> c \<noteq> CHR 0x0D) s)"

lemma find_byte_nth: "distinct s \<Longrightarrow> i < length s \<Longrightarrow> find_byte (s ! i) s = Some i"
  by (induction s arbitrary: i) (auto simp: nth_Cons split: nat.splits)

lemma length_b64: "length b64_alphabet = 64"
  by code_simp

lemma distinct_b64: "distinct b64_alphabet"
  by code_simp

lemma b64_val_char: "v < 64 \<Longrightarrow> b64_val (b64_char v) = Some v"
  by (simp add: b64_val_def b64_char_def find_byte_nth distinct_b64 length_b64)

lemma b64_set: "CHR ''='' \<notin> set b64_alphabet \<and> CHR 0x0A \<notin> set b64_alphabet
    \<and> CHR 0x0D \<notin> set b64_alphabet \<and> CHR '' '' \<notin> set b64_alphabet"
  by code_simp

lemma b64_char_in: "v < 64 \<Longrightarrow> b64_char v \<in> set b64_alphabet"
  by (simp add: b64_char_def length_b64)

lemma b64_char_neq: "v < 64 \<Longrightarrow> c \<notin> set b64_alphabet \<Longrightarrow> b64_char v \<noteq> c"
  using b64_char_in by auto

lemma b64_bounds:
  fixes x y z :: nat
  assumes "x < 256" and "y < 256" and "z < 256"
  shows "x div 4 < 64" and "x mod 4 * 16 + y div 16 < 64" and "y mod 16 * 4 + z div 64 < 64"
proof -
  have "y div 16 < 16" "z div 64 < 4" "x mod 4 < 4" "y mod 16 < 16" using assms by simp_all
  then show "x mod 4 * 16 + y div 16 < 64" "y mod 16 * 4 + z div 64 < 64" by linarith+
qed (use assms in simp)

lemmas b64_bounds_char [simp] =
  b64_bounds [OF nat_of_char_less_256 nat_of_char_less_256 nat_of_char_less_256]

lemma b64_quanta_encode: "b64_quanta (base64_encode s) = Some s"
proof (induction s rule: base64_encode.induct)
  case (2 a)
  have "b64_char ((of_char a :: nat) mod 4 * 16) = b64_char (of_char a mod 4 * 16 + of_char CHR 0x00 div 16)"
    by simp
  then show ?case
    by (simp add: Let_def b64_val_char)
next
  case (3 a b)
  have "(of_char b :: nat) div 16 < 16" using nat_of_char_less_256 [of b] by linarith
  then show ?case
    by (simp add: Let_def b64_val_char b64_char_neq b64_set)
next
  case (4 a b c s)
  have "(of_char b :: nat) div 16 < 16" "(of_char c :: nat) div 64 < 4"
    using nat_of_char_less_256 [of b] nat_of_char_less_256 [of c] by linarith+
  with 4 show ?case
    by (simp add: Let_def b64_val_char b64_char_neq b64_set)
qed simp

lemma base64_set: "set (base64_encode s) \<subseteq> insert CHR ''='' (set b64_alphabet)"
  by (induction s rule: base64_encode.induct) (auto simp: Let_def intro!: b64_char_in)

lemma base64_round_trip [go_trip]: "base64_decode (base64_encode s) = Some s"
proof -
  have "filter (\<lambda>c. c \<noteq> CHR 0x0A \<and> c \<noteq> CHR 0x0D) (base64_encode s) = base64_encode s"
    using base64_set [of s] b64_set by (auto simp: filter_id_conv)
  then show ?thesis by (simp add: base64_decode_def b64_quanta_encode)
qed

lemma base64_no_space: "CHR '' '' \<notin> set (base64_encode s)"
  using base64_set [of s] b64_set by auto

end
