(* ===== verification/Net_Addr.thy ===== *)
theory Net_Addr
  imports Go_Prelude
begin

section \<open>IP addresses\<close>

text \<open>
  The part of Go's package \<open>net\<close> the proxy calls: printing an \<open>IP\<close>, \<open>ParseIP\<close>,
  \<open>ParseCIDR\<close> and \<open>IPNet.Contains\<close>. An \<open>IP\<close> is a byte slice of length 4 or 16, the nil
  slice is the empty string. Functions that return nil or an error on bad input return
  an option here.
\<close>

type_synonym IP = string

subsection \<open>Addresses\<close>

definition v4InV6Prefix :: string where
  "v4InV6Prefix = replicate 10 (char_of (0 :: nat)) @ replicate 2 (char_of (255 :: nat))"

definition To4 :: "IP \<Rightarrow> IP option" where
  "To4 ip =
     (if length ip = 4 then Some ip
      else if length ip = 16 \<and> take 12 ip = v4InV6Prefix then Some (drop 12 ip)
      else None)"

definition hex_char :: "nat \<Rightarrow> char" where
  "hex_char d = (if d < 10 then char_of (48 + d) else char_of (87 + d))"

fun hex_nat :: "nat \<Rightarrow> string" where
  "hex_nat n = (if n < 16 then [hex_char n] else hex_nat (n div 16) @ [hex_char (n mod 16)])"

declare hex_nat.simps [simp del]

text \<open>The eight 16-bit groups of an address and the first longest run of zero groups.\<close>

fun groups :: "string \<Rightarrow> nat list" where
  "groups (a # b # cs) = (of_char a * 256 + of_char b) # groups cs"
| "groups _ = []"

definition zero_run :: "nat list \<Rightarrow> nat \<Rightarrow> nat" where
  "zero_run gs i = length (takeWhile (\<lambda>g. g = 0) (drop i gs))"

definition longest_run :: "nat list \<Rightarrow> nat \<times> nat" where
  "longest_run gs =
     fold (\<lambda>i (e, n). if n < zero_run gs i then (i, zero_run gs i) else (e, n)) [0 ..< length gs] (0, 0)"

definition dotted :: "IP \<Rightarrow> string" where
  "dotted ip = Join (map (\<lambda>c. dec_digits (of_char c)) ip) ''.''"

definition IP_String :: "IP \<Rightarrow> string" where
  "IP_String ip =
     (if ip = [] then ''<nil>''
      else case To4 ip of
        Some ip4 \<Rightarrow> dotted ip4
      | None \<Rightarrow>
          if length ip \<noteq> 16 then ''?'' @ concat (map (\<lambda>c. [hex_char (of_char c div 16), hex_char (of_char c mod 16)]) ip)
          else let gs = groups ip; (e, n) = longest_run gs
               in if n < 2 then Join (map hex_nat gs) '':''
                  else Join (map hex_nat (take e gs)) '':'' @ ''::'' @ Join (map hex_nat (drop (e + n) gs)) '':'')"

subsection \<open>Parsing\<close>

definition dec_val :: "string \<Rightarrow> nat" where
  "dec_val s = foldl (\<lambda>n c. n * 10 + (of_char c - 48)) 0 s"

definition is_digit :: "char \<Rightarrow> bool" where
  "is_digit c \<longleftrightarrow> 48 \<le> (of_char c :: nat) \<and> (of_char c :: nat) \<le> 57"

text \<open>An octet: decimal, at most 255, without leading zeros.\<close>

definition octet_ok :: "string \<Rightarrow> bool" where
  "octet_ok s \<longleftrightarrow> s \<noteq> [] \<and> list_all is_digit s \<and> dec_val s \<le> 255 \<and> (length s = 1 \<or> hd s \<noteq> CHR ''0'')"

definition parseIPv4 :: "string \<Rightarrow> IP option" where
  "parseIPv4 s =
     (let ps = Split s ''.''
      in if length ps = 4 \<and> list_all octet_ok ps
         then Some (v4InV6Prefix @ map (\<lambda>p. char_of (dec_val p)) ps) else None)"

definition is_hex :: "char \<Rightarrow> bool" where
  "is_hex c = (case digit_val c of None \<Rightarrow> False | Some d \<Rightarrow> d < 16)"

definition hex_val :: "string \<Rightarrow> nat" where
  "hex_val s = foldl (\<lambda>n c. n * 16 + the (digit_val c)) 0 s"

text \<open>
  The loop of \<open>parseIPv6\<close>: \<open>k\<close> groups of room are left, \<open>acc\<close> holds the bytes so far, \<open>ell\<close>
  the position of the ellipsis in it.
\<close>

fun parse_groups :: "nat \<Rightarrow> string \<Rightarrow> nat option \<Rightarrow> string \<Rightarrow> (string \<times> nat option \<times> string) option" where
  "parse_groups 0 acc ell s = Some (acc, ell, s)"
| "parse_groups (Suc k) acc ell s =
     (let h = takeWhile is_hex s; r = dropWhile is_hex s; n = hex_val h
      in if h = [] \<or> 4 < length h then None
         else if r \<noteq> [] \<and> hd r = CHR ''.'' then
           (if ell = None \<and> length acc \<noteq> 12 then None
            else if 16 < length acc + 4 then None
            else case parseIPv4 s of None \<Rightarrow> None | Some ip4 \<Rightarrow> Some (acc @ drop 12 ip4, ell, []))
         else let acc = acc @ [char_of (n div 256), char_of (n mod 256)]
              in case r of
                  [] \<Rightarrow> Some (acc, ell, [])
                | c # r \<Rightarrow>
                    if c \<noteq> CHR '':'' then None
                    else case r of
                        [] \<Rightarrow> None
                      | d # r' \<Rightarrow>
                          if d = CHR '':'' then
                            (if ell \<noteq> None then None
                             else if r' = [] then Some (acc, Some (length acc), [])
                             else parse_groups k acc (Some (length acc)) r')
                          else parse_groups k acc ell r)"

definition parseIPv6 :: "string \<Rightarrow> IP option" where
  "parseIPv6 s =
     (let lead = HasPrefix s ''::''; t = (if lead then drop 2 s else s)
      in if lead \<and> t = [] then Some (replicate 16 (char_of (0 :: nat)))
         else case parse_groups 8 [] (if lead then Some 0 else None) t of
             None \<Rightarrow> None
           | Some (acc, ell, rest) \<Rightarrow>
               if rest \<noteq> [] then None
               else if length acc < 16 then
                 (case ell of None \<Rightarrow> None
                  | Some e \<Rightarrow> Some (take e acc @ replicate (16 - length acc) (char_of (0 :: nat)) @ drop e acc))
               else if ell \<noteq> None then None else Some acc)"

definition ParseIP :: "string \<Rightarrow> IP option" where
  "ParseIP s =
     (case List.find (\<lambda>c. c = CHR ''.'' \<or> c = CHR '':'') s of
        None \<Rightarrow> None
      | Some c \<Rightarrow> if c = CHR ''.'' then parseIPv4 s else parseIPv6 s)"

subsection \<open>Networks\<close>

definition mask_byte :: "nat \<Rightarrow> nat" where
  "mask_byte k = (if 8 \<le> k then 255 else 255 - 255 div 2 ^ k)"

fun CIDRMask :: "nat \<Rightarrow> nat \<Rightarrow> nat list" where
  "CIDRMask n 0 = []"
| "CIDRMask n (Suc l) = mask_byte n # CIDRMask (n - 8) l"

definition mask_ip :: "IP \<Rightarrow> nat list \<Rightarrow> nat list" where
  "mask_ip ip m = map2 (\<lambda>c k. of_char c AND k) ip m"

text \<open>\<open>ParseCIDR\<close>: the address, at its own length, and the length of the prefix.\<close>

definition ParseCIDR :: "string \<Rightarrow> (IP \<times> nat) option" where
  "ParseCIDR s =
     (case find_byte CHR ''/'' s of
        None \<Rightarrow> None
      | Some i \<Rightarrow>
          let addr = take i s; m = drop (i + 1) s
          in case (case parseIPv4 addr of Some ip \<Rightarrow> Some (drop 12 ip) | None \<Rightarrow> parseIPv6 addr) of
               None \<Rightarrow> None
             | Some ip \<Rightarrow>
                 if m \<noteq> [] \<and> list_all is_digit m \<and> dec_val m \<le> 8 * length ip
                 then Some (ip, dec_val m) else None)"

definition IPNet_Contains :: "IP \<times> nat \<Rightarrow> IP \<Rightarrow> bool" where
  "IPNet_Contains net ip =
     (case net of (nn, n) \<Rightarrow>
        let ip' = (case To4 ip of Some x \<Rightarrow> x | None \<Rightarrow> ip);
            nn' = (case To4 nn of Some x \<Rightarrow> x | None \<Rightarrow> nn);
            m = CIDRMask n (length nn); m' = (if length nn' \<noteq> length nn then drop 12 m else m)
        in length ip' = length nn' \<and> mask_ip ip' m' = mask_ip nn' m')"

subsection \<open>Lemmas on prefixes\<close>

definition byte_bits :: "char \<Rightarrow> bool list" where
  "byte_bits c = map (\<lambda>i. bit (of_char c :: nat) (7 - i)) [0 ..< 8]"

definition ip_bits :: "IP \<Rightarrow> bool list" where
  "ip_bits ip = concat (map byte_bits ip)"

lemma mask_byte_eq: "k \<le> 8 \<Longrightarrow> mask_byte k = push_bit (8 - k) (mask k)"
proof -
  assume "k \<le> 8"
  then have "k \<in> {0, 1, 2, 3, 4, 5, 6, 7, 8}" by auto
  then show ?thesis by (auto simp: mask_byte_def push_bit_eq_mult mask_eq_exp_minus_1)
qed

lemma bit_mask_byte: "k \<le> 8 \<Longrightarrow> bit (mask_byte k) i \<longleftrightarrow> 8 - k \<le> i \<and> i < 8"
  by (auto simp: mask_byte_eq bit_push_bit_iff bit_mask_iff)

lemma of_char_bound: "(of_char c :: nat) \<le> 255"
  using nat_of_char_less_256 [of c] by linarith

lemma bit_char: "bit (of_char c :: nat) i \<Longrightarrow> i < 8"
proof -
  have "of_char c = take_bit 8 (of_char c :: nat)"
    by (simp add: take_bit_nat_eq_self)
  then show "bit (of_char c :: nat) i \<Longrightarrow> i < 8" by (metis bit_take_bit_iff)
qed

lemma mask_byte_bits:
  assumes "k \<le> 8"
  shows "(of_char a AND mask_byte k :: nat) = of_char b AND mask_byte k
    \<longleftrightarrow> take k (byte_bits a) = take k (byte_bits b)"
proof -
  have "(of_char a AND mask_byte k :: nat) = of_char b AND mask_byte k
      \<longleftrightarrow> (\<forall>i. 8 - k \<le> i \<and> i < 8 \<longrightarrow> bit (of_char a :: nat) i = bit (of_char b :: nat) i)"
    by (auto simp: bit_eq_iff bit_and_iff bit_mask_byte [OF assms])
  also have "\<dots> \<longleftrightarrow> (\<forall>i < k. bit (of_char a :: nat) (7 - i) = bit (of_char b :: nat) (7 - i))"
  proof safe
    fix i assume *: "\<forall>i < k. bit (of_char a :: nat) (7 - i) = bit (of_char b :: nat) (7 - i)"
      and i: "8 - k \<le> i" "i < 8"
    then have "7 - i < k" "7 - (7 - i) = i" using assms by auto
    with * have "bit (of_char a :: nat) i = bit (of_char b :: nat) i" by metis
    then show "bit (of_char a :: nat) i \<Longrightarrow> bit (of_char b :: nat) i"
      "bit (of_char b :: nat) i \<Longrightarrow> bit (of_char a :: nat) i" by simp_all
  next
    fix i assume "\<forall>i. 8 - k \<le> i \<and> i < 8 \<longrightarrow> bit (of_char a :: nat) i = bit (of_char b :: nat) i"
      and "i < k"
    moreover from this have "8 - k \<le> 7 - i" "7 - i < 8" using assms by auto
    ultimately have "bit (of_char a :: nat) (7 - i) = bit (of_char b :: nat) (7 - i)" by blast
    then show "bit (of_char a :: nat) (7 - i) \<Longrightarrow> bit (of_char b :: nat) (7 - i)"
      "bit (of_char b :: nat) (7 - i) \<Longrightarrow> bit (of_char a :: nat) (7 - i)" by simp_all
  qed
  also have "\<dots> \<longleftrightarrow> take k (byte_bits a) = take k (byte_bits b)"
    using assms by (auto simp: byte_bits_def list_eq_iff_nth_eq)
  finally show ?thesis .
qed

lemma length_byte_bits [simp]: "length (byte_bits c) = 8"
  by (simp add: byte_bits_def)

lemma mask_byte_all: "(of_char a AND mask_byte (k + 8) :: nat) = of_char a"
proof -
  have "mask_byte (k + 8) = mask_byte 8" by (simp add: mask_byte_def)
  then show ?thesis by (auto simp: bit_eq_iff bit_and_iff bit_mask_byte dest: bit_char)
qed

lemma byte_bits_inject: "byte_bits a = byte_bits b \<longleftrightarrow> a = b"
  using mask_byte_bits [of 8 a b] mask_byte_all [of _ 0] by simp

lemma mask_ip_bits:
  "length a = length b \<Longrightarrow> mask_ip a (CIDRMask n (length a)) = mask_ip b (CIDRMask n (length b))
     \<longleftrightarrow> take n (ip_bits a) = take n (ip_bits b)"
proof (induction a b arbitrary: n rule: list_induct2)
  case Nil
  show ?case by (simp add: mask_ip_def ip_bits_def)
next
  case (Cons x xs y ys)
  have rest: "mask_ip xs (CIDRMask (n - 8) (length xs)) = mask_ip ys (CIDRMask (n - 8) (length ys))
     \<longleftrightarrow> take (n - 8) (ip_bits xs) = take (n - 8) (ip_bits ys)" by (rule Cons.IH)
  show ?case
  proof (cases "n \<le> 8")
    case True
    then show ?thesis using rest mask_byte_bits [OF True, of x y]
      by (simp add: mask_ip_def ip_bits_def)
  next
    case False
    then have "(of_char c AND mask_byte n :: nat) = of_char c" for c
      using mask_byte_all [of c "n - 8"] by simp
    then show ?thesis using rest False byte_bits_inject [of x y]
      by (simp add: mask_ip_def ip_bits_def)
  qed
qed

subsection \<open>Round trips\<close>

lemma dec_val_snoc: "dec_val (s @ [c]) = dec_val s * 10 + (of_char c - 48)"
  by (simp add: dec_val_def)

lemma dec_val_digits [simp]: "dec_val (dec_digits n) = n"
proof (induction n rule: dec_digits.induct)
  case (1 n)
  then show ?case
    by (subst dec_digits.simps) (auto simp: dec_val_snoc, simp add: dec_val_def)
qed

lemma digits_dec: "list_all is_digit (dec_digits n)"
  using set_dec_digits [of n] by (auto simp: list_all_iff is_digit_def)

lemma octet_digits: "n \<le> 255 \<Longrightarrow> octet_ok (dec_digits n)"
proof (cases "n = 0")
  case True
  then show ?thesis by (simp add: octet_ok_def dec_digits.simps [of 0] is_digit_def dec_val_def)
next
  case False
  then show "n \<le> 255 \<Longrightarrow> ?thesis" using dec_digits_hd_nonzero [of n] digits_dec [of n]
    by (simp add: octet_ok_def)
qed

lemma Split_Join_byte:
  "xs \<noteq> [] \<Longrightarrow> \<forall>x \<in> set xs. b \<notin> set x \<Longrightarrow> Split (Join xs [b]) [b] = xs"
proof (induction xs)
  case (Cons x xs)
  then show ?case by (cases xs) (simp_all add: Split_byte)
qed simp

lemma parse_dotted: "length ip = 4 \<Longrightarrow> parseIPv4 (dotted ip) = Some (v4InV6Prefix @ ip)"
proof -
  assume l: "length ip = 4"
  then have "Split (dotted ip) ''.'' = map (\<lambda>c. dec_digits (of_char c)) ip"
    unfolding dotted_def by (intro Split_Join_byte) (auto simp: dec_digits_notin)
  moreover have "list_all octet_ok (map (\<lambda>c. dec_digits (of_char c)) ip)"
    by (auto simp: list_all_iff of_char_bound intro!: octet_digits)
  ultimately show ?thesis using l by (simp add: parseIPv4_def comp_def)
qed

lemma four: "length ip = 4 \<Longrightarrow> \<exists>a b c d. ip = [a, b, c, d]"
  by (auto simp: length_Suc_conv eval_nat_numeral)

lemma dotted_not_Nil [simp]: "length ip = 4 \<Longrightarrow> dotted ip \<noteq> []"
  using four [of ip] by (auto simp: dotted_def)

lemma dotted_chars: "CHR '':'' \<notin> set (dotted ip)" "CHR ''/'' \<notin> set (dotted ip)"
proof -
  have "c \<notin> set (Join xs ''.'')" if "\<forall>x \<in> set xs. c \<notin> set x" "c \<noteq> CHR ''.''" for c xs
    using that by (induction xs "''.''" rule: Join.induct) auto
  then show "CHR '':'' \<notin> set (dotted ip)" "CHR ''/'' \<notin> set (dotted ip)"
    by (auto simp: dotted_def dec_digits_notin)
qed

lemma find_dot: "length ip = 4 \<Longrightarrow> List.find (\<lambda>c. c = CHR ''.'' \<or> c = CHR '':'') (dotted ip) = Some CHR ''.''"
proof -
  assume "length ip = 4"
  then obtain a b c d where "ip = [a, b, c, d]" using four by blast
  then have d: "dotted ip = dec_digits (of_char a) @ CHR ''.'' # dotted [b, c, d]"
    by (simp add: dotted_def)
  have find: "List.find P (xs @ y # ys) = Some y" if "\<forall>x \<in> set xs. \<not> P x" "P y"
    for P and xs ys :: string and y
    using that by (induction xs) auto
  have "CHR ''.'' \<notin> set (dec_digits n)" "CHR '':'' \<notin> set (dec_digits n)" for n
    by (simp_all add: dec_digits_notin)
  then show ?thesis unfolding d by (intro find) auto
qed

lemma ParseIP_dotted: "length ip = 4 \<Longrightarrow> ParseIP (dotted ip) = Some (v4InV6Prefix @ ip)"
  by (simp add: ParseIP_def find_dot parse_dotted)

lemma IP_String_4: "length ip = 4 \<Longrightarrow> IP_String ip = dotted ip"
  by (auto simp: IP_String_def To4_def)

lemma To4_v4: "length ip = 4 \<Longrightarrow> To4 (v4InV6Prefix @ ip) = Some ip"
  by (simp add: To4_def v4InV6Prefix_def)

lemma ParseCIDR_dotted:
  "length ip = 4 \<Longrightarrow> n \<le> 32 \<Longrightarrow> ParseCIDR (dotted ip @ ''/'' @ dec_digits n) = Some (ip, n)"
  by (simp add: ParseCIDR_def dotted_chars parse_dotted digits_dec v4InV6Prefix_def)

end
