(* ===== verification/Dns_Cache.thy ===== *)
theory Dns_Cache
  imports Go_Prelude
begin

section \<open>The DNS cache\<close>

text \<open>
  The package \<open>utils/cache\<close> (\<open>utils/cache/cache.go\<close>): a map from host names to addresses
  with an expiry time, whose size is bounded by a ring of 65536 keys. The current time
  is an argument (nanoseconds, an \<open>int\<close>); the mutex makes each operation atomic, so an
  operation is a function on the state. The locale \<open>address_cache\<close> is the contract the
  tunnel's name lookup relies on.
\<close>

datatype DialState = StateNew | StateFail | StateNone

record cacheEntry =
  ipv4 :: string
  state :: DialState
  expires :: int

record resolveLookupCache =
  ips :: "string \<rightharpoonup> cacheEntry"
  keys :: "string list"
  next_slot :: nat

definition newResolveLookupCache :: resolveLookupCache where
  "newResolveLookupCache = \<lparr>ips = Map.empty, keys = replicate 65536 '''', next_slot = 0\<rparr>"

definition Cache_Lookup ::
  "int \<Rightarrow> string \<Rightarrow> resolveLookupCache \<Rightarrow> string \<times> DialState \<times> resolveLookupCache" where
  "Cache_Lookup now host c =
     (case ips c host of
        Some hit \<Rightarrow>
          if now < expires hit then (ipv4 hit, state hit, c)
          else ('''', StateNone, c\<lparr>ips := (ips c)(host := None)\<rparr>)
      | None \<Rightarrow> ('''', StateNone, c))"

definition Cache_Store ::
  "int \<Rightarrow> string \<Rightarrow> string \<Rightarrow> DialState \<Rightarrow> int \<Rightarrow> resolveLookupCache \<Rightarrow> resolveLookupCache" where
  "Cache_Store now host ip st d c =
     (case ips c host of
        Some hit \<Rightarrow>
          c\<lparr>ips := (ips c)(host \<mapsto> hit\<lparr>ipv4 := ip, state := st, expires := now + d\<rparr>)\<rparr>
      | None \<Rightarrow>
          let c = c\<lparr>ips := (ips c)(keys c ! next_slot c := None)\<rparr>;
              c = c\<lparr>keys := (keys c)[next_slot c := host]\<rparr>;
              c = c\<lparr>next_slot := (next_slot c + 1) AND 65535\<rparr>
          in c\<lparr>ips := (ips c)(host \<mapsto> \<lparr>ipv4 = ip, state = st, expires = now + d\<rparr>)\<rparr>)"

subsection \<open>Runs of the cache\<close>

datatype cache_op =
    OpLookup int string
  | OpStore int string string DialState int

fun cache_step :: "cache_op \<Rightarrow> resolveLookupCache \<Rightarrow> resolveLookupCache" where
  "cache_step (OpLookup now h) c = snd (snd (Cache_Lookup now h c))"
| "cache_step (OpStore now h ip st d) c = Cache_Store now h ip st d c"

definition cache_run :: "cache_op list \<Rightarrow> resolveLookupCache" where
  "cache_run ops = fold cache_step ops newResolveLookupCache"

text \<open>Every cached host owns a slot of the ring, so the ring bounds the map.\<close>

definition cache_inv :: "resolveLookupCache \<Rightarrow> bool" where
  "cache_inv c \<longleftrightarrow>
     length (keys c) = 65536 \<and> next_slot c < 65536 \<and> dom (ips c) \<subseteq> set (keys c)"

subsection \<open>The contract\<close>

text \<open>
  What a client may rely on: after a store with a positive lifetime the host resolves to
  the stored address until the lifetime ends and to nothing afterwards, and a lookup
  never changes what another lookup returns.
\<close>

locale address_cache =
  fixes look :: "int \<Rightarrow> string \<Rightarrow> 'c \<Rightarrow> string \<times> DialState \<times> 'c"
    and put :: "int \<Rightarrow> string \<Rightarrow> string \<Rightarrow> DialState \<Rightarrow> int \<Rightarrow> 'c \<Rightarrow> 'c"
    and ok :: "'c \<Rightarrow> bool"
  assumes ok_look: "ok c \<Longrightarrow> ok (snd (snd (look now h c)))"
    and ok_put: "ok c \<Longrightarrow> ok (put now h ip st d c)"
    and look_put_live: "ok c \<Longrightarrow> t < now + d \<Longrightarrow>
      fst (look t h (put now h ip st d c)) = ip \<and> fst (snd (look t h (put now h ip st d c))) = st"
    and look_put_dead: "ok c \<Longrightarrow> now + d \<le> t \<Longrightarrow>
      fst (look t h (put now h ip st d c)) = '''' \<and>
      fst (snd (look t h (put now h ip st d c))) = StateNone"
    and look_look: "ok c \<Longrightarrow> t \<le> t' \<Longrightarrow>
      fst (look t' h (snd (snd (look t h' c)))) = fst (look t' h c)"

subsection \<open>Lemmas\<close>

lemma and_65535: "(n :: nat) AND 65535 = n mod 65536"
  using take_bit_eq_mask [of 16 n] by (simp add: take_bit_eq_mod mask_eq_exp_minus_1)

lemma set_update_superset: "set xs - {xs ! i} \<subseteq> set (xs[i := y])"
proof
  fix x
  assume "x \<in> set xs - {xs ! i}"
  then obtain j where "j < length xs" "xs ! j = x" "j \<noteq> i" by (auto simp: in_set_conv_nth)
  then have "xs[i := y] ! j = x" "j < length (xs[i := y])" by auto
  then show "x \<in> set (xs[i := y])" by (metis nth_mem)
qed

lemma cache_inv_new: "cache_inv newResolveLookupCache"
  by (simp add: cache_inv_def newResolveLookupCache_def)

lemma cache_inv_lookup: "cache_inv c \<Longrightarrow> cache_inv (snd (snd (Cache_Lookup now h c)))"
  by (auto simp: cache_inv_def Cache_Lookup_def split: option.splits)

lemma cache_inv_store: "cache_inv c \<Longrightarrow> cache_inv (Cache_Store now h ip st d c)"
proof (cases "ips c h")
  case None
  assume inv: "cache_inv c"
  then have "dom (ips c) - {keys c ! next_slot c} \<subseteq> set ((keys c)[next_slot c := h])"
    using set_update_superset [of "keys c" "next_slot c" h] by (auto simp: cache_inv_def)
  moreover have "h \<in> set ((keys c)[next_slot c := h])"
    using inv by (simp add: cache_inv_def set_update_memI)
  ultimately show ?thesis using inv None
    by (auto simp: cache_inv_def Cache_Store_def and_65535 Let_def)
next
  case (Some hit)
  assume "cache_inv c"
  with Some show ?thesis by (auto simp: cache_inv_def Cache_Store_def)
qed

lemma cache_inv_step: "cache_inv c \<Longrightarrow> cache_inv (cache_step op c)"
  by (cases op) (auto intro: cache_inv_lookup cache_inv_store)

lemma cache_inv_run: "cache_inv (cache_run ops)"
proof -
  have "cache_inv c \<Longrightarrow> cache_inv (fold cache_step ops c)" for c
    by (induction ops arbitrary: c) (auto intro: cache_inv_step)
  then show ?thesis by (simp add: cache_run_def cache_inv_new)
qed

lemma ips_store_same:
  "\<exists>e. ips (Cache_Store now h ip st d c) h = Some e \<and> ipv4 e = ip \<and> state e = st \<and> expires e = now + d"
  by (auto simp: Cache_Store_def Let_def split: option.splits)

lemma lookup_store:
  "Cache_Lookup t h (Cache_Store now h ip st d c) =
     (if t < now + d then (ip, st, Cache_Store now h ip st d c)
      else ('''', StateNone,
        (Cache_Store now h ip st d c)\<lparr>ips := (ips (Cache_Store now h ip st d c))(h := None)\<rparr>))"
  using ips_store_same [of now h ip st d c] by (auto simp: Cache_Lookup_def)

lemma lookup_idem:
  "t \<le> t' \<Longrightarrow>
   fst (Cache_Lookup t' h (snd (snd (Cache_Lookup t h' c)))) = fst (Cache_Lookup t' h c)"
  by (auto simp: Cache_Lookup_def split: option.splits)

interpretation dns: address_cache Cache_Lookup Cache_Store cache_inv
  by unfold_locales
    (use cache_inv_lookup cache_inv_store lookup_idem in \<open>simp_all add: lookup_store\<close>)

text \<open>Storing a host disturbs another one only when that one's slot is the next to go.\<close>

lemma ips_store_other:
  assumes "h' \<noteq> h" and "keys c ! next_slot c \<noteq> h'"
  shows "ips (Cache_Store now h ip st d c) h' = ips c h'"
  using assms by (auto simp: Cache_Store_def Let_def split: option.splits)

subsection \<open>Properties\<close>

text \<open>
  Whatever lookups and stores are made, in any order and at any times, the cache never
  holds more than 65536 hosts, and every host it holds is named in the key ring.
\<close>

theorem cache_bounded:
  "card (dom (ips (cache_run ops))) \<le> 65536 \<and> dom (ips (cache_run ops)) \<subseteq> set (keys (cache_run ops))"
proof -
  have inv: "cache_inv (cache_run ops)" by (rule cache_inv_run)
  then have "card (dom (ips (cache_run ops))) \<le> card (set (keys (cache_run ops)))"
    by (intro card_mono) (auto simp: cache_inv_def)
  also have "\<dots> \<le> length (keys (cache_run ops))" by (rule card_length)
  finally show ?thesis using inv by (simp add: cache_inv_def)
qed

text \<open>
  After a store the host resolves to the stored address and dial state for exactly the
  lifetime given; from then on it is a miss, and that lookup drops the entry.
\<close>

theorem cache_store_lookup:
  "Cache_Lookup t h (Cache_Store now h ip st d c) =
     (if t < now + d then (ip, st, Cache_Store now h ip st d c)
      else ('''', StateNone,
        (Cache_Store now h ip st d c)\<lparr>ips := (ips (Cache_Store now h ip st d c))(h := None)\<rparr>))"
  by (rule lookup_store)

text \<open>
  Storing a host evicts at most one other, the one named by the ring's next slot, and
  only when the stored host was absent; every other host resolves as before.
\<close>

theorem cache_store_frame:
  assumes "h' \<noteq> h"
  shows "fst (Cache_Lookup t h' (Cache_Store now h ip st d c)) =
    (if ips c h = None \<and> keys c ! next_slot c = h' then '''' else fst (Cache_Lookup t h' c))"
  using assms
  by (auto simp: Cache_Store_def Cache_Lookup_def Let_def split: option.splits)

theorem cache_store_frame_witness:
  "fst (Cache_Lookup 5 ''a'' (Cache_Store 1 ''b'' ''1.1.1.1'' StateNew 10
     (Cache_Store 0 ''a'' ''2.2.2.2'' StateNew 10 newResolveLookupCache))) = ''2.2.2.2''"
  by (subst cache_store_frame)
    (simp_all add: Cache_Store_def Cache_Lookup_def newResolveLookupCache_def Let_def and_65535)

text \<open>
  An expired entry keeps its ring slot when the lookup drops it. A host stored again
  while that stale slot is the one after the next has two slots, and the very next store
  of an absent host evicts it, although its lifetime has not ended and no newer entry
  was stored before.
\<close>

theorem cache_early_eviction:
  assumes "length (keys c) = 65536" and "ips c h = None" and "ips c h' = None" and "h' \<noteq> h"
    and "next_slot c < 65536" and "keys c ! ((next_slot c + 1) mod 65536) = h"
  shows "fst (Cache_Lookup t h
      (Cache_Store t2 h' ip' st' d' (Cache_Store t1 h ip st d c))) = ''''"
proof -
  let ?c = "Cache_Store t1 h ip st d c"
  have ne: "(next_slot c + 1) mod 65536 \<noteq> next_slot c" using assms(5)
    by (cases "next_slot c + 1 = 65536") auto
  have "keys ?c ! next_slot ?c = h"
    using assms ne by (simp add: Cache_Store_def Let_def and_65535)
  moreover have "ips ?c h' = None"
    using assms by (simp add: Cache_Store_def Let_def)
  ultimately show ?thesis using assms(4)
    by (auto simp: Cache_Store_def [of t2 h'] Cache_Lookup_def Let_def)
qed

theorem cache_early_eviction_witness:
  "fst (Cache_Lookup 20 ''h'' (Cache_Store 12 ''x'' ''9.9.9.9'' StateNew 100
     (Cache_Store 11 ''h'' ''1.2.3.4'' StateNew 100
       \<lparr>ips = Map.empty, keys = (replicate 65536 ''x'')[0 := ''h''], next_slot = 65535\<rparr>))) = ''''"
  by (rule cache_early_eviction) simp_all

end
