(* ===== verification/Stats.thy ===== *)
theory Stats
  imports Go_Prelude
begin

section \<open>Traffic counters\<close>

text \<open>
  The package \<open>proto/stats\<close> (\<open>counter.go\<close>, \<open>stats.go\<close>). Tunnels keep pointers to counters
  that the manager also holds, so counters live in an explicit store: \<open>objs\<close> maps a
  counter's address to its fields and the manager's map sends a name to an address. The
  minute of the hour and the Unix time are arguments. What \<open>Add\<close> prints is returned as a
  \<open>report\<close>.
\<close>

record counter =
  cname :: string
  active :: int
  minute :: int
  cval :: int

datatype report = NoReport | MB string int | KB string int | Bytes string int

definition counter_report :: "string \<Rightarrow> int \<Rightarrow> report" where
  "counter_report n tmp =
     (if tmp > 1000000 then MB n (tmp div 1000000)
      else if tmp > 1000 then KB n (tmp div 1000)
      else Bytes n tmp)"

text \<open>
  \<open>Add\<close> returns the accumulated value (also when it has just been reset to 0). The
  quotient in a report is of a positive number, where Go's division agrees with \<open>div\<close>.
\<close>

definition Counter_Add :: "int \<Rightarrow> int \<Rightarrow> int \<Rightarrow> counter \<Rightarrow> int \<times> report \<times> counter" where
  "Counter_Add nowMinute nowUnix delta c =
     (let tmp = cval c + delta;
          c = c\<lparr>cval := tmp\<rparr>
      in if nowMinute \<noteq> minute c then
           (tmp, counter_report (cname c) tmp, c\<lparr>minute := nowMinute, active := nowUnix, cval := 0\<rparr>)
         else (tmp, NoReport, c))"

record manager =
  counters :: "(string \<times> nat) list"
  objs :: "nat \<Rightarrow> counter"
  next_obj :: nat

definition NewManager :: manager where
  "NewManager =
     \<lparr>counters = [], objs = (\<lambda>_. \<lparr>cname = '''', active = 0, minute = 0, cval = 0\<rparr>), next_obj = 0\<rparr>"

definition RegisterCounter :: "int \<Rightarrow> string \<Rightarrow> manager \<Rightarrow> nat \<times> manager" where
  "RegisterCounter nowUnix n m =
     (case map_of (counters m) n of
        Some p \<Rightarrow> (p, m\<lparr>objs := (objs m)(p := (objs m p)\<lparr>active := nowUnix\<rparr>)\<rparr>)
      | None \<Rightarrow>
          let p = next_obj m;
              c = \<lparr>cname = n, active = 0, minute = 0, cval = 0\<rparr>
          in (p, m\<lparr>objs := (objs m)(p := c), next_obj := p + 1,
                  counters := AList.update n p (counters m)\<rparr>))"

text \<open>
  \<open>UnregisterCounter\<close> deletes from the map while ranging over it; the range skips an
  entry that is gone by the time it is reached.
\<close>

fun unregister_loop :: "int \<Rightarrow> (nat \<Rightarrow> counter) \<Rightarrow> (string \<times> nat) list \<Rightarrow>
    (string \<times> nat) list \<Rightarrow> (string \<times> nat) list" where
  "unregister_loop now ob [] m = m"
| "unregister_loop now ob ((k, p) # rest) m =
     (if map_of m k = Some p \<and> now - active (ob p) > 300
      then unregister_loop now ob rest (AList.delete (cname (ob p)) m)
      else unregister_loop now ob rest m)"

definition UnregisterCounter :: "int \<Rightarrow> manager \<Rightarrow> manager" where
  "UnregisterCounter nowUnix m =
     m\<lparr>counters := unregister_loop nowUnix (objs m) (counters m) (counters m)\<rparr>"

definition manager_add :: "int \<Rightarrow> int \<Rightarrow> nat \<Rightarrow> int \<Rightarrow> manager \<Rightarrow> manager" where
  "manager_add nowMinute nowUnix p delta m =
     m\<lparr>objs := (objs m)(p := snd (snd (Counter_Add nowMinute nowUnix delta (objs m p))))\<rparr>"

subsection \<open>Invariant\<close>

text \<open>Keys are distinct, every key is the name of its counter, addresses are allocated once.\<close>

definition manager_inv :: "manager \<Rightarrow> bool" where
  "manager_inv m \<longleftrightarrow>
     distinct (map fst (counters m)) \<and>
     (\<forall>(n, p) \<in> set (counters m). cname (objs m p) = n \<and> p < next_obj m)"

datatype stats_op =
    OpRegister int string
  | OpUnregister int
  | OpAdd int int nat int

fun stats_step :: "stats_op \<Rightarrow> manager \<Rightarrow> manager" where
  "stats_step (OpRegister u n) m = snd (RegisterCounter u n m)"
| "stats_step (OpUnregister u) m = UnregisterCounter u m"
| "stats_step (OpAdd t u p d) m = manager_add t u p d m"

text \<open>The values an \<open>Add\<close> sequence reports, with the counter it leaves.\<close>

fun add_run :: "(int \<times> int \<times> int) list \<Rightarrow> counter \<Rightarrow> int list \<times> counter" where
  "add_run [] c = ([], c)"
| "add_run ((t, u, d) # xs) c =
     (let (v, r, c') = Counter_Add t u d c;
          (vs, c'') = add_run xs c'
      in (if r = NoReport then vs else v # vs, c''))"

lemma Counter_Add_cname [simp]: "cname (snd (snd (Counter_Add t u d c))) = cname c"
  by (simp add: Counter_Add_def Let_def)

lemma counter_report_not_NoReport [simp]: "counter_report n v \<noteq> NoReport"
  by (simp add: counter_report_def)

lemma set_update_subset: "set (AList.update k v al) \<subseteq> insert (k, v) (set al)"
  by (induction al) auto

lemma unregister_loop_map_of:
  assumes "\<forall>(n, p) \<in> set rest. cname (ob p) = n"
  shows "map_of (unregister_loop now ob rest m) k =
    (case map_of m k of
       None \<Rightarrow> None
     | Some p \<Rightarrow> if (k, p) \<in> set rest \<and> now - active (ob p) > 300 then None else Some p)"
  using assms
  by (induction now ob rest m rule: unregister_loop.induct)
    (auto simp: AList.delete_conv' split: option.splits if_splits)

lemma set_delete_subset: "set (AList.delete k al) \<subseteq> set al"
  by (auto simp: AList.delete_eq)

lemma unregister_loop_set: "set (unregister_loop now ob rest m) \<subseteq> set m"
  by (induction now ob rest m rule: unregister_loop.induct)
    (auto dest: subsetD [OF set_delete_subset])

lemma unregister_loop_distinct:
  "distinct (map fst m) \<Longrightarrow> distinct (map fst (unregister_loop now ob rest m))"
  by (induction now ob rest m rule: unregister_loop.induct) (auto simp: AList.distinct_delete)

lemma manager_inv_new: "manager_inv NewManager"
  by (simp add: manager_inv_def NewManager_def)

lemma manager_inv_register: "manager_inv m \<Longrightarrow> manager_inv (snd (RegisterCounter u n m))"
proof (cases "map_of (counters m) n")
  case None
  assume inv: "manager_inv m"
  have "set (AList.update n (next_obj m) (counters m)) \<subseteq> insert (n, next_obj m) (set (counters m))"
    by (rule set_update_subset)
  with None inv show ?thesis
    by (fastforce simp: manager_inv_def RegisterCounter_def Let_def AList.distinct_update)
next
  case (Some p)
  assume "manager_inv m"
  with Some show ?thesis by (auto simp: manager_inv_def RegisterCounter_def)
qed

lemma manager_inv_unregister: "manager_inv m \<Longrightarrow> manager_inv (UnregisterCounter u m)"
  using unregister_loop_set [of u "objs m" "counters m" "counters m"]
    unregister_loop_distinct [of "counters m" u "objs m" "counters m"]
  by (auto simp: manager_inv_def UnregisterCounter_def)

lemma manager_inv_add: "manager_inv m \<Longrightarrow> manager_inv (manager_add t u p d m)"
  by (auto simp: manager_inv_def manager_add_def)

lemma manager_inv_step: "manager_inv m \<Longrightarrow> manager_inv (stats_step op m)"
  by (cases op) (auto intro: manager_inv_register manager_inv_unregister manager_inv_add)

lemma manager_inv_run: "manager_inv (fold stats_step ops NewManager)"
proof -
  have "manager_inv m \<Longrightarrow> manager_inv (fold stats_step ops m)" for m
    by (induction ops arbitrary: m) (auto intro: manager_inv_step)
  then show ?thesis by (simp add: manager_inv_new)
qed

lemma unregister_map_of:
  assumes "manager_inv m"
  shows "map_of (counters (UnregisterCounter u m)) n =
    (case map_of (counters m) n of
       None \<Rightarrow> None
     | Some p \<Rightarrow> if u - active (objs m p) > 300 then None else Some p)"
proof -
  have "\<forall>(n, p) \<in> set (counters m). cname (objs m p) = n"
    using assms by (auto simp: manager_inv_def)
  from unregister_loop_map_of [OF this] show ?thesis
    by (auto simp: UnregisterCounter_def split: option.splits dest: map_of_SomeD)
qed

subsection \<open>Properties\<close>

text \<open>
  No byte is lost or counted twice: over any sequence of \<open>Add\<close> calls the values
  reported plus what is still in the counter equal what was in it plus everything added.
\<close>

theorem counter_conservation:
  "sum_list (fst (add_run xs c)) + cval (snd (add_run xs c))
     = cval c + sum_list (map (\<lambda>(t, u, d). d) xs)"
  by (induction xs c rule: add_run.induct)
    (auto simp: Counter_Add_def Let_def split: prod.splits if_splits)

text \<open>
  C0: after any history of registrations, additions and clean-ups, \<open>UnregisterCounter\<close>
  removes exactly the counters idle for more than 300 seconds and changes no other name.
\<close>

theorem unregister_exact:
  fixes ops
  defines "m \<equiv> fold stats_step ops NewManager"
  shows "map_of (counters (UnregisterCounter now m)) n =
    (case map_of (counters m) n of
       None \<Rightarrow> None
     | Some p \<Rightarrow> if now - active (objs m p) > 300 then None else Some p)"
  unfolding m_def by (rule unregister_map_of [OF manager_inv_run])

text \<open>
  Registering a new name leaves the counter's activity time at 0, so the next clean-up
  drops it whatever its age, and a second tunnel for the same name gets another counter
  while the first one still uses the old one.
\<close>

theorem register_then_cleanup:
  fixes ops
  defines "m \<equiv> fold stats_step ops NewManager"
  assumes "map_of (counters m) n = None" and "now' > 300"
  shows "map_of (counters (UnregisterCounter now' (snd (RegisterCounter now n m)))) n = None
    \<and> fst (RegisterCounter now'' n (UnregisterCounter now' (snd (RegisterCounter now n m))))
        \<noteq> fst (RegisterCounter now n m)"
proof -
  have inv: "manager_inv (snd (RegisterCounter now n m))"
    unfolding m_def by (rule manager_inv_register [OF manager_inv_run])
  have "map_of (counters (UnregisterCounter now' (snd (RegisterCounter now n m)))) n = None"
    using assms(2,3)
    by (simp add: unregister_map_of [OF inv])
      (simp add: RegisterCounter_def Let_def AList.update_conv')
  then show ?thesis using assms(2)
    by (simp add: RegisterCounter_def Let_def UnregisterCounter_def)
qed

theorem register_then_cleanup_witness:
  "map_of (counters (UnregisterCounter 1700000060
      (snd (RegisterCounter 1700000000 ''a>>>b'' NewManager)))) ''a>>>b'' = None"
  using register_then_cleanup [of "[]" "''a>>>b''" 1700000060 1700000000]
  by (simp add: NewManager_def)

end
