(* ===== verification/Tunnel.thy ===== *)
theory Tunnel
  imports Tools Crypto Base64 Net_Addr Dns_Cache Stats Conf_Router Http_Header
begin

section \<open>Choosing a route and connecting\<close>

text \<open>
  The first part of \<open>proto/tunnel.go\<close>: who may connect, which rule of the configuration
  applies, how the name is resolved, which proxy is used, and what is dialled. The network
  is an environment record of functions that see the history of what the process has done,
  so every behaviour of it is covered, including one that changes over time. Everything the
  handshake does to the network is an event of the world's history, in order.

  The third-party package \<open>golang.org/x/net/proxy\<close> is the function \<open>net_socks\<close> of the
  environment; the AES block functions of the standard library are \<open>net_aes\<close> and \<open>net_aes_dec\<close>.
\<close>

subsection \<open>The environment\<close>

datatype net_event =
    NetDial string string int
  | NetLookup string
  | NetSocks string string string string
  | NetSend string
  | NetStatus

record net_env =
  net_dial :: "net_event list \<Rightarrow> string \<Rightarrow> string \<Rightarrow> int \<Rightarrow> go_err option"
  net_lookup :: "net_event list \<Rightarrow> string \<Rightarrow> IP list"
  net_socks :: "net_event list \<Rightarrow> string \<Rightarrow> string \<Rightarrow> string \<Rightarrow> string \<Rightarrow> go_err option"
  net_status :: "net_event list \<Rightarrow> string go_ret"
  net_clock :: "net_event list \<Rightarrow> int"
  net_aes :: block_fun
  net_aes_dec :: block_fun

record world =
  history :: "net_event list"
  dns_cache :: resolveLookupCache
  inbound :: manager
  outbound :: manager

definition seconds :: "int \<Rightarrow> int" where
  "seconds s = s * 1000000000"

definition now_unix :: "net_env \<Rightarrow> world \<Rightarrow> int" where
  "now_unix env w = net_clock env (history w) div 1000000000"

definition record_event :: "net_event \<Rightarrow> world \<Rightarrow> world" where
  "record_event ev w = w\<lparr>history := history w @ [ev]\<rparr>"

subsection \<open>The tunnel\<close>

datatype tun_state = StNew | StActive | StClosed | StIdle

record tunnel =
  inboundIP :: string
  curState :: tun_state
  inbountCounter :: "nat option"
  outbountCounter :: "nat option"
  tun_conn :: "(string \<times> string) option"

definition newTunnel :: "string \<Rightarrow> tunnel" where
  "newTunnel remoteAddr =
     \<lparr>inboundIP = GetRemoteIp remoteAddr, curState = StNew, inbountCounter = None,
      outbountCounter = None, tun_conn = None\<rparr>"

subsection \<open>Configuration\<close>

definition getString :: "string \<Rightarrow> string \<Rightarrow> string \<Rightarrow> string" where
  "getString val def def2 = (if val = '''' then (if def = '''' then def2 else def) else val)"

definition host_matches :: "router \<Rightarrow> string \<Rightarrow> string \<Rightarrow> conf_host \<Rightarrow> bool" where
  "host_matches r dstName dstIP h =
     (let confMatch = getString (h_Match h) (d_Match (r_Default r)) ''equal''
      in if confMatch = ''equal'' then h_Name h = dstName \<or> h_Name h = dstIP
         else if confMatch = ''contain'' then Contains dstName (h_Name h) \<or> Contains dstIP (h_Name h)
         else False)"

fun findHost_loop :: "(conf_host \<Rightarrow> bool) \<Rightarrow> conf_host list \<Rightarrow> conf_host" where
  "findHost_loop P [] = no_host"
| "findHost_loop P (h # hs) = (if P h then h else findHost_loop P hs)"

definition findHost :: "router \<Rightarrow> string \<Rightarrow> string \<Rightarrow> conf_host" where
  "findHost r dstName dstIP = findHost_loop (host_matches r dstName dstIP) (r_Hosts r)"

subsection \<open>Access control\<close>

text \<open>The nil address that \<open>ParseIP\<close> returns on bad input is the empty byte string.\<close>

definition iPInCIDR :: "IP \<Rightarrow> string \<Rightarrow> bool" where
  "iPInCIDR ip cidr =
     (case ParseCIDR cidr of
        None \<Rightarrow> IP_String ip = cidr
      | Some net \<Rightarrow> IPNet_Contains net ip)"

definition isAllowed :: "router \<Rightarrow> tunnel \<Rightarrow> string list \<Rightarrow> string \<times> bool" where
  "isAllowed r t allows =
     (let allows = allows @ r_AllowIP r
      in if allows = [] then ('''', True)
         else let userIP = (case ParseIP (inboundIP t) of None \<Rightarrow> [] | Some ip \<Rightarrow> ip)
              in if list_ex (iPInCIDR userIP) allows then ('''', True) else (inboundIP t, False))"

subsection \<open>Addresses and counters\<close>

definition registerCounter ::
  "net_env \<Rightarrow> string \<Rightarrow> string \<Rightarrow> 16 word \<Rightarrow> tunnel \<times> world \<Rightarrow> tunnel \<times> world" where
  "registerCounter env dstName dstIP dstPort = (\<lambda>(t, w).
     let logAddr = (if dstName \<noteq> '''' then dstName @ '':'' @ port_str dstPort
                    else if Contains dstIP '':'' then ''['' @ dstIP @ '']:'' @ port_str dstPort
                    else dstIP @ '':'' @ port_str dstPort);
         uplink = ''inbound>>>'' @ inboundIP t @ ''>>>'' @ logAddr @ ''>>>uplink'';
         downlink = ''inbound>>>'' @ inboundIP t @ ''>>>'' @ logAddr @ ''>>>downlink'';
         (p, m) = RegisterCounter (now_unix env w) uplink (inbound w);
         (q, m') = RegisterCounter (now_unix env w) downlink (outbound w)
     in (t\<lparr>inbountCounter := Some p, outbountCounter := Some q\<rparr>, w\<lparr>inbound := m, outbound := m'\<rparr>))"

definition address_of :: "string \<Rightarrow> string \<Rightarrow> 16 word \<Rightarrow> string \<times> string" where
  "address_of dstName dstIP dstPort =
     (if dstIP \<noteq> '''' then
        (if Contains dstIP '':'' then (''tcp6'', ''['' @ dstIP @ '']:'' @ port_str dstPort)
         else (''tcp'', dstIP @ '':'' @ port_str dstPort))
      else if dstName \<noteq> '''' then (''tcp'', dstName @ '':'' @ port_str dstPort)
      else (''tcp'', ''''))"

definition buildAddress ::
  "net_env \<Rightarrow> string \<Rightarrow> string \<Rightarrow> 16 word \<Rightarrow> bool \<Rightarrow> tunnel \<times> world \<Rightarrow> (string \<times> string) \<times> tunnel \<times> world" where
  "buildAddress env dstName dstIP dstPort addCounter tw =
     (let (network, connAddr) = address_of dstName dstIP dstPort
      in ((network, connAddr),
          if addCounter \<and> connAddr \<noteq> '''' then registerCounter env dstName dstIP dstPort tw else tw))"

subsection \<open>Dialling\<close>

definition dail ::
  "net_env \<Rightarrow> string \<Rightarrow> string \<Rightarrow> int \<Rightarrow> tunnel \<times> world \<Rightarrow> go_err option \<times> tunnel \<times> world" where
  "dail env network connAddr second = (\<lambda>(t, w).
     let connTimeout = (if second > 0 then seconds second else seconds 5);
         err = net_dial env (history w) network connAddr connTimeout;
         w = record_event (NetDial network connAddr connTimeout) w
     in (err, if err = None then t\<lparr>tun_conn := Some (network, connAddr)\<rparr> else t, w))"

definition lookup ::
  "net_env \<Rightarrow> string \<Rightarrow> string \<Rightarrow> world \<Rightarrow> string \<times> DialState \<times> world" where
  "lookup env dstName dstIP w =
     (if dstName \<noteq> '''' then
        let (dstIP, st, c) = Cache_Lookup (net_clock env (history w)) dstName (dns_cache w);
            w = w\<lparr>dns_cache := c\<rparr>
        in if dstIP = '''' then
             let upIPs = net_lookup env (history w) dstName;
                 w = record_event (NetLookup dstName) w
             in (case upIPs of
                   ip # _ \<Rightarrow>
                     let dstIP = IP_String ip
                     in (dstIP, StateNew,
                         w\<lparr>dns_cache := Cache_Store (net_clock env (history w)) dstName dstIP StateNew
                             (seconds 600) (dns_cache w)\<rparr>)
                 | [] \<Rightarrow> (dstIP, st, w))
           else (dstIP, st, w)
      else (dstIP, StateNone, w))"

text \<open>A proxy specification is \<open>scheme://host:port\<close>; it is used only when it can be dialled.\<close>

definition getProxyServer ::
  "net_env \<Rightarrow> string \<Rightarrow> world \<Rightarrow> (go_err + (string \<times> string \<times> 16 word)) \<times> world" where
  "getProxyServer env proxySpec w =
     (if proxySpec = '''' then (Inl (ErrMsg ''proxy empty''), w)
      else
        let tmp = Split proxySpec ''://'';
            (proxyScheme, proxySpec) = (if length tmp = 2 then (tmp ! 0, tmp ! 1) else (''tunnel'', proxySpec));
            tmp = Split proxySpec '':''
        in if length tmp = 2 then
             (case Atoi (tmp ! 1) of
                (portInt, None) \<Rightarrow>
                  let proxyServer = tmp ! 0; proxyPort = uint16 portInt;
                      addr = proxyServer @ '':'' @ port_str proxyPort;
                      err = net_dial env (history w) ''tcp'' addr 300000000;
                      w = record_event (NetDial ''tcp'' addr 300000000) w
                  in (case err of
                        Some e \<Rightarrow> (Inl e, w)
                      | None \<Rightarrow> (Inr (proxyScheme, proxyServer, proxyPort), w))
              | (portInt, Some err) \<Rightarrow> (Inl err, w))
           else (Inl (ErrMsg ''proxy format''), w))"

definition socks5_connect ::
  "net_env \<Rightarrow> string \<Rightarrow> string \<Rightarrow> string \<Rightarrow> string \<Rightarrow> tunnel \<times> world \<Rightarrow> go_err option \<times> tunnel \<times> world" where
  "socks5_connect env network connAddr targetNet targetAddr = (\<lambda>(t, w).
     let err = net_socks env (history w) network connAddr targetNet targetAddr;
         w = record_event (NetSocks network connAddr targetNet targetAddr) w
     in (err, if err = None then t\<lparr>tun_conn := Some (network, connAddr)\<rparr> else t, w))"

definition getToken :: "router \<Rightarrow> string" where
  "getToken r = (if r_Token r = '''' then ''anyproxyproxyany'' else r_Token r)"

text \<open>
  The request to the proxy; a token of 24 or 32 bytes makes the encryption panic. The code
  passes the request as the format of \<open>fmt.Fprintf\<close> without operands, so a percent sign
  in a target is read as a verb: \<open>fmt_plain\<close> is what is printed then, for verbs of one byte
  and without explicit operand indices.
\<close>

fun fmt_plain :: "nat \<Rightarrow> string \<Rightarrow> string" where
  "fmt_plain 0 s = s"
| "fmt_plain (Suc n) [] = []"
| "fmt_plain (Suc n) (c # s) =
     (if c \<noteq> CHR ''%'' then c # fmt_plain n s
      else
        let s = dropWhile (\<lambda>c. c \<in> set ''#0+- '') s;
            s = dropWhile is_digit s;
            s = (case s of d # r \<Rightarrow> if d = CHR ''.'' then dropWhile is_digit r else s | [] \<Rightarrow> s)
        in case s of
             [] \<Rightarrow> ''%!(NOVERB)''
           | v # r \<Rightarrow>
               if v = CHR ''%'' then CHR ''%'' # fmt_plain n r
               else ''%!'' @ [v] @ ''(MISSING)'' @ fmt_plain n r)"

definition Fprintf_plain :: "string \<Rightarrow> string" where
  "Fprintf_plain s = fmt_plain (length s) s"

definition connect_string ::
  "block_fun \<Rightarrow> router \<Rightarrow> string \<Rightarrow> bool \<Rightarrow> string go_ret outcome" where
  "connect_string E r target encrypt =
     (if encrypt then
        (case EncryptAES E target (getToken r) of
           Panics \<Rightarrow> Panics
         | Returns (x1, Some err) \<Rightarrow> Returns ([], Some err)
         | Returns (x1, None) \<Rightarrow>
             Returns (''CONNECT '' @ base64_encode x1 @ '' HTTP/1.1'' @ crlf @ crlf, None))
      else Returns (''CONNECT '' @ target @ '' HTTP/1.1'' @ crlf @ crlf, None))"

definition httpConnect ::
  "net_env \<Rightarrow> router \<Rightarrow> string \<Rightarrow> string \<Rightarrow> string \<Rightarrow> bool \<Rightarrow> tunnel \<times> world
     \<Rightarrow> (go_err option \<times> tunnel \<times> world) outcome" where
  "httpConnect env r network connAddr target encrypt tw =
     (case dail env network connAddr 0 tw of
        (Some err, t, w) \<Rightarrow> Returns (Some err, t, w)
      | (None, t, w) \<Rightarrow>
          (case connect_string (net_aes env) r target encrypt of
             Panics \<Rightarrow> Panics
           | Returns (s, Some err) \<Rightarrow> Returns (Some err, t, w)
           | Returns (s, None) \<Rightarrow>
               let w = record_event (NetSend (Fprintf_plain s)) w;
                   (status, err) = net_status env (history w);
                   w = record_event NetStatus w
               in Returns (if err \<noteq> None then err
                           else if \<not> Contains status ''200'' then Some (ErrMsg (''Proxy response was: '' @ status))
                           else None, t, w)))"

subsection \<open>The handshake\<close>

datatype proto = ProtoTCP | ProtoHTTP | ProtoHTTPS

definition map_port :: "port_map list \<Rightarrow> 16 word \<Rightarrow> 16 word" where
  "map_port ps dstPort =
     (case List.find (\<lambda>p. From p = dstPort) ps of Some p \<Rightarrow> To p | None \<Rightarrow> dstPort)"

text \<open>The option at the end of a rule's proxy list, \<open> last\<close> or \<open> deny\<close>.\<close>

definition split_option :: "string \<Rightarrow> string \<times> string" where
  "split_option px =
     (if 5 \<le> length px \<and> px ! (length px - 5) = CHR '' ''
      then (take (length px - 5) px, drop (length px - 4) px) else (px, ''''))"

fun proxy_loop ::
  "net_env \<Rightarrow> string list \<Rightarrow> world \<Rightarrow> (string \<times> string \<times> 16 word) option \<times> world" where
  "proxy_loop env [] w = (None, w)"
| "proxy_loop env (hostProxy # rest) w =
     (case getProxyServer env (TrimSpace hostProxy) w of
        (Inl err, w) \<Rightarrow> proxy_loop env rest w
      | (Inr px, w) \<Rightarrow> (Some px, w))"

text \<open>The proxy and the target policy in force after the rule's own proxies were tried.\<close>

definition choose_proxy ::
  "net_env \<Rightarrow> settings \<Rightarrow> conf_host \<Rightarrow> string \<Rightarrow> world
     \<Rightarrow> (go_err + string \<times> string \<times> string \<times> 16 word) \<times> world" where
  "choose_proxy env cfg host confTarget w =
     (if h_Proxy host = '''' then (Inr (confTarget, ProxyScheme cfg, ProxyServer cfg, ProxyPort cfg), w)
      else
        let (pxs, opName) = split_option (h_Proxy host)
        in case proxy_loop env (Split pxs '','') w of
             (Some (scheme, server, port), w) \<Rightarrow> (Inr (''remote'', scheme, server, port), w)
           | (None, w) \<Rightarrow>
               if opName = ''last'' then (Inr (confTarget, ProxyScheme cfg, '''', ProxyPort cfg), w)
               else if opName = ''deny'' then (Inl (ErrMsg (''all proxy dail fail '' @ pxs)), w)
               else (Inr (confTarget, ProxyScheme cfg, ProxyServer cfg, ProxyPort cfg), w))"

text \<open>\<open>auto\<close>: a direct connection within a second, remembered as failed when it fails.\<close>

definition auto_dial ::
  "net_env \<Rightarrow> DialState \<Rightarrow> string \<Rightarrow> string \<Rightarrow> 16 word \<Rightarrow> tunnel \<times> world
     \<Rightarrow> bool \<times> tunnel \<times> world" where
  "auto_dial env st dstName dstIP dstPort tw =
     (if st \<noteq> StateFail then
        let ((network, connAddr), tw) = buildAddress env dstName dstIP dstPort True tw;
            (ok, t, w) = (if connAddr \<noteq> '''' then
                            (case dail env network connAddr 1 tw of (err, tw) \<Rightarrow> (err = None, tw))
                          else (False, tw))
        in if ok then (True, t\<lparr>curState := StNew\<rparr>, w)
           else (False, t,
             if dstName \<noteq> '''' \<and> dstIP \<noteq> '''' then
               w\<lparr>dns_cache := Cache_Store (net_clock env (history w)) dstName dstIP StateFail
                  (seconds 3600) (dns_cache w)\<rparr>
             else w)
      else (False, tw))"

definition remote_dial ::
  "net_env \<Rightarrow> router \<Rightarrow> proto \<Rightarrow> string \<Rightarrow> string \<Rightarrow> 16 word \<Rightarrow> string \<Rightarrow> string \<Rightarrow> 16 word \<Rightarrow> string
     \<Rightarrow> tunnel \<times> world \<Rightarrow> (go_err option \<times> tunnel \<times> world) outcome" where
  "remote_dial env r pr scheme server port dstName dstIP dstPort confDNS tw =
     (let ((targetNet, targetAddr), tw) =
            (if confDNS = ''remote''
             then buildAddress env (if dstName = '''' then dstIP else dstName) '''' dstPort False tw
             else buildAddress env '''' dstIP dstPort False tw)
      in if targetAddr = '''' \<or> hd targetAddr = CHR '':'' then
           Returns (Some (ErrMsg ''target host is empty''), tw)
         else
           let ((network, connAddr), tw) = buildAddress env server '''' port True tw
           in if scheme = ''socks5'' then Returns (socks5_connect env network connAddr targetNet targetAddr tw)
              else if scheme = ''tunnel'' then httpConnect env r network connAddr targetAddr True tw
              else if scheme = ''http'' then
                (if pr = ProtoHTTP then Returns (dail env network connAddr 0 tw)
                 else httpConnect env r network connAddr targetAddr False tw)
              else Returns (Some (ErrMsg (''proxy scheme '' @ scheme @ '' is error'')), tw))"

definition direct_dial ::
  "net_env \<Rightarrow> string \<Rightarrow> string \<Rightarrow> 16 word \<Rightarrow> tunnel \<times> world \<Rightarrow> go_err option \<times> tunnel \<times> world" where
  "direct_dial env dstName dstIP dstPort tw =
     (let ((network, connAddr), tw) = buildAddress env dstName dstIP dstPort True tw
      in if connAddr \<noteq> '''' then dail env network connAddr 0 tw
         else (Some (ErrMsg ''dstName && dstIP is empty''), tw))"

text \<open>The last statements: a successful handshake leaves the tunnel in state new.\<close>

definition set_new :: "go_err option \<times> tunnel \<times> world \<Rightarrow> go_err option \<times> tunnel \<times> world" where
  "set_new x = (case x of (err, t, w) \<Rightarrow> (err, if err = None then t\<lparr>curState := StNew\<rparr> else t, w))"

fun map_outcome :: "('a \<Rightarrow> 'b) \<Rightarrow> 'a outcome \<Rightarrow> 'b outcome" where
  "map_outcome f Panics = Panics"
| "map_outcome f (Returns x) = Returns (f x)"

definition conf_target :: "router \<Rightarrow> proto \<Rightarrow> conf_host \<Rightarrow> string" where
  "conf_target r pr host =
     (if pr = ProtoTCP then getString (h_Target host) (d_TCPTarget (r_Default r)) ''auto''
      else getString (h_Target host) (d_Target (r_Default r)) ''auto'')"

definition conf_dns :: "router \<Rightarrow> conf_host \<Rightarrow> string" where
  "conf_dns r host = getString (h_DNS host) (d_DNS (r_Default r)) ''local''"

text \<open>The address to connect to: the rule's, or the resolved one, or the given one.\<close>

definition resolve_dst ::
  "net_env \<Rightarrow> router \<Rightarrow> conf_host \<Rightarrow> string \<Rightarrow> string \<Rightarrow> world \<Rightarrow> string \<times> DialState \<times> world" where
  "resolve_dst env r host dstName dstIP w =
     (if h_IP host \<noteq> '''' then (h_IP host, StateNew, w)
      else if dstName \<noteq> '''' \<and> conf_dns r host \<noteq> ''remote'' then lookup env dstName dstIP w
      else (dstIP, StateNew, w))"

text \<open>From the choice of the proxy on.\<close>

definition connect_via ::
  "net_env \<Rightarrow> router \<Rightarrow> proto \<Rightarrow> string \<times> string \<times> string \<times> 16 word \<Rightarrow> DialState \<Rightarrow> string \<Rightarrow> string \<Rightarrow> 16 word \<Rightarrow> string
     \<Rightarrow> tunnel \<times> world \<Rightarrow> (go_err option \<times> tunnel \<times> world) outcome" where
  "connect_via env r pr route st dstName dstIP dstPort confDNS tw =
     (case route of (confTarget, scheme, server, port) \<Rightarrow>
        if server \<noteq> '''' \<and> port > 0 \<and> confTarget \<noteq> ''local'' then
          (if confTarget = ''auto'' then
             (case auto_dial env st dstName dstIP dstPort tw of
                (True, t, w) \<Rightarrow> Returns (None, t, w)
              | (False, t, w) \<Rightarrow>
                  map_outcome set_new
                    (remote_dial env r pr scheme server port dstName dstIP dstPort ''remote'' (t, w)))
           else map_outcome set_new
                  (remote_dial env r pr scheme server port dstName dstIP dstPort confDNS tw))
        else Returns (set_new (direct_dial env dstName dstIP dstPort tw)))"

definition handshake ::
  "net_env \<Rightarrow> settings \<Rightarrow> router \<Rightarrow> proto \<Rightarrow> string \<Rightarrow> string \<Rightarrow> 16 word \<Rightarrow> tunnel \<times> world
     \<Rightarrow> (go_err option \<times> tunnel \<times> world) outcome" where
  "handshake env cfg r pr dstName dstIP dstPort = (\<lambda>(t, w).
     let host = findHost r dstName dstIP;
         (ip, ok) = isAllowed r t (h_AllowIP host)
     in if \<not> ok then Returns (Some (ErrMsg (ip @ '' is not allowed'')), t, w)
        else
          let confTarget = conf_target r pr host;
              confDNS = conf_dns r host;
              (dstIP, st, w) = resolve_dst env r host dstName dstIP w;
              dstPort = map_port (h_Port host) dstPort
          in if confTarget = ''deny'' then
               Returns (Some (ErrMsg (''deny visit '' @ dstName @ '' ('' @ dstIP @ '')'')), t, w)
             else case choose_proxy env cfg host confTarget w of
                 (Inl err, w) \<Rightarrow> Returns (Some err, t, w)
               | (Inr route, w) \<Rightarrow> connect_via env r pr route st dstName dstIP dstPort confDNS (t, w))"

subsection \<open>Lemmas on histories\<close>

text \<open>\<open>extends P w w'\<close>: the history has grown by events that satisfy \<open>P\<close>.\<close>

definition extends :: "(net_event \<Rightarrow> bool) \<Rightarrow> world \<Rightarrow> world \<Rightarrow> bool" where
  "extends P w w' \<longleftrightarrow> (\<exists>es. history w' = history w @ es \<and> list_all P es)"

lemma extends_refl [simp]: "extends P w w"
  by (simp add: extends_def)

lemma extends_trans: "extends P a b \<Longrightarrow> extends P b c \<Longrightarrow> extends P a c"
  by (auto simp: extends_def)

lemma extends_mono: "extends P a b \<Longrightarrow> (\<And>e. P e \<Longrightarrow> Q e) \<Longrightarrow> extends Q a b"
  by (auto simp: extends_def list_all_iff)

lemma extends_same: "history b = history c \<Longrightarrow> extends P a b = extends P a c"
  by (simp add: extends_def)

lemma extends_event [simp]: "P e \<Longrightarrow> history w' = history w @ [e] \<Longrightarrow> extends P w w'"
  by (simp add: extends_def)

lemma history_simps [simp]:
  "history (w\<lparr>dns_cache := c\<rparr>) = history w" "history (w\<lparr>inbound := m\<rparr>) = history w"
  "history (w\<lparr>outbound := m'\<rparr>) = history w" "history (record_event ev w) = history w @ [ev]"
  "dns_cache (record_event ev w) = dns_cache w"
  by (simp_all add: record_event_def)

text \<open>What an operation leaves alone in the tunnel and the world.\<close>

lemma registerCounter_keeps:
  assumes "registerCounter env n i p (t, w) = (t', w')"
  shows "history w' = history w \<and> dns_cache w' = dns_cache w \<and> inboundIP t' = inboundIP t
    \<and> tun_conn t' = tun_conn t \<and> curState t' = curState t
    \<and> inbountCounter t' \<noteq> None \<and> outbountCounter t' \<noteq> None"
  using assms by (auto simp: registerCounter_def Let_def split: prod.splits)

lemma buildAddress_keeps:
  assumes "buildAddress env n i p c (t, w) = ((net, addr), t', w')"
  shows "(net, addr) = address_of n i p \<and> history w' = history w \<and> dns_cache w' = dns_cache w
    \<and> inboundIP t' = inboundIP t \<and> tun_conn t' = tun_conn t
    \<and> (c \<and> addr \<noteq> '''' \<longrightarrow> inbountCounter t' \<noteq> None \<and> outbountCounter t' \<noteq> None)
    \<and> (\<not> c \<longrightarrow> t' = t \<and> w' = w)"
  using assms registerCounter_keeps [of env n i p t w t' w']
  by (auto simp: buildAddress_def split: prod.splits if_splits)

lemma dail_keeps:
  assumes "dail env net addr s (t, w) = (err, t', w')"
  shows "history w' = history w @ [NetDial net addr (if s > 0 then seconds s else seconds 5)]
    \<and> dns_cache w' = dns_cache w
    \<and> t' = (if err = None then t\<lparr>tun_conn := Some (net, addr)\<rparr> else t)"
  using assms by (auto simp: dail_def Let_def)

lemma lookup_extends:
  "lookup env n i w = (ip, st, w') \<Longrightarrow> extends (\<lambda>e. e = NetLookup n) w w'"
  by (auto simp: lookup_def Let_def extends_def split: if_splits prod.splits list.splits)

definition is_probe :: "net_event \<Rightarrow> bool" where
  "is_probe e \<longleftrightarrow> (\<exists>addr. e = NetDial ''tcp'' addr 300000000)"

lemma getProxyServer_extends:
  "getProxyServer env px w = (r, w') \<Longrightarrow> extends is_probe w w' \<and> dns_cache w' = dns_cache w"
  by (auto simp: getProxyServer_def Let_def is_probe_def extends_def
      split: if_splits prod.splits option.splits)

lemma proxy_loop_extends:
  "proxy_loop env pxs w = (r, w') \<Longrightarrow> extends is_probe w w' \<and> dns_cache w' = dns_cache w"
proof (induction env pxs w rule: proxy_loop.induct)
  case (1 env w)
  then show ?case by simp
next
  case (2 env px rest w)
  obtain q w1 where 1: "getProxyServer env (TrimSpace px) w = (q, w1)" by (metis surj_pair)
  show ?case
  proof (cases q)
    case (Inl e)
    with 1 "2.prems" have "proxy_loop env rest w1 = (r, w')" by simp
    with "2.IH"(1) [OF 1 [symmetric] Inl] getProxyServer_extends [OF 1] show ?thesis
      by (auto intro: extends_trans)
  next
    case (Inr p)
    with 1 "2.prems" getProxyServer_extends [OF 1] show ?thesis by auto
  qed
qed

lemma choose_proxy_extends:
  "choose_proxy env cfg host ct w = (r, w') \<Longrightarrow>
   extends is_probe w w' \<and> dns_cache w' = dns_cache w \<and> (h_Proxy host = '''' \<longrightarrow> w' = w)"
  using proxy_loop_extends
  by (fastforce simp: choose_proxy_def split: if_splits prod.splits option.splits)

lemma resolve_dst_extends:
  "resolve_dst env r host n i w = (ip, st, w') \<Longrightarrow>
   extends (\<lambda>e. e = NetLookup n \<and> n \<noteq> '''' \<and> conf_dns r host \<noteq> ''remote'') w w'"
  by (auto simp: resolve_dst_def split: if_splits dest!: lookup_extends elim: extends_mono)

text \<open>Events of a connection through the proxy at an address, and to the target itself.\<close>

fun proxy_event :: "string \<Rightarrow> net_event \<Rightarrow> bool" where
  "proxy_event addr (NetDial n a s) = (a = addr)"
| "proxy_event addr (NetSocks n a tn ta) = (a = addr)"
| "proxy_event addr (NetLookup h) = False"
| "proxy_event addr _ = True"

definition proxy_addr :: "string \<Rightarrow> 16 word \<Rightarrow> string" where
  "proxy_addr server port = server @ '':'' @ port_str port"

lemma address_of_name: "n \<noteq> '''' \<Longrightarrow> address_of n '''' p = (''tcp'', proxy_addr n p)"
  by (simp add: address_of_def proxy_addr_def)

definition connected :: "tunnel \<Rightarrow> bool" where
  "connected t \<longleftrightarrow> tun_conn t \<noteq> None \<and> inbountCounter t \<noteq> None \<and> outbountCounter t \<noteq> None"

lemma httpConnect_keeps:
  assumes "httpConnect env r net addr tgt enc (t, w) = Returns (err, t', w')"
  shows "extends (proxy_event addr) w w' \<and> dns_cache w' = dns_cache w
    \<and> inbountCounter t' = inbountCounter t \<and> outbountCounter t' = outbountCounter t
    \<and> (err = None \<longrightarrow> tun_conn t' = Some (net, addr))"
proof -
  obtain e t1 w1 where 1: "dail env net addr 0 (t, w) = (e, t1, w1)" by (metis prod_cases3)
  note k = dail_keeps [OF 1]
  show ?thesis
    using assms 1 k
    by (auto simp: httpConnect_def Let_def extends_def
        split: option.splits outcome.splits prod.splits if_splits)
qed

lemma socks5_connect_keeps:
  assumes "socks5_connect env net addr tn ta (t, w) = (err, t', w')"
  shows "extends (proxy_event addr) w w' \<and> dns_cache w' = dns_cache w
    \<and> inbountCounter t' = inbountCounter t \<and> outbountCounter t' = outbountCounter t
    \<and> (err = None \<longrightarrow> tun_conn t' = Some (net, addr))"
  using assms by (auto simp: socks5_connect_def Let_def extends_def)

lemma dail_proxy_keeps:
  assumes "dail env net addr s (t, w) = (err, t', w')"
  shows "extends (proxy_event addr) w w' \<and> dns_cache w' = dns_cache w
    \<and> inbountCounter t' = inbountCounter t \<and> outbountCounter t' = outbountCounter t
    \<and> (err = None \<longrightarrow> tun_conn t' = Some (net, addr))"
  using dail_keeps [OF assms] by (auto simp: extends_def)

lemma remote_dial_keeps:
  assumes "server \<noteq> ''''"
    and "remote_dial env r pr scheme server port n i p dns (t, w) = Returns (err, t', w')"
  shows "extends (proxy_event (proxy_addr server port)) w w' \<and> dns_cache w' = dns_cache w
    \<and> (err = None \<longrightarrow> connected t')"
proof -
  define tgt where "tgt = (if dns = ''remote'' then address_of (if n = '''' then i else n) '''' p
    else address_of '''' i p)"
  obtain t1 w1 where "registerCounter env server '''' port (t, w) = (t1, w1)" by (metis surj_pair)
  then have 1: "buildAddress env server '''' port True (t, w) = ((''tcp'', proxy_addr server port), t1, w1)"
    using address_of_name [OF assms(1), of port] by (simp add: buildAddress_def proxy_addr_def)
  note b = buildAddress_keeps [OF 1]
  have b1: "buildAddress env a c p False (t, w) = (address_of a c p, t, w)" for a c
    by (simp add: buildAddress_def split: prod.splits)
  have ne: "proxy_addr server port \<noteq> ''''" by (simp add: proxy_addr_def)
  note r = assms(2) [unfolded remote_dial_def b1 Let_def]
  have e: "extends P w1 x = extends P w x" for P x using b by (simp add: extends_def)
  have e0: "extends P w w1" for P using b by (simp add: extends_def)
  show ?thesis
    using r 1 b ne e e0 httpConnect_keeps [of env r _ _ _ _ t1 w1] socks5_connect_keeps [of env _ _ _ _ t1 w1]
      dail_proxy_keeps [of env _ _ _ t1 w1]
    by (auto simp: connected_def split: if_splits prod.splits) 
qed

lemma auto_dial_keeps:
  assumes "auto_dial env st n i p (t, w) = (ok, t', w')"
  shows "extends (\<lambda>e. st \<noteq> StateFail \<and> snd (address_of n i p) \<noteq> '''' \<and>
      (\<exists>s. e = NetDial (fst (address_of n i p)) (snd (address_of n i p)) s)) w w'
    \<and> (ok \<longrightarrow> connected t' \<and> curState t' = StNew) \<and> inboundIP t' = inboundIP t"
proof (cases "st = StateFail")
  case True
  then show ?thesis using assms by (simp add: auto_dial_def)
next
  case False
  obtain net addr t1 w1 where 1: "buildAddress env n i p True (t, w) = ((net, addr), t1, w1)"
    by (metis surj_pair)
  note b = buildAddress_keeps [OF 1]
  show ?thesis
  proof (cases "addr = ''''")
    case True
    then show ?thesis using assms False 1 b by (auto simp: auto_dial_def extends_def split: if_splits)
  next
    case ne: False
    obtain e t2 w2 where 2: "dail env net addr 1 (t1, w1) = (e, t2, w2)" by (metis prod_cases3)
    note d = dail_keeps [OF 2]
    have a: "net = fst (address_of n i p)" "addr = snd (address_of n i p)"
      using b by (auto simp: prod_eq_iff)
    have r: "(ok, t', w') = (if e = None then (True, t2\<lparr>curState := StNew\<rparr>, w2)
        else (False, t2, if n \<noteq> '''' \<and> i \<noteq> '''' then
          w2\<lparr>dns_cache := Cache_Store (net_clock env (history w2)) n i StateFail (seconds 3600) (dns_cache w2)\<rparr>
          else w2))"
      using assms False 1 ne 2 by (auto simp: auto_dial_def Let_def)
    have "history w1 = history w" "inboundIP t1 = inboundIP t" "inbountCounter t1 \<noteq> None" "outbountCounter t1 \<noteq> None"
      using b ne by simp_all
    note b' = this
    have "extends (\<lambda>e. \<exists>s. e = NetDial net addr s) w w'"
      using r b' d by (auto simp: extends_def split: if_splits)
    moreover have "ok \<longrightarrow> connected t' \<and> curState t' = StNew"
      using r b' d by (auto simp: connected_def split: if_splits)
    moreover have "inboundIP t' = inboundIP t"
      using r b' d by (auto split: if_splits)
    ultimately show ?thesis using False ne by (auto simp: a elim: extends_mono)
  qed
qed

lemma direct_dial_keeps:
  assumes "direct_dial env n i p (t, w) = (err, t', w')"
  shows "extends (\<lambda>e. e = NetDial (fst (address_of n i p)) (snd (address_of n i p)) (seconds 5)) w w'
    \<and> dns_cache w' = dns_cache w \<and> (err = None \<longrightarrow> connected t')"
proof -
  obtain net addr t1 w1 where 1: "buildAddress env n i p True (t, w) = ((net, addr), t1, w1)"
    by (metis surj_pair)
  note b = buildAddress_keeps [OF 1]
  show ?thesis
  proof (cases "addr = ''''")
    case True
    then show ?thesis using assms 1 b by (auto simp: direct_dial_def extends_def split: if_splits)
  next
    case ne: False
    obtain e t2 w2 where 2: "dail env net addr 0 (t1, w1) = (e, t2, w2)" by (metis prod_cases3)
    note d = dail_keeps [OF 2]
    have r: "(err, t', w') = (e, t2, w2)" using assms 1 ne 2 by (simp add: direct_dial_def)
    have a: "address_of n i p = (net, addr)" using b by simp
    have "history w1 = history w" "dns_cache w1 = dns_cache w" "inbountCounter t1 \<noteq> None" "outbountCounter t1 \<noteq> None"
      using b ne by simp_all
    then show ?thesis
      using r d by (auto simp: a extends_def connected_def)
  qed
qed

lemma set_new_simps [simp]:
  "set_new (err, t, w) = (err, if err = None then t\<lparr>curState := StNew\<rparr> else t, w)"
  by (simp add: set_new_def)

lemma connected_state [simp]: "connected (t\<lparr>curState := s\<rparr>) = connected t"
  by (simp add: connected_def)

text \<open>What a connection may do to the network, by the policy in force.\<close>

definition route_event :: "string \<times> string \<times> string \<times> 16 word \<Rightarrow> DialState \<Rightarrow> string \<times> string \<Rightarrow> net_event \<Rightarrow> bool" where
  "route_event route st dst e =
     (case route of (confTarget, scheme, server, port) \<Rightarrow>
        if server \<noteq> '''' \<and> port > 0 \<and> confTarget \<noteq> ''local'' then
          proxy_event (proxy_addr server port) e
          \<or> (confTarget = ''auto'' \<and> st \<noteq> StateFail \<and> snd dst \<noteq> '''' \<and> (\<exists>s. e = NetDial (fst dst) (snd dst) s))
        else e = NetDial (fst dst) (snd dst) (seconds 5))"

lemma connect_via_keeps:
  assumes "connect_via env r pr route st n i p dns (t, w) = Returns (err, t', w')"
  shows "extends (route_event route st (address_of n i p)) w w'
    \<and> (err = None \<longrightarrow> connected t' \<and> curState t' = StNew)"
proof -
  obtain ct scheme server port where route: "route = (ct, scheme, server, port)" by (metis prod_cases4)
  show ?thesis
  proof (cases "server \<noteq> '''' \<and> port > 0 \<and> ct \<noteq> ''local''")
    case False
    obtain e t1 w1 where d: "direct_dial env n i p (t, w) = (e, t1, w1)" by (metis prod_cases3)
    have "(err, t', w') = set_new (e, t1, w1)"
      using assms False route d by (auto simp: connect_via_def split: if_splits)
    with direct_dial_keeps [OF d] False show ?thesis
      by (auto simp: route route_event_def elim!: extends_mono split: if_splits)
  next
    case px: True
    have remote: "extends (route_event route st (address_of n i p)) w1 w' \<and> (err = None \<longrightarrow> connected t' \<and> curState t' = StNew)"
      if "map_outcome set_new (remote_dial env r pr scheme server port n i p dns' (t1, w1)) = Returns (err, t', w')"
      for dns' t1 w1
    proof (cases "remote_dial env r pr scheme server port n i p dns' (t1, w1)")
      case Panics
      with that show ?thesis by simp
    next
      case (Returns x)
      obtain e t2 w2 where x: "x = (e, t2, w2)" by (metis prod_cases3)
      from that Returns x have "(err, t', w') = set_new (e, t2, w2)" by (auto split: if_splits)
      with remote_dial_keeps [of server env r pr scheme port n i p dns' t1 w1 e t2 w2] px Returns x
      show ?thesis by (auto simp: route route_event_def elim!: extends_mono split: if_splits)
    qed
    show ?thesis
    proof (cases "ct = ''auto''")
      case False
      with assms px route have "map_outcome set_new (remote_dial env r pr scheme server port n i p dns (t, w)) = Returns (err, t', w')"
        by (simp add: connect_via_def)
      then show ?thesis by (rule remote)
    next
      case True
      obtain ok t1 w1 where a: "auto_dial env st n i p (t, w) = (ok, t1, w1)" by (metis prod_cases3)
      note k = auto_dial_keeps [OF a]
      have e1: "extends (route_event route st (address_of n i p)) w w1"
        using k px True by (auto simp: route route_event_def elim!: extends_mono)
      show ?thesis
      proof (cases ok)
        case True
        with assms px route a \<open>ct = ''auto''\<close> k e1 show ?thesis by (auto simp: connect_via_def)
      next
        case False
        with assms px route a True have "map_outcome set_new (remote_dial env r pr scheme server port n i p ''remote'' (t1, w1)) = Returns (err, t', w')"
          by (simp add: connect_via_def)
        from remote [OF this] e1 show ?thesis by (auto intro: extends_trans)
      qed
    qed
  qed
qed

lemma handshake_cases:
  assumes "handshake env cfg r pr n i p (t, w) = Returns (err, t', w')"
    and "host = findHost r n i"
  shows "(\<not> snd (isAllowed r t (h_AllowIP host)) \<and> err \<noteq> None \<and> t' = t \<and> w' = w) \<or>
    snd (isAllowed r t (h_AllowIP host)) \<and>
    (\<exists>ip st w1. resolve_dst env r host n i w = (ip, st, w1) \<and>
      (conf_target r pr host = ''deny'' \<and> err \<noteq> None \<and> t' = t \<and> w' = w1 \<or>
       conf_target r pr host \<noteq> ''deny'' \<and>
       (\<exists>q w2. choose_proxy env cfg host (conf_target r pr host) w1 = (q, w2) \<and>
         (case q of
            Inl e \<Rightarrow> err = Some e \<and> t' = t \<and> w' = w2
          | Inr route \<Rightarrow> connect_via env r pr route st n ip (map_port (h_Port host) p) (conf_dns r host) (t, w2)
              = Returns (err, t', w')))))"
proof (cases "snd (isAllowed r t (h_AllowIP host))")
  case False
  then show ?thesis
    using assms by (cases "isAllowed r t (h_AllowIP host)") (auto simp: handshake_def Let_def)
next
  case True
  then obtain a where a: "isAllowed r t (h_AllowIP host) = (a, True)"
    by (cases "isAllowed r t (h_AllowIP host)") auto
  obtain ip st w1 where 1: "resolve_dst env r host n i w = (ip, st, w1)" by (metis prod_cases3)
  obtain q w2 where 2: "choose_proxy env cfg host (conf_target r pr host) w1 = (q, w2)" by (metis surj_pair)
  show ?thesis
  proof (cases "conf_target r pr host = ''deny''")
    case d: True
    then show ?thesis using assms True a 1 by (auto simp: handshake_def Let_def)
  next
    case False
    then show ?thesis using assms True a 1 2
      by (cases q) (auto simp: handshake_def Let_def)
  qed
qed

text \<open>A rule without proxies of its own: the global proxy, or none.\<close>

lemma handshake_plain:
  assumes "handshake env cfg r pr n i p (t, w) = Returns (err, t', w')"
    and "host = findHost r n i" and "h_Proxy host = ''''" and "conf_target r pr host \<noteq> ''deny''"
  shows "w' = w \<or>
    (\<exists>ip st w1. resolve_dst env r host n i w = (ip, st, w1) \<and>
      connect_via env r pr (conf_target r pr host, ProxyScheme cfg, ProxyServer cfg, ProxyPort cfg) st n ip
        (map_port (h_Port host) p) (conf_dns r host) (t, w1) = Returns (err, t', w'))"
proof -
  have "choose_proxy env cfg host ct w1 = (Inr (ct, ProxyScheme cfg, ProxyServer cfg, ProxyPort cfg), w1)" for ct w1
    using assms(3) by (simp add: choose_proxy_def)
  then show ?thesis using handshake_cases [OF assms(1,2)] assms(4) by auto
qed

text \<open>What resolving the destination may ask the network.\<close>

definition lookup_event :: "router \<Rightarrow> conf_host \<Rightarrow> string \<Rightarrow> net_event \<Rightarrow> bool" where
  "lookup_event r host n e \<longleftrightarrow> e = NetLookup n \<and> n \<noteq> '''' \<and> conf_dns r host \<noteq> ''remote''"

lemma resolve_dst_event: "resolve_dst env r host n i w = (ip, st, w') \<Longrightarrow> extends (lookup_event r host n) w w'"
  by (drule resolve_dst_extends) (erule extends_mono, simp add: lookup_event_def)

subsection \<open>Properties\<close>

text \<open>
  A handshake that succeeds was for an allowed client and a destination that is not
  denied; it leaves a connection, both traffic counters and the state new, so the copying
  that follows never uses a nil connection or counter.
\<close>

theorem handshake_success:
  assumes "handshake env cfg r pr n i p (t, w) = Returns (None, t', w')"
  shows "connected t' \<and> curState t' = StNew
    \<and> snd (isAllowed r t (h_AllowIP (findHost r n i))) \<and> conf_target r pr (findHost r n i) \<noteq> ''deny''"
  using handshake_cases [OF assms refl] connect_via_keeps
  by (fastforce split: sum.splits)

text \<open>
  A client that is not allowed, or a denied destination, gets an error: the tunnel is
  unchanged, nothing is dialled, and a client that is not allowed does not even cause a
  name lookup.
\<close>

theorem handshake_refusal:
  assumes "\<not> snd (isAllowed r t (h_AllowIP (findHost r n i))) \<or> conf_target r pr (findHost r n i) = ''deny''"
  shows "\<exists>e w'. handshake env cfg r pr n i p (t, w) = Returns (Some e, t, w')
    \<and> extends (lookup_event r (findHost r n i) n) w w'
    \<and> (\<not> snd (isAllowed r t (h_AllowIP (findHost r n i))) \<longrightarrow> w' = w)"
proof -
  let ?h = "findHost r n i"
  obtain a ok where a: "isAllowed r t (h_AllowIP ?h) = (a, ok)" by (metis surj_pair)
  obtain ip st w1 where 1: "resolve_dst env r ?h n i w = (ip, st, w1)" by (metis prod_cases3)
  show ?thesis
    using assms a 1 resolve_dst_event [OF 1] by (auto simp: handshake_def Let_def)
qed


text \<open>
  With the policy \<open>local\<close> and no proxy of the rule's own, the only thing dialled is the
  destination itself, at the mapped port.
\<close>

theorem handshake_local_only:
  assumes "handshake env cfg r pr n i p (t, w) = Returns (err, t', w')"
    and "conf_target r pr (findHost r n i) = ''local''" and "h_Proxy (findHost r n i) = ''''"
  shows "extends (\<lambda>e. lookup_event r (findHost r n i) n e
      \<or> (\<exists>ip. ip = fst (resolve_dst env r (findHost r n i) n i w)
           \<and> e = NetDial (fst (address_of n ip (map_port (h_Port (findHost r n i)) p)))
                         (snd (address_of n ip (map_port (h_Port (findHost r n i)) p))) (seconds 5))) w w'"
proof -
  let ?h = "findHost r n i"
  have nd: "conf_target r pr ?h \<noteq> ''deny''" using assms(2) by simp
  from handshake_plain [OF assms(1) refl assms(3) nd] show ?thesis
  proof (elim disjE exE conjE)
    fix ip st w1
    assume res: "resolve_dst env r ?h n i w = (ip, st, w1)"
      and "connect_via env r pr (conf_target r pr ?h, ProxyScheme cfg, ProxyServer cfg, ProxyPort cfg) st n ip
        (map_port (h_Port ?h) p) (conf_dns r ?h) (t, w1) = Returns (err, t', w')"
    then have "extends (route_event (''local'', ProxyScheme cfg, ProxyServer cfg, ProxyPort cfg) st
        (address_of n ip (map_port (h_Port ?h) p))) w1 w'"
      using connect_via_keeps assms(2) by fastforce
    then have "extends (\<lambda>e. e = NetDial (fst (address_of n ip (map_port (h_Port ?h) p)))
        (snd (address_of n ip (map_port (h_Port ?h) p))) (seconds 5)) w1 w'"
      by (rule extends_mono) (simp add: route_event_def)
    moreover have "ip = fst (resolve_dst env r ?h n i w)" using res by simp
    ultimately show ?thesis
      using resolve_dst_event [OF res] by (blast intro: extends_trans extends_mono)
  qed simp_all
qed

subsection \<open>The memory of failed addresses\<close>

lemma lookup_cache_inv:
  assumes "cache_inv (dns_cache w)" and "lookup env n i w = (ip, st, w')"
  shows "cache_inv (dns_cache w')"
proof -
  note inv = dns.ok_look [OF assms(1), of "net_clock env (history w)" n]
  from assms(2) inv dns.ok_put [OF inv] assms(1) show ?thesis
    by (auto simp: lookup_def Let_def split: if_splits prod.splits list.splits)
qed

lemma resolve_dst_cache_inv:
  "cache_inv (dns_cache w) \<Longrightarrow> resolve_dst env r host n i w = (ip, st, w') \<Longrightarrow> cache_inv (dns_cache w')"
  by (auto simp: resolve_dst_def split: if_splits dest: lookup_cache_inv)

text \<open>A failing direct connection leaves the address marked as failed for an hour.\<close>

lemma auto_dial_failed:
  assumes "auto_dial env st n ip p (t, w) = (ok, t', w')" and "st \<noteq> StateFail"
    and "n \<noteq> ''''" and "ip \<noteq> ''''"
    and "\<forall>h. net_dial env h (fst (address_of n ip p)) (snd (address_of n ip p)) (seconds 1) \<noteq> None"
  shows "\<not> ok \<and> (\<exists>now. dns_cache w' = Cache_Store (net_clock env now) n ip StateFail (seconds 3600) (dns_cache w))"
proof -
  obtain net addr t1 w1 where 1: "buildAddress env n ip p True (t, w) = ((net, addr), t1, w1)"
    by (metis surj_pair)
  note b = buildAddress_keeps [OF 1]
  have a: "address_of n ip p = (net, addr)" using b by simp
  then have ne: "addr \<noteq> ''''" using assms(4) by (auto simp: address_of_def split: if_splits)
  obtain e t2 w2 where 2: "dail env net addr 1 (t1, w1) = (e, t2, w2)" by (metis prod_cases3)
  have "e \<noteq> None" using 2 assms(5) by (auto simp: dail_def Let_def a)
  then have "ok = False" "w' = w2\<lparr>dns_cache := Cache_Store (net_clock env (history w2)) n ip StateFail (seconds 3600) (dns_cache w2)\<rparr>"
    using assms(1-4) 1 2 ne by (auto simp: auto_dial_def Let_def)
  moreover have "dns_cache w2 = dns_cache w" using dail_keeps [OF 2] b by simp
  ultimately show ?thesis by auto
qed

lemma lookup_hit:
  assumes "fst (Cache_Lookup (net_clock env (history w)) n (dns_cache w)) = ip"
    and "fst (snd (Cache_Lookup (net_clock env (history w)) n (dns_cache w))) = st"
    and "ip \<noteq> ''''" and "n \<noteq> ''''"
  shows "\<exists>c. lookup env n i w = (ip, st, w\<lparr>dns_cache := c\<rparr>)"
  using assms by (auto simp: lookup_def Let_def split: prod.splits)

text \<open>
  C29: in \<open>auto\<close> mode a direct connection that fails is remembered: for the next hour a
  handshake for the same name goes straight to the proxy, without looking the name up and
  without dialling the address again.
\<close>

theorem auto_failure_remembered:
  assumes "h_IP (findHost r n i) = ''''" and "h_Proxy (findHost r n i) = ''''"
    and "conf_dns r (findHost r n i) \<noteq> ''remote''" and "conf_target r pr (findHost r n i) = ''auto''"
    and "ProxyServer cfg \<noteq> ''''" and "ProxyPort cfg > 0" and "n \<noteq> ''''"
    and "cache_inv (dns_cache w)" and "snd (isAllowed r t (h_AllowIP (findHost r n i)))"
    and clock: "\<forall>xs ys. net_clock env ys < net_clock env xs + seconds 3600"
    and first: "lookup env n i w = (ip, st, wl)" "ip \<noteq> ''''" "st \<noteq> StateFail"
    and dead: "\<forall>h net addr. net_dial env h net addr (seconds 1) \<noteq> None"
    and run1: "handshake env cfg r pr n i p (t, w) = Returns (e1, t1, w1)"
    and run2: "handshake env cfg r pr n i p (t2, w1) = Returns (e2, t2', w2)"
  shows "extends (proxy_event (proxy_addr (ProxyServer cfg) (ProxyPort cfg))) w1 w2"
proof -
  let ?h = "findHost r n i"
  let ?route = "(''auto'', ProxyScheme cfg, ProxyServer cfg, ProxyPort cfg)"
  have nd: "conf_target r pr ?h \<noteq> ''deny''" using assms(4) by simp
  have res: "resolve_dst env r ?h n i x = lookup env n i x" for x
    using assms(1,3,7) by (simp add: resolve_dst_def)
  have ch: "choose_proxy env cfg ?h ''auto'' x = (Inr ?route, x)" for x
    using assms(2) by (simp add: choose_proxy_def)
  have "connect_via env r pr ?route st n ip (map_port (h_Port ?h) p) (conf_dns r ?h) (t, wl) = Returns (e1, t1, w1)"
    using handshake_cases [OF run1 refl] assms(4,9) res first(1) ch by (auto simp: nd)
  moreover obtain ok ta wa where a: "auto_dial env st n ip (map_port (h_Port ?h) p) (t, wl) = (ok, ta, wa)"
    by (metis prod_cases3)
  moreover note auto_dial_failed [OF a first(3) assms(7) first(2)] dead
  ultimately have "map_outcome set_new (remote_dial env r pr (ProxyScheme cfg) (ProxyServer cfg) (ProxyPort cfg) n ip
        (map_port (h_Port ?h) p) ''remote'' (ta, wa)) = Returns (e1, t1, w1)"
    using assms(5,6) by (simp add: connect_via_def)
  then obtain e t' where "remote_dial env r pr (ProxyScheme cfg) (ProxyServer cfg) (ProxyPort cfg) n ip
        (map_port (h_Port ?h) p) ''remote'' (ta, wa) = Returns (e, t', w1)"
    by (cases "remote_dial env r pr (ProxyScheme cfg) (ProxyServer cfg) (ProxyPort cfg) n ip
        (map_port (h_Port ?h) p) ''remote'' (ta, wa)") (auto simp: set_new_def)
  from remote_dial_keeps [OF assms(5) this] auto_dial_failed [OF a first(3) assms(7) first(2)] dead
  obtain now where c: "dns_cache w1 = Cache_Store (net_clock env now) n ip StateFail (seconds 3600) (dns_cache wl)"
    by auto
  have "cache_inv (dns_cache wl)" using lookup_cache_inv [OF assms(8) first(1)] .
  from dns.look_put_live [OF this, of "net_clock env (history w1)" "net_clock env now" "seconds 3600" n ip StateFail]
    clock c obtain c' where l: "lookup env n i w1 = (ip, StateFail, w1\<lparr>dns_cache := c'\<rparr>)"
    using lookup_hit [of env w1 n ip StateFail i] first(2) assms(7) by auto
  from handshake_plain [OF run2 refl assms(2) nd] show ?thesis
  proof (elim disjE exE conjE)
    fix ip' st' w'
    assume "resolve_dst env r ?h n i w1 = (ip', st', w')"
      and "connect_via env r pr (conf_target r pr ?h, ProxyScheme cfg, ProxyServer cfg, ProxyPort cfg) st' n ip'
        (map_port (h_Port ?h) p) (conf_dns r ?h) (t2, w') = Returns (e2, t2', w2)"
    then have "extends (route_event ?route StateFail (address_of n ip (map_port (h_Port ?h) p)))
        (w1\<lparr>dns_cache := c'\<rparr>) w2"
      using connect_via_keeps l res assms(4) by fastforce
    then have "extends (proxy_event (proxy_addr (ProxyServer cfg) (ProxyPort cfg))) (w1\<lparr>dns_cache := c'\<rparr>) w2"
      by (rule extends_mono) (use assms(5,6) in \<open>simp add: route_event_def\<close>)
    then show ?thesis by (simp add: extends_def)
  qed simp
qed

subsection \<open>Access control\<close>

lemma iPInCIDR_v4:
  assumes "length ip = 4" and "length net = 4" and "k \<le> 32"
  shows "iPInCIDR (v4InV6Prefix @ ip) (dotted net @ ''/'' @ dec_digits k)
    \<longleftrightarrow> take k (ip_bits ip) = take k (ip_bits net)"
proof -
  have n4: "To4 net = Some net" using assms(2) by (simp add: To4_def)
  have "iPInCIDR (v4InV6Prefix @ ip) (dotted net @ ''/'' @ dec_digits k) = IPNet_Contains (net, k) (v4InV6Prefix @ ip)"
    unfolding iPInCIDR_def ParseCIDR_dotted [OF assms(2,3)] by simp
  then show ?thesis
    using mask_ip_bits [of ip net k] assms
    by (simp add: IPNet_Contains_def To4_v4 n4 Let_def)
qed

lemma iPInCIDR_single:
  assumes "length ip = 4" and "length ip' = 4"
  shows "iPInCIDR (v4InV6Prefix @ ip) (dotted ip') \<longleftrightarrow> dotted ip = dotted ip'"
proof -
  have "ParseCIDR (dotted ip') = None"
    using dotted_chars(2) [of ip'] by (simp add: ParseCIDR_def find_byte_None_iff [THEN iffD2])
  moreover have "v4InV6Prefix @ ip \<noteq> []" by (simp add: v4InV6Prefix_def)
  then have "IP_String (v4InV6Prefix @ ip) = dotted ip"
    using assms(1) by (auto simp: IP_String_def To4_v4)
  ultimately show ?thesis by (simp add: iPInCIDR_def)
qed

lemma dotted_inject: "length a = 4 \<Longrightarrow> length b = 4 \<Longrightarrow> dotted a = dotted b \<longleftrightarrow> a = b"
  by (metis option.inject parse_dotted same_append_eq)

lemma parseIPv6_not_Nil: "parseIPv6 s \<noteq> Some []"
  by (auto simp: parseIPv6_def Let_def split: if_splits option.splits)

lemma ParseCIDR_not_Nil: "ParseCIDR s = Some (nn, k) \<Longrightarrow> nn \<noteq> []"
proof -
  have "parseIPv4 a = Some ip \<Longrightarrow> drop 12 ip \<noteq> []" for a ip
    by (auto simp: parseIPv4_def Let_def v4InV6Prefix_def split: if_splits)
  then show "ParseCIDR s = Some (nn, k) \<Longrightarrow> nn \<noteq> []"
    using parseIPv6_not_Nil
    by (fastforce simp: ParseCIDR_def Let_def split: if_splits option.splits)
qed

lemma nil_in_no_network: "cidr \<noteq> ''<nil>'' \<Longrightarrow> \<not> iPInCIDR [] cidr"
proof -
  assume c: "cidr \<noteq> ''<nil>''"
  have "\<not> IPNet_Contains (nn, k) []" if "nn \<noteq> []" for nn k
    using that by (auto simp: IPNet_Contains_def To4_def Let_def split: if_splits)
  then show ?thesis using c ParseCIDR_not_Nil
    by (auto simp: iPInCIDR_def IP_String_def split: option.splits)
qed

lemma ParseIP_bracket: "ParseIP (CHR ''['' # s) = None"
proof -
  have "parseIPv4 (CHR ''['' # s) = None"
  proof -
    have "\<exists>x xs. Split (CHR ''['' # s) ''.'' = (CHR ''['' # x) # xs"
    proof (cases "find_byte CHR ''.'' s")
      case None
      then show ?thesis by (subst Split.simps) (simp add: find_sub_single)
    next
      case (Some i)
      then show ?thesis by (subst Split.simps) (simp add: find_sub_single)
    qed
    then show ?thesis by (auto simp: parseIPv4_def octet_ok_def is_digit_def)
  qed
  moreover have "parseIPv6 (CHR ''['' # s) = None"
  proof -
    have "\<not> is_hex CHR ''[''" by code_simp
    moreover from this have "parse_groups (Suc 7) [] None (CHR ''['' # s) = None"
      by (simp only: parse_groups.simps takeWhile.simps if_False Let_def simp_thms if_True)
    moreover have "\<not> HasPrefix (CHR ''['' # s) ''::''" by (simp add: HasPrefix_def)
    ultimately show ?thesis by (simp add: parseIPv6_def Let_def numeral_eq_Suc del: parse_groups.simps)
  qed
  ultimately show ?thesis by (simp add: ParseIP_def split: option.splits)
qed

text \<open>
  Who may connect. Without a list everyone may. An IPv4 client is allowed exactly when
  its address is in one of the networks listed: an entry \<open>a.b.c.d/n\<close> means that the first
  \<open>n\<close> bits agree, an entry without a slash means that address only.
\<close>

theorem isAllowed_ipv4:
  assumes "length ip = 4" and "\<forall>(a, k) \<in> set nets. length a = 4 \<and> k \<le> 32" and "\<forall>a \<in> set hosts. length a = 4"
  shows "isAllowed (r\<lparr>r_AllowIP := map (\<lambda>(a, k). dotted a @ ''/'' @ dec_digits k) nets\<rparr>)
       (newTunnel (dotted ip @ '':'' @ port_str p)) (map dotted hosts)
     = (if nets = [] \<and> hosts = [] \<or> ip \<in> set hosts \<or> (\<exists>(a, k) \<in> set nets. take k (ip_bits ip) = take k (ip_bits a))
        then ('''', True) else (dotted ip, False))"
proof -
  let ?t = "newTunnel (dotted ip @ '':'' @ port_str p)"
  have t: "inboundIP ?t = dotted ip"
    using GetRemoteIp_join [of "port_str p" "dotted ip"] assms(1) by (simp add: newTunnel_def)
  have "list_ex (iPInCIDR (v4InV6Prefix @ ip)) (map (\<lambda>(a, k). dotted a @ ''/'' @ dec_digits k) nets)
      \<longleftrightarrow> (\<exists>(a, k) \<in> set nets. take k (ip_bits ip) = take k (ip_bits a))"
  proof -
    have "iPInCIDR (v4InV6Prefix @ ip) (case x of (a, k) \<Rightarrow> dotted a @ ''/'' @ dec_digits k)
        \<longleftrightarrow> (case x of (a, k) \<Rightarrow> take k (ip_bits ip) = take k (ip_bits a))" if "x \<in> set nets" for x
    proof (cases x)
      case (Pair a k)
      with that assms(2) have "length a = 4" "k \<le> 32" by auto
      from iPInCIDR_v4 [OF assms(1) this] show ?thesis by (simp only: Pair prod.case)
    qed
    then show ?thesis unfolding list_ex_iff set_map by blast
  qed
  moreover have "list_ex (iPInCIDR (v4InV6Prefix @ ip)) (map dotted hosts) \<longleftrightarrow> ip \<in> set hosts"
    using iPInCIDR_single [OF assms(1)] dotted_inject [OF assms(1)] assms(3) by (auto simp: list_ex_iff)
  ultimately show ?thesis
    unfolding isAllowed_def Let_def t ParseIP_dotted [OF assms(1)] by auto
qed

theorem isAllowed_ipv4_witness:
  "isAllowed (empty_router\<lparr>r_AllowIP := map (\<lambda>(a, k). dotted a @ ''/'' @ dec_digits k)
        [(map char_of [192, 168, 1, 0 :: nat], 24)]\<rparr>)
      (newTunnel (dotted (map char_of [192, 168, 2, 7 :: nat]) @ '':'' @ port_str 5000)) (map dotted [])
    = (dotted (map char_of [192, 168, 2, 7 :: nat]), False)"
proof -
  have "take 24 (ip_bits (map char_of [192, 168, 2, 7 :: nat])) \<noteq> take 24 (ip_bits (map char_of [192, 168, 1, 0 :: nat]))"
    by code_simp
  then show ?thesis
    by (subst isAllowed_ipv4) simp_all
qed

text \<open>
  The address of an IPv6 client keeps the brackets of \<open>[address]:port\<close>, so it parses to
  nil: as soon as there is an allow list, no IPv6 client is let in, whatever the list says.
\<close>

theorem ipv6_clients_refused:
  assumes "allows @ r_AllowIP r \<noteq> []" and "''<nil>'' \<notin> set (allows @ r_AllowIP r)"
  shows "isAllowed r (newTunnel (''['' @ ip6 @ '']:'' @ port_str p)) allows = (''['' @ ip6 @ '']'', False)"
proof -
  have "inboundIP (newTunnel (''['' @ ip6 @ '']:'' @ port_str p)) = ''['' @ ip6 @ '']''"
    using GetRemoteIp_join [of "port_str p" "''['' @ ip6 @ '']''"] by (simp add: newTunnel_def)
  moreover have "\<not> list_ex (iPInCIDR []) (allows @ r_AllowIP r)"
    using assms(2) nil_in_no_network by (metis list_ex_iff)
  ultimately show ?thesis
    using assms(1) unfolding isAllowed_def Let_def by (auto simp: ParseIP_bracket)
qed

theorem ipv6_clients_refused_witness:
  "isAllowed (empty_router\<lparr>r_AllowIP := [''::/0'']\<rparr>) (newTunnel (''['' @ ''::1'' @ '']:'' @ port_str 4000)) []
    = (''['' @ ''::1'' @ '']'', False)"
  by (rule ipv6_clients_refused) (simp_all add: empty_router_def)

subsection \<open>Proxy specifications\<close>

text \<open>
  The two parsers of proxy specifications agree: a specification that the handshake
  accepts for a rule sets the same scheme, server and port as the global proxy option.
\<close>

theorem proxy_specs_agree:
  assumes "getProxyServer env spec w = (Inr (scheme, server, port), w')"
  shows "SetProxyServer spec init_settings
    = init_settings\<lparr>ProxyScheme := scheme, ProxyServer := server, ProxyPort := port\<rparr>"
  using assms
  by (auto simp: getProxyServer_def SetProxyServer_def Let_def init_settings_def
      split: if_splits prod.splits option.splits)

text \<open>
  The option at the end of a rule's proxy list is any four characters after a space, so
  a proxy specification of that length after \<open>, \<close> is taken for the option and never tried.
\<close>

theorem short_proxy_lost:
  assumes "length px = 4"
  shows "split_option (pxs @ '', '' @ px) = (pxs @ '','', px)"
  using assms by (simp add: split_option_def nth_append)

theorem short_proxy_lost_witness: "split_option (''10.0.0.1:3128'' @ '', '' @ ''h:80'') = (''10.0.0.1:3128'' @ '','', ''h:80'')"
  by (rule short_proxy_lost) simp

text \<open>
  A proxy that resolves names gets an IPv6 destination without a name as
  \<open>address:port\<close> without brackets; for an address that begins with a colon the handshake
  fails although the proxy could reach it.
\<close>

theorem remote_ipv6_unbracketed:
  assumes "dst \<noteq> ''''" and "server \<noteq> ''''"
  shows "if hd dst = CHR '':''
    then remote_dial env r pr ''socks5'' server port '''' dst p ''remote'' (t, w)
       = Returns (Some (ErrMsg ''target host is empty''), t, w)
    else \<exists>err t' w'. remote_dial env r pr ''socks5'' server port '''' dst p ''remote'' (t, w) = Returns (err, t', w')
       \<and> history w' = history w @ [NetSocks ''tcp'' (proxy_addr server port) ''tcp'' (dst @ '':'' @ port_str p)]"
proof (cases "hd dst = CHR '':''")
  case True
  with assms(1) have "hd (dst @ CHR '':'' # port_str p) = CHR '':''" by (cases dst) auto
  with True assms(1) show ?thesis
    by (simp add: remote_dial_def buildAddress_def address_of_def)
next
  case False
  obtain t1 w1 where rc: "registerCounter env server '''' port (t, w) = (t1, w1)" by (metis surj_pair)
  have "hd (dst @ CHR '':'' # port_str p) \<noteq> CHR '':''" using False assms(1) by (cases dst) auto
  with False assms rc registerCounter_keeps [OF rc] show ?thesis
    by (simp add: remote_dial_def buildAddress_def address_of_def socks5_connect_def proxy_addr_def Let_def)
qed

text \<open>A network for the examples: every dial has the outcome \<open>res\<close>, names resolve to 10.0.0.1.\<close>

definition demo_env :: "go_err option \<Rightarrow> net_env" where
  "demo_env res =
     \<lparr>net_dial = (\<lambda>_ _ _ _. res), net_lookup = (\<lambda>_ _. [map char_of [10, 0, 0, 1 :: nat]]),
      net_socks = (\<lambda>_ _ _ _ _. None), net_status = (\<lambda>_. (''HTTP/1.1 200 OK'', None)),
      net_clock = (\<lambda>_. 0), net_aes = (\<lambda>_ b. b), net_aes_dec = (\<lambda>_ b. b)\<rparr>"

definition demo_world :: world where
  "demo_world = \<lparr>history = [], dns_cache = newResolveLookupCache, inbound = NewManager, outbound = NewManager\<rparr>"

definition demo_router :: "string \<Rightarrow> router" where
  "demo_router target = empty_router\<lparr>r_Default := (r_Default empty_router)\<lparr>d_Target := target, d_TCPTarget := target\<rparr>\<rparr>"

definition demo_settings :: settings where
  "demo_settings = init_settings\<lparr>ProxyScheme := ''socks5'', ProxyServer := ''px'', ProxyPort := 1080\<rparr>"

lemmas demo_defs = demo_env_def demo_world_def demo_router_def demo_settings_def empty_router_def
  init_settings_def no_host_def

theorem remote_ipv6_unbracketed_witness:
  "remote_dial (demo_env None) empty_router ProtoTCP ''socks5'' ''p'' 1080 '''' ''::1'' 80 ''remote''
       (newTunnel ''1.2.3.4:5'', demo_world)
     = Returns (Some (ErrMsg ''target host is empty''), newTunnel ''1.2.3.4:5'', demo_world)"
  using remote_ipv6_unbracketed [of "''::1''" "''p''" "demo_env None" empty_router ProtoTCP 1080 80
      "newTunnel ''1.2.3.4:5''" demo_world] by simp

lemma demo_host [simp]: "findHost (demo_router x) n i = no_host"
  by (simp add: findHost_def demo_router_def empty_router_def)

lemma demo_allowed [simp]: "isAllowed (demo_router x) t [] = ('''', True)"
  by (simp add: isAllowed_def demo_router_def empty_router_def)

lemma demo_conf [simp]:
  "x \<noteq> '''' \<Longrightarrow> conf_target (demo_router x) pr no_host = x" "conf_dns (demo_router x) no_host = ''local''"
  "h_IP no_host = ''''" "h_Proxy no_host = ''''" "h_Port no_host = []" "h_AllowIP no_host = []"
  by (simp_all add: conf_target_def conf_dns_def getString_def demo_router_def empty_router_def no_host_def)

lemma demo_handshake:
  assumes "x \<noteq> ''''" and "x \<noteq> ''deny''"
  shows "handshake env cfg (demo_router x) pr '''' i p (t, w)
    = connect_via env (demo_router x) pr (x, ProxyScheme cfg, ProxyServer cfg, ProxyPort cfg) StateNew '''' i p ''local'' (t, w)"
  using assms by (simp add: handshake_def Let_def resolve_dst_def choose_proxy_def map_port_def)

lemma direct_dial_demo: "i \<noteq> '''' \<Longrightarrow> \<exists>t' w'. direct_dial (demo_env None) '''' i p (t, w) = (None, t', w')"
proof -
  assume i: "i \<noteq> ''''"
  obtain net addr t1 w1 where 1: "buildAddress (demo_env None) '''' i p True (t, w) = ((net, addr), t1, w1)"
    by (metis surj_pair)
  then have "addr \<noteq> ''''" using buildAddress_keeps [OF 1] i by (auto simp: address_of_def split: if_splits)
  with 1 show ?thesis by (simp add: direct_dial_def dail_def Let_def demo_env_def)
qed

theorem handshake_success_witness:
  "\<exists>t' w'. handshake (demo_env None) init_settings (demo_router ''local'') ProtoTCP '''' ''10.0.0.1'' 80
      (newTunnel ''1.2.3.4:5'', demo_world) = Returns (None, t', w') \<and> connected t'"
proof -
  obtain t' w' where "handshake (demo_env None) init_settings (demo_router ''local'') ProtoTCP '''' ''10.0.0.1'' 80
      (newTunnel ''1.2.3.4:5'', demo_world) = Returns (None, t', w')"
    using direct_dial_demo [of "''10.0.0.1''" 80 "newTunnel ''1.2.3.4:5''" demo_world]
    by (auto simp: demo_handshake connect_via_def)
  with handshake_success [OF this] show ?thesis by blast
qed

theorem handshake_refusal_witness:
  "\<exists>e w'. handshake (demo_env None) init_settings (demo_router ''deny'') ProtoTCP '''' ''10.0.0.1'' 80
      (newTunnel ''1.2.3.4:5'', demo_world) = Returns (Some e, newTunnel ''1.2.3.4:5'', w')"
  using handshake_refusal [of "demo_router ''deny''" "newTunnel ''1.2.3.4:5''" "''''" "''10.0.0.1''" ProtoTCP
      "demo_env None" init_settings 80 demo_world]
  by auto

lemma demo_remote:
  "\<exists>t' w'. handshake (demo_env None) demo_settings (demo_router ''remote'') ProtoTCP '''' ''10.0.0.1'' 80
      (newTunnel ''1.2.3.4:5'', demo_world) = Returns (None, t', w')"
proof -
  have a: "address_of '''' ''10.0.0.1'' 80 = (''tcp'', ''10.0.0.1:'' @ port_str 80)" by (simp add: address_of_def)
  obtain t1 w1 where r: "registerCounter (demo_env None) ''px'' '''' 1080 (newTunnel ''1.2.3.4:5'', demo_world) = (t1, w1)"
    by (metis surj_pair)
  show ?thesis
    by (simp add: demo_handshake connect_via_def demo_settings_def remote_dial_def buildAddress_def a Let_def
        address_of_name [of "''px''"] proxy_addr_def r socks5_connect_def)
      (simp add: demo_env_def)
qed


theorem handshake_local_only_witness:
  "\<exists>t' w'. handshake (demo_env None) demo_settings (demo_router ''local'') ProtoTCP '''' ''10.0.0.1'' 80
      (newTunnel ''1.2.3.4:5'', demo_world) = Returns (None, t', w')
    \<and> extends (\<lambda>e. e = NetDial ''tcp'' (''10.0.0.1:'' @ port_str 80) (seconds 5)) demo_world w'"
proof -
  have a: "address_of '''' ''10.0.0.1'' 80 = (''tcp'', ''10.0.0.1:'' @ port_str 80)" by (simp add: address_of_def)
  have res: "fst (resolve_dst (demo_env None) (demo_router ''local'') no_host '''' ''10.0.0.1'' demo_world) = ''10.0.0.1''"
    by (simp add: resolve_dst_def)
  obtain t' w' where h: "handshake (demo_env None) demo_settings (demo_router ''local'') ProtoTCP '''' ''10.0.0.1'' 80
      (newTunnel ''1.2.3.4:5'', demo_world) = Returns (None, t', w')"
    using direct_dial_demo [of "''10.0.0.1''" 80 "newTunnel ''1.2.3.4:5''" demo_world]
    by (auto simp: demo_handshake connect_via_def)
  from handshake_local_only [OF h] have "extends (\<lambda>e. e = NetDial ''tcp'' (''10.0.0.1:'' @ port_str 80) (seconds 5)) demo_world w'"
    by (simp add: res lookup_event_def a map_port_def)
  with h show ?thesis by blast
qed

theorem proxy_specs_agree_witness:
  "SetProxyServer ''socks5://px:1080'' init_settings
    = init_settings\<lparr>ProxyScheme := ''socks5'', ProxyServer := ''px'', ProxyPort := 1080\<rparr>"
proof -
  have "find_sub ''px:1080'' ''://'' = None" by (simp add: HasPrefix_def)
  from Split_scheme [of "''socks5''", OF _ this] have s1: "Split ''socks5://px:1080'' ''://'' = [''socks5'', ''px:1080'']"
    by simp
  have "port_str 1080 = ''1080''" 
    by (simp add: port_str_def Itoa_def dec_digits.simps digit_char_def char_of_eq_iff take_bit_eq_mod)
  then have s2: "Split ''px:1080'' '':'' = [''px'', ''1080'']" "Atoi ''1080'' = (1080, None)"
    using Split_host_port [of "''px''" 1080] Atoi_port_str [of 1080] by simp_all
  obtain w' where "getProxyServer (demo_env None) ''socks5://px:1080'' demo_world = (Inr (''socks5'', ''px'', 1080), w')"
    by (simp add: getProxyServer_def s1 s2 uint16_def Let_def demo_env_def)
  then show ?thesis by (rule proxy_specs_agree)
qed

lemma socks_returns: "\<exists>x. connect_via env r pr (ct, ''socks5'', server, port) st n i p dns tw = Returns x"
proof -
  have "remote_dial env r pr ''socks5'' server port n i p dns' tw' \<noteq> Panics" for dns' tw'
    by (simp add: remote_dial_def Let_def split: prod.splits)
  then have "map_outcome set_new (remote_dial env r pr ''socks5'' server port n i p dns' tw') \<noteq> Panics" for dns' tw'
    by (metis map_outcome.simps(2) outcome.distinct(1) outcome.exhaust)
  then have "connect_via env r pr (ct, ''socks5'', server, port) st n i p dns tw \<noteq> Panics"
    by (simp add: connect_via_def split: prod.splits bool.splits)
  then show ?thesis by (meson outcome.exhaust)
qed

lemma demo_returns:
  "\<exists>e t' w'. handshake env demo_settings (demo_router ''auto'') pr n i p (t, w) = Returns (e, t', w')"
proof -
  obtain ip st w1 where 1: "resolve_dst env (demo_router ''auto'') no_host n i w = (ip, st, w1)" by (metis prod_cases3)
  obtain x where "connect_via env (demo_router ''auto'') pr (''auto'', ''socks5'', ''px'', 1080) st n ip p ''local'' (t, w1) = Returns x"
    using socks_returns by blast
  then show ?thesis
    by (cases x) (simp add: handshake_def Let_def 1 choose_proxy_def map_port_def demo_settings_def)
qed

theorem auto_failure_remembered_witness:
  "\<exists>e1 t1 w1 e2 t2 w2.
     handshake (demo_env (Some EOF)) demo_settings (demo_router ''auto'') ProtoTCP ''h'' '''' 80
       (newTunnel ''1.2.3.4:5'', demo_world) = Returns (e1, t1, w1)
   \<and> handshake (demo_env (Some EOF)) demo_settings (demo_router ''auto'') ProtoTCP ''h'' '''' 80
       (newTunnel ''1.2.3.4:6'', w1) = Returns (e2, t2, w2)
   \<and> extends (proxy_event (proxy_addr ''px'' 1080)) w1 w2"
proof -
  let ?env = "demo_env (Some EOF)" and ?r = "demo_router ''auto''"
  have ip: "IP_String (map char_of [10, 0, 0, 1 :: nat]) \<noteq> ''''"
    by (simp add: IP_String_4)
  obtain c where l: "lookup ?env ''h'' '''' demo_world = (IP_String (map char_of [10, 0, 0, 1 :: nat]), StateNew, c)"
    by (simp add: lookup_def Let_def Cache_Lookup_def demo_env_def demo_world_def newResolveLookupCache_def)
  obtain e1 t1 w1 where 1: "handshake ?env demo_settings ?r ProtoTCP ''h'' '''' 80 (newTunnel ''1.2.3.4:5'', demo_world)
      = Returns (e1, t1, w1)" using demo_returns by blast
  obtain e2 t2 w2 where 2: "handshake ?env demo_settings ?r ProtoTCP ''h'' '''' 80 (newTunnel ''1.2.3.4:6'', w1)
      = Returns (e2, t2, w2)" using demo_returns by blast
  have "extends (proxy_event (proxy_addr (ProxyServer demo_settings) (ProxyPort demo_settings))) w1 w2"
    by (rule auto_failure_remembered [OF _ _ _ _ _ _ _ _ _ _ l ip _ _ 1 2])
      (simp_all add: cache_inv_new demo_world_def demo_settings_def demo_env_def seconds_def)
  then have "extends (proxy_event (proxy_addr ''px'' 1080)) w1 w2" by (simp add: demo_settings_def)
  with 1 2 show ?thesis by blast
qed

end
