(* ===== verification/Nat_Auth.thy ===== *)
theory Nat_Auth
  imports Nat_Hub Tunnel
begin

section \<open>Websocket clients and their server\<close>

text \<open>
  The package \<open>nat\<close>, second part: \<open>conn.go\<close> (the server side of a websocket connection) and
  \<open>handler.go\<close> (the client side). What the websocket library, \<open>encoding/json\<close> and the clock
  deliver is an argument; \<open>md5\<close> is the digest function of the standard library. Logging is
  not modelled.
\<close>

subsection \<open>nat/conn.go\<close>

text \<open>The package variables of the server.\<close>

record nat_server =
  ServerHub :: hub
  ServerBridge :: bridge_hub
  serverStart :: bool

definition NewServer :: nat_server where
  "NewServer = \<lparr>ServerHub = newHub, ServerBridge = newBridgeHub, serverStart = True\<rparr>"

definition Eable :: "nat_server \<Rightarrow> bool" where
  "Eable s = (if \<not> serverStart s then False else if length (hub_clients (ServerHub s)) = 0 then False else True)"

text \<open>The text a token is the digest of.\<close>

definition auth_text :: "string \<Rightarrow> string \<Rightarrow> 64 word \<Rightarrow> string" where
  "auth_text user pass xtime = user @ ''|'' @ pass @ ''|'' @ Itoa (sint xtime)"

definition kept_subs :: "subscribe list \<Rightarrow> subscribe list" where
  "kept_subs subs = filter (\<lambda>s. sub_Key s \<noteq> '''' \<and> sub_Val s \<noteq> '''') subs"

text \<open>
  \<open>serveWs\<close>: the texts written to the client and, for a client that is accepted, the event
  that registers it. The arguments \<open>auth\<close> and \<open>subs\<close> are the results of the two \<open>ReadJSON\<close>
  calls, \<open>now\<close> is \<open>time.Now().Unix()\<close> and \<open>p\<close> the pointer of the new client. The difference
  of the times is one of 64-bit integers.
\<close>

definition serveWs_auth ::
  "(string \<Rightarrow> string) \<Rightarrow> router \<Rightarrow> 64 word \<Rightarrow> auth_message go_ret \<Rightarrow> string option \<times> bool" where
  "serveWs_auth md5 r now auth =
     (case auth of (user, err) \<Rightarrow>
        if err \<noteq> None then (None, False)
        else if au_Email user = '''' then (Some ''email error'', False)
        else if sint (now - au_Xtime user) > 300 then (Some ''xtime err, please check local time'', False)
        else if au_User user \<noteq> ws_User (r_Websocket r) then (Some ''user err'', False)
        else case Md5Str md5 (auth_text (au_User user) (ws_Pass (r_Websocket r)) (au_Xtime user)) of (token, err) \<Rightarrow>
          if err \<noteq> None \<or> au_Token user \<noteq> token then (Some ''token err'', False)
          else (Some ''ok'', True))"

definition serveWs_sub :: "subscribe list go_ret \<Rightarrow> string option \<times> subscribe list option" where
  "serveWs_sub subs =
     (case subs of (tmpSub, err) \<Rightarrow>
        if err \<noteq> None then (None, None)
        else if length (kept_subs tmpSub) = 0 then (Some ''subscribe empty err'', None)
        else (Some ''ok'', Some (kept_subs tmpSub)))"

definition serveWs ::
  "(string \<Rightarrow> string) \<Rightarrow> router \<Rightarrow> 64 word \<Rightarrow> go_err option \<Rightarrow> auth_message go_ret \<Rightarrow> subscribe list go_ret \<Rightarrow>
     nat \<Rightarrow> string option \<times> string option \<times> hub_event option" where
  "serveWs md5 r now upgrade auth subs p =
     (if upgrade \<noteq> None then (None, None, None)
      else case serveWs_auth md5 r now auth of
        (reply, False) \<Rightarrow> (reply, None, None)
      | (reply, True) \<Rightarrow>
          (case serveWs_sub subs of
             (reply2, None) \<Rightarrow> (reply, reply2, None)
           | (reply2, Some subscribe) \<Rightarrow>
               (reply, reply2, Some (HubRegister p (au_User (fst auth)) (au_Email (fst auth)) subscribe))))"

subsection \<open>nat/handler.go\<close>

text \<open>
  How \<open>ask\<close> ends: the write fails, a message arrives (an empty one when the read fails),
  or three seconds pass.
\<close>

datatype ask_event = AskWriteErr go_err | AskReply string | AskTimeout

fun ask :: "ask_event \<Rightarrow> go_err option" where
  "ask (AskWriteErr err) = Some err"
| "ask (AskReply message) = (if message \<noteq> ''ok'' then Some (ErrMsg (''fail, '' @ message)) else None)"
| "ask AskTimeout = Some (ErrMsg ''timeout'')"

text \<open>The message \<open>auth\<close> asks with.\<close>

definition client_auth :: "(string \<Rightarrow> string) \<Rightarrow> string \<Rightarrow> string \<Rightarrow> string \<Rightarrow> 64 word \<Rightarrow> auth_message" where
  "client_auth md5 user pass email xtime =
     \<lparr>au_User = user, au_Email = email, au_Token = fst (Md5Str md5 (auth_text user pass xtime)), au_Xtime = xtime\<rparr>"

definition client_subscribe :: "subscribe list \<Rightarrow> subscribe list" where
  "client_subscribe sub = map (\<lambda>s. \<lparr>sub_Key = sub_Key s, sub_Val = sub_Val s\<rparr>) sub"

text \<open>The address of \<open>ConnectServer\<close>; nothing is connected without a user and an email.\<close>

definition ws_address :: "string \<Rightarrow> string" where
  "ws_address addr =
     (let addrs = Split addr ''://'' in if addrs ! 0 = ''ws'' \<and> length addrs = 2 then addrs ! 1 else addr)"

definition ws_configured :: "router \<Rightarrow> bool" where
  "ws_configured r = (if ws_User (r_Websocket r) = '''' \<or> ws_Email (r_Websocket r) = '''' then False else True)"

text \<open>
  One call of \<open>connect\<close> up to the exchange of data: how long it sleeps, the new value of
  \<open>tempDelay\<close>, and whether the client is registered. Durations are in nanoseconds.
\<close>

definition auth_delay :: "int \<Rightarrow> int" where
  "auth_delay tempDelay =
     (let tempDelay = (if tempDelay = 0 then seconds 3 else tempDelay * 2)
      in if tempDelay > seconds 60 then seconds 60 else tempDelay)"

record attempt =
  at_dial :: "go_err option"
  at_auth :: ask_event
  at_subscribe :: ask_event
  at_interrupt :: bool

definition connect :: "attempt \<Rightarrow> int \<Rightarrow> int \<times> int \<times> bool" where
  "connect a tempDelay =
     (if at_dial a \<noteq> None then (seconds 3, tempDelay, False)
      else if ask (at_auth a) \<noteq> None then (auth_delay tempDelay, auth_delay tempDelay, False)
      else if ask (at_subscribe a) \<noteq> None then (seconds 3, 0, False)
      else (0, 0, True))"

text \<open>
  The loop of \<open>ConnectServer\<close> over the attempts the environment makes possible: the delays
  slept. Only a connection that exchanged data can be interrupted.
\<close>

fun ConnectServer_loop :: "attempt list \<Rightarrow> int \<Rightarrow> int list" where
  "ConnectServer_loop [] tempDelay = []"
| "ConnectServer_loop (a # as) tempDelay =
     (case connect a tempDelay of (delay, tempDelay, ok) \<Rightarrow>
        delay # (if ok \<and> at_interrupt a then [] else ConnectServer_loop as tempDelay))"

definition ConnectServer :: "router \<Rightarrow> string \<Rightarrow> attempt list \<Rightarrow> (string \<times> int list) option" where
  "ConnectServer r addr as =
     (if \<not> ws_configured r then None else Some (ws_address addr, ConnectServer_loop as 0))"

subsection \<open>Who is registered\<close>

lemma serveWs_auth_cases:
  "serveWs_auth md5 r now (user, err) = (reply, True) \<longleftrightarrow>
     reply = Some ''ok'' \<and> err = None \<and> au_Email user \<noteq> '''' \<and> sint (now - au_Xtime user) \<le> 300
     \<and> au_User user = ws_User (r_Websocket r)
     \<and> au_Token user = hex_encode (md5 (auth_text (au_User user) (ws_Pass (r_Websocket r)) (au_Xtime user)))"
  by (auto simp: serveWs_auth_def Md5Str_def)

lemma serveWs_sub_cases:
  "serveWs_sub (subs, err) = (reply, Some kept) \<longleftrightarrow>
     reply = Some ''ok'' \<and> err = None \<and> kept = kept_subs subs \<and> kept_subs subs \<noteq> []"
  by (auto simp: serveWs_sub_def)

lemma serveWs_registers:
  "serveWs md5 r now upgrade (user, err) (subs, err2) p = (reply, reply2, Some e) \<longleftrightarrow>
     upgrade = None \<and> serveWs_auth md5 r now (user, err) = (reply, True)
     \<and> (\<exists>kept. serveWs_sub (subs, err2) = (reply2, Some kept) \<and> e = HubRegister p (au_User user) (au_Email user) kept)"
  by (auto simp: serveWs_def split: prod.splits bool.splits option.splits)


lemma client_subscribe_id [simp]: "client_subscribe subs = subs"
  by (induction subs) (simp_all add: client_subscribe_def)

lemma client_auth_ok:
  assumes "email \<noteq> ''''" and "sint (now - t) \<le> 300" and "user = ws_User (r_Websocket r)"
    and "pass = ws_Pass (r_Websocket r)"
  shows "serveWs_auth md5 r now (client_auth md5 user pass email t, None) = (Some ''ok'', True)"
  using assms by (simp add: serveWs_auth_cases client_auth_def Md5Str_def)

text \<open>
  A client with the server's user and password, an email and a subscription, whose clock
  is not more than 300 seconds behind, gets two positive answers and is registered with its
  subscriptions.
\<close>

theorem auth_round_trip:
  assumes "ws_Email ws \<noteq> ''''" and "sint (now - t) \<le> 300" and "kept_subs (ws_Subscribe ws) \<noteq> []"
    and "ws_User ws = ws_User (r_Websocket r)" and "ws_Pass ws = ws_Pass (r_Websocket r)"
  shows "serveWs md5 r now None (client_auth md5 (ws_User ws) (ws_Pass ws) (ws_Email ws) t, None)
      (client_subscribe (ws_Subscribe ws), None) p =
      (Some ''ok'', Some ''ok'', Some (HubRegister p (ws_User ws) (ws_Email ws) (kept_subs (ws_Subscribe ws))))
    \<and> ask (AskReply ''ok'') = None"
proof -
  note a = client_auth_ok [OF assms(1,2,4,5), of md5]
  have s: "serveWs_sub (client_subscribe (ws_Subscribe ws), None) = (Some ''ok'', Some (kept_subs (ws_Subscribe ws)))"
    using assms(3) by (simp add: serveWs_sub_cases)
  show ?thesis unfolding serveWs_def a s by (simp add: client_auth_def)
qed

definition demo_ws :: conf_websocket where
  "demo_ws = \<lparr>ws_Listen = '''', ws_Connect = '''', ws_Host = '''', ws_User = ''u'', ws_Pass = ''p'',
     ws_Email = ''e'', ws_Subscribe = [\<lparr>sub_Key = ''Debug'', sub_Val = ''me''\<rparr>]\<rparr>"

definition demo_ws_router :: router where
  "demo_ws_router = empty_router\<lparr>r_Websocket := demo_ws\<rparr>"

theorem auth_round_trip_witness:
  "serveWs id demo_ws_router 1000 None (client_auth id ''u'' ''p'' ''e'' 900, None)
      (client_subscribe [\<lparr>sub_Key = ''Debug'', sub_Val = ''me''\<rparr>], None) 7 =
      (Some ''ok'', Some ''ok'', Some (HubRegister 7 ''u'' ''e'' [\<lparr>sub_Key = ''Debug'', sub_Val = ''me''\<rparr>]))"
  using auth_round_trip [of demo_ws 1000 900 demo_ws_router id 7]
  by (simp add: demo_ws_def demo_ws_router_def kept_subs_def)

text \<open>
  The test of the time has one side only: a token for a time in the future is accepted until
  that time has passed, however far away it is.
\<close>

lemma future_token_accepted:
  assumes "email \<noteq> ''''" and "sint (now - t) \<le> 0"
  shows "serveWs_auth md5 r now
    (client_auth md5 (ws_User (r_Websocket r)) (ws_Pass (r_Websocket r)) email t, None) = (Some ''ok'', True)"
  using client_auth_ok [of email now t "ws_User (r_Websocket r)" r] assms by simp

subsection \<open>Where requests are sent\<close>

text \<open>A registration event that comes from a client \<open>serveWs\<close> has accepted.\<close>

definition accepted :: "(string \<Rightarrow> string) \<Rightarrow> router \<Rightarrow> hub_event \<Rightarrow> bool" where
  "accepted md5 r e \<longleftrightarrow>
     (\<forall>p user email subs. e = HubRegister p user email subs \<longrightarrow>
        (\<exists>now upgrade auth sub reply reply2. serveWs md5 r now upgrade auth sub p = (reply, reply2, Some e)))"

text \<open>A user and an email that have passed the authentication at some time.\<close>

definition authentic :: "(string \<Rightarrow> string) \<Rightarrow> router \<Rightarrow> string \<Rightarrow> string \<Rightarrow> bool" where
  "authentic md5 r user email \<longleftrightarrow>
     (\<exists>now au. serveWs_auth md5 r now (au, None) = (Some ''ok'', True) \<and> user = au_User au \<and> email = au_Email au)"

definition registered_ok :: "(string \<Rightarrow> string) \<Rightarrow> router \<Rightarrow> hub \<Rightarrow> bool" where
  "registered_ok md5 r h \<longleftrightarrow>
     (\<forall>p \<in> set (hub_clients h).
        authentic md5 r (cl_User (hub_heap h p)) (cl_Email (hub_heap h p))
        \<and> cl_Subscribe (hub_heap h p) = kept_subs (cl_Subscribe (hub_heap h p)))"

lemma registered_same:
  "registered_ok md5 r h \<Longrightarrow> set (hub_clients h') \<subseteq> set (hub_clients h) \<Longrightarrow>
    (\<And>p. cl_User (hub_heap h' p) = cl_User (hub_heap h p) \<and> cl_Email (hub_heap h' p) = cl_Email (hub_heap h p)
      \<and> cl_Subscribe (hub_heap h' p) = cl_Subscribe (hub_heap h p)) \<Longrightarrow> registered_ok md5 r h'"
  by (auto simp: registered_ok_def)

lemma set_send_fields [simp]:
  "cl_User (hub_heap (set_send p c h) q) = cl_User (hub_heap h q)"
  "cl_Email (hub_heap (set_send p c h) q) = cl_Email (hub_heap h q)"
  "cl_Subscribe (hub_heap (set_send p c h) q) = cl_Subscribe (hub_heap h q)"
  by (simp_all add: set_send_def)

lemma registered_step:
  assumes "registered_ok md5 r h" and "hub_live h" and "accepted md5 r e" and "hub_run e h = Returns h'"
  shows "registered_ok md5 r h'"
proof (cases e)
  case (HubRegister p user email subs)
  from assms(3) obtain now upgrade au err sub err2 reply reply2 where
    "serveWs md5 r now upgrade (au, err) (sub, err2) p = (reply, reply2, Some e)"
    unfolding accepted_def using HubRegister by (metis surj_pair)
  then have "serveWs_auth md5 r now (au, None) = (Some ''ok'', True)" "user = au_User au" "email = au_Email au"
    "subs = kept_subs sub"
    using HubRegister by (auto simp: serveWs_registers serveWs_auth_cases serveWs_sub_cases)
  then have "authentic md5 r user email" "kept_subs subs = subs" by (auto simp: authentic_def kept_subs_def)
  then show ?thesis
    using assms HubRegister
    by (auto simp: registered_ok_def hub_register_def new_client_def)
next
  case (HubUnregister p)
  have c: "\<not> ch_closed (hub_send h p)" if "p \<in> set (hub_clients h)"
    using assms(2) that by (simp add: hub_live_def members_live_def)
  from assms HubUnregister c show ?thesis
    by (auto simp: hub_unregister_def hub_drop_eq dest: set_remove1_subset [THEN subsetD] intro!: registered_same [OF assms(1)] split: if_splits)
next
  case (HubBroadcast ord p m)
  have c: "\<not> ch_closed (hub_send h p)" if "p \<in> set (hub_clients h)"
    using assms(2) that by (simp add: hub_live_def members_live_def)
  from assms HubBroadcast c show ?thesis
    by (auto simp: hub_broadcast_eq hub_live_def hub_drop_eq dest: set_remove1_subset [THEN subsetD]
        intro!: registered_same [OF assms(1)] split: if_splits)
next
  case (HubPump p)
  with assms show ?thesis
    by (auto simp: hub_pump_eq intro!: registered_same [OF assms(1)] split: list.splits)
qed

lemma hub_live_newHub: "hub_live newHub"
  by (simp add: hub_live_def newHub_def members_live_def)

lemma registered_run:
  "registered_ok md5 r h \<Longrightarrow> hub_live h \<Longrightarrow> \<forall>e \<in> set es. accepted md5 r e \<Longrightarrow> exec hub_run es h = Returns h' \<Longrightarrow>
     registered_ok md5 r h' \<and> hub_live h'"
proof (induction es arbitrary: h)
  case (Cons e es)
  obtain t where t: "hub_run e h = Returns t" "hub_live t"
    using hub_step_live [of h e] Cons.prems(2) by (auto simp: hub_live_def)
  with registered_step [OF Cons.prems(1,2) _ t(1)] Cons show ?case by simp
qed simp

text \<open>
  C21: In every run of the server's hub whose registrations come from accepted clients, the
  client a request is handed to has authenticated itself, its channel is open, and it has
  subscribed to a header with the value the request carries; and no client is found only if
  no registered client has.
\<close>

theorem requests_go_to_subscribers:
  assumes "exec hub_run es newHub = Returns h" and "\<forall>e \<in> set es. accepted md5 r e"
  shows "case GetClient ord hs h of
      Some p \<Rightarrow> p \<in> set (hub_clients h) \<and> \<not> ch_closed (hub_send h p)
        \<and> authentic md5 r (cl_User (hub_heap h p)) (cl_Email (hub_heap h p))
        \<and> (\<exists>s \<in> set (cl_Subscribe (hub_heap h p)). sub_Key s \<noteq> '''' \<and> sub_Val s \<noteq> '''' \<and> Header_Get hs (sub_Key s) = sub_Val s)
    | None \<Rightarrow> \<forall>p \<in> set (hub_clients h). \<forall>s \<in> set (cl_Subscribe (hub_heap h p)). Header_Get hs (sub_Key s) \<noteq> sub_Val s"
proof -
  have "registered_ok md5 r newHub" by (simp add: registered_ok_def newHub_def)
  from registered_run [OF this hub_live_newHub assms(2,1)]
  have r: "registered_ok md5 r h" and l: "hub_live h" by simp_all
  have k: "sub_Key s \<noteq> '''' \<and> sub_Val s \<noteq> ''''" if "p \<in> set (hub_clients h)" "s \<in> set (cl_Subscribe (hub_heap h p))" for p s
  proof -
    have "s \<in> set (kept_subs (cl_Subscribe (hub_heap h p)))" using r that unfolding registered_ok_def by metis
    then show ?thesis by (simp add: kept_subs_def)
  qed
  show ?thesis
  proof (cases "GetClient ord hs h")
    case None
    then have n: "\<forall>p \<in> set (hub_clients h). \<not> subscribes hs (hub_heap h p)"
      by (simp add: GetClient_def find_None_iff)
    have "Header_Get hs (sub_Key s) \<noteq> sub_Val s"
      if "p \<in> set (hub_clients h)" "s \<in> set (cl_Subscribe (hub_heap h p))" for p s
      using n that k [OF that] unfolding subscribes_def list_ex_iff Let_def by metis
    with None show ?thesis by simp
  next
    case (Some p)
    then have p: "p \<in> set (hub_clients h)" "subscribes hs (hub_heap h p)"
      unfolding GetClient_def find_Some_iff by (metis map_range_simps(1) nth_mem)+
    then obtain s where "s \<in> set (cl_Subscribe (hub_heap h p))" "Header_Get hs (sub_Key s) = sub_Val s"
      by (auto simp: subscribes_def list_ex_iff Let_def)
    with k [OF p(1)] p(1) r l show ?thesis
      unfolding Some by (auto simp: registered_ok_def hub_live_def members_live_def)
  qed
qed

subsection \<open>How often a client tries again\<close>

text \<open>The pause after the n-th refusal in a row; none before the first.\<close>

definition backoff :: "nat \<Rightarrow> int" where
  "backoff n = (if n = 0 then 0 else min (seconds 60) (seconds 3 * 2 ^ (n - 1)))"

lemma auth_delay_backoff: "auth_delay (backoff n) = backoff (Suc n)"
proof (cases n)
  case (Suc k)
  have "(1::int) \<le> 2 ^ k" by simp
  with Suc show ?thesis by (auto simp: backoff_def auth_delay_def seconds_def min_def Let_def)
qed (simp add: backoff_def auth_delay_def seconds_def)

lemma ConnectServer_loop_refused:
  "\<forall>a \<in> set as. at_dial a = None \<and> ask (at_auth a) \<noteq> None \<Longrightarrow>
     ConnectServer_loop (as @ bs) (backoff n) =
       map backoff [Suc n ..< Suc n + length as] @ ConnectServer_loop bs (backoff (n + length as))"
proof (induction as arbitrary: n)
  case (Cons a as)
  have "[Suc n ..< Suc n + length (a # as)] = Suc n # [Suc (Suc n) ..< Suc (Suc n) + length as]"
    by (simp add: upt_conv_Cons del: upt_Suc)
  with Cons.IH [of "Suc n"] Cons.prems show ?case by (auto simp: connect_def auth_delay_backoff)
qed simp

lemma ConnectServer_loop_bounds:
  "0 \<le> t \<Longrightarrow> t \<le> seconds 60 \<Longrightarrow> d \<in> set (ConnectServer_loop as t) \<Longrightarrow> 0 \<le> d \<and> d \<le> seconds 60"
proof (induction as arbitrary: t)
  case (Cons a as)
  obtain d1 t1 ok where c: "connect a t = (d1, t1, ok)" by (metis prod_cases3)
  then have "0 \<le> d1 \<and> d1 \<le> seconds 60 \<and> 0 \<le> t1 \<and> t1 \<le> seconds 60"
    using Cons.prems(1,2) by (auto simp: connect_def auth_delay_def seconds_def Let_def split: if_splits)
  with Cons c show ?case by (auto split: if_splits)
qed simp

text \<open>
  A client the server refuses waits 3, 6, 12, 24, 48 and then 60 seconds each time, starts
  again from 3 after a connection that was accepted, and never waits more than a minute.
\<close>

theorem auth_backoff:
  assumes "\<forall>a \<in> set as. at_dial a = None \<and> ask (at_auth a) \<noteq> None"
    and "at_dial a = None" and "ask (at_auth a) = None" and "ask (at_subscribe a) = None" and "\<not> at_interrupt a"
  shows "ConnectServer_loop (as @ a # as @ bs) 0 =
      map (\<lambda>k. min (seconds 60) (seconds 3 * 2 ^ k)) [0 ..< length as] @ 0 #
      map (\<lambda>k. min (seconds 60) (seconds 3 * 2 ^ k)) [0 ..< length as] @
      ConnectServer_loop bs (backoff (length as))
    \<and> (\<forall>d \<in> set (ConnectServer_loop cs 0). 0 \<le> d \<and> d \<le> seconds 60)"
proof -
  have b: "map backoff [Suc 0 ..< Suc (length as)] = map (\<lambda>k. min (seconds 60) (seconds 3 * 2 ^ k)) [0 ..< length as]"
    by (simp add: map_Suc_upt [symmetric] backoff_def comp_def del: upt_Suc)
  have z: "backoff 0 = 0" by (simp add: backoff_def)
  have 1: "ConnectServer_loop (as @ ds) 0 = map (\<lambda>k. min (seconds 60) (seconds 3 * 2 ^ k)) [0 ..< length as]
      @ ConnectServer_loop ds (backoff (length as))" for ds
    using ConnectServer_loop_refused [OF assms(1), of ds 0] unfolding b [symmetric] z by (simp del: upt_Suc)
  have 2: "ConnectServer_loop (a # ds) t = 0 # ConnectServer_loop ds 0" for ds t
    using assms by (simp add: connect_def)
  have 3: "\<forall>d \<in> set (ConnectServer_loop cs 0). 0 \<le> d \<and> d \<le> seconds 60"
    using ConnectServer_loop_bounds [of 0 _ cs] by (simp add: seconds_def)
  show ?thesis unfolding 1 2 using 3 by (simp del: upt_Suc)
qed

definition refused_attempt :: attempt where
  "refused_attempt = \<lparr>at_dial = None, at_auth = AskReply ''token err'', at_subscribe = AskTimeout, at_interrupt = False\<rparr>"

definition accepted_attempt :: attempt where
  "accepted_attempt = \<lparr>at_dial = None, at_auth = AskReply ''ok'', at_subscribe = AskReply ''ok'', at_interrupt = False\<rparr>"

theorem auth_backoff_witness:
  "ConnectServer_loop ([refused_attempt, refused_attempt, refused_attempt, refused_attempt, refused_attempt, refused_attempt]
     @ accepted_attempt # [refused_attempt, refused_attempt, refused_attempt, refused_attempt, refused_attempt, refused_attempt] @ []) 0
   = map seconds [3, 6, 12, 24, 48, 60, 0, 3, 6, 12, 24, 48, 60]"
proof -
  have u: "[0 ..< length [refused_attempt, refused_attempt, refused_attempt, refused_attempt, refused_attempt, refused_attempt]]
    = [0, 1, 2, 3, 4, 5]"
    by (simp add: upt_conv_Cons)
  show ?thesis
    by (subst auth_backoff [of _ accepted_attempt "[]" "[]", THEN conjunct1])
      (simp_all only: u, simp_all add: refused_attempt_def accepted_attempt_def seconds_def)
qed

definition demo_hub_event :: hub_event where
  "demo_hub_event = HubRegister 7 ''u'' ''e'' [\<lparr>sub_Key = ''Debug'', sub_Val = ''me''\<rparr>]"

definition demo_hub :: hub where
  "demo_hub = hub_register 7
     (newHub\<lparr>hub_heap := (hub_heap newHub)(7 := new_client ''u'' ''e'' [\<lparr>sub_Key = ''Debug'', sub_Val = ''me''\<rparr>])\<rparr>)"

theorem requests_go_to_subscribers_witness:
  "GetClient id [(''Debug'', [''me''])] demo_hub = Some 7 \<and> authentic id demo_ws_router ''u'' ''e''"
proof -
  have w: "serveWs id demo_ws_router 1000 None (client_auth id ''u'' ''p'' ''e'' 900, None)
      ([\<lparr>sub_Key = ''Debug'', sub_Val = ''me''\<rparr>], None) 7 = (Some ''ok'', Some ''ok'', Some demo_hub_event)"
    by (simp add: serveWs_def serveWs_auth_def serveWs_sub_def client_auth_def Md5Str_def kept_subs_def
        demo_ws_router_def demo_ws_def demo_hub_event_def)
  have a: "\<forall>e \<in> set [demo_hub_event]. accepted id demo_ws_router e"
    unfolding accepted_def
  proof (intro ballI allI impI)
    fix e p user email subs
    assume "e \<in> set [demo_hub_event]" "e = HubRegister p user email subs"
    then have "p = 7" "e = demo_hub_event" by (auto simp: demo_hub_event_def)
    with w show "\<exists>now upgrade auth sub reply reply2.
      serveWs id demo_ws_router now upgrade auth sub p = (reply, reply2, Some e)" by blast
  qed
  have ex: "exec hub_run [demo_hub_event] newHub = Returns demo_hub"
    by (simp add: demo_hub_event_def demo_hub_def)
  have h: "hub_clients demo_hub = [7]" "hub_heap demo_hub 7 = new_client ''u'' ''e'' [\<lparr>sub_Key = ''Debug'', sub_Val = ''me''\<rparr>]"
    by (simp_all add: demo_hub_def hub_register_def newHub_def)
  have "Header_Get [(''Debug'', [''me''])] ''Debug'' = ''me''" by code_simp
  then have g: "GetClient id [(''Debug'', [''me''])] demo_hub = Some 7"
    by (simp add: GetClient_def map_range_def subscribes_def h new_client_def)
  have "authentic id demo_ws_router (cl_User (hub_heap demo_hub 7)) (cl_Email (hub_heap demo_hub 7))"
    using requests_go_to_subscribers [OF ex a, where ord = id and hs = "[(''Debug'', [''me''])]"] unfolding g option.case by blast
  with g h show ?thesis by (simp add: new_client_def)
qed

end
