(* ===== verification/Tcp_Reader.thy ===== *)
theory Tcp_Reader
  imports Go_Prelude
begin

section \<open>The buffered connection reader\<close>

text \<open>
  The package \<open>proto/tcp\<close> (\<open>proto/tcp/reader.go\<close>): a variant of \<open>bufio.Reader\<close> over a TCP
  connection. What the connection delivers is a list of read results, each some bytes
  and possibly an error; a read of at most \<open>n\<close> bytes takes them from the first result
  and leaves the rest, and an exhausted connection is at end of file. So every chunking
  of the input, empty reads and errors at any point are covered.

  A Go slice returned by the reader points into its buffer; the callers use it before
  the next read, so it is modelled by its contents. \<open>panic\<close> calls of the source are
  unreachable: negative counts by the type of the connection, the two others by
  \<open>fill_guard\<close> and \<open>ReadSlice_full_pos\<close> below.
\<close>

subsection \<open>The connection\<close>

type_synonym conn_in = "(string \<times> go_err option) list"

fun conn_read :: "nat \<Rightarrow> conn_in \<Rightarrow> string \<times> go_err option \<times> conn_in" where
  "conn_read n [] = ([], Some EOF, [])"
| "conn_read n ((d, e) # rest) =
     (if length d \<le> n then (d, e, rest) else (take n d, None, (drop n d, e) # rest))"

definition conn_bytes :: "conn_in \<Rightarrow> string" where
  "conn_bytes c = concat (map fst c)"

subsection \<open>State\<close>

record tcp_reader =
  rbuf :: string
  rsrc :: conn_in
  rpos :: nat
  wpos :: nat
  rerr :: "go_err option"
  lastByte :: int

definition defaultBufSize :: nat where "defaultBufSize = 4096"
definition minReadBufferSize :: nat where "minReadBufferSize = 16"
definition maxConsecutiveEmptyReads :: nat where "maxConsecutiveEmptyReads = 100"

definition Reader_reset :: "string \<Rightarrow> conn_in \<Rightarrow> tcp_reader" where
  "Reader_reset b src =
     \<lparr>rbuf = b, rsrc = src, rpos = 0, wpos = 0, rerr = None, lastByte = -1\<rparr>"

text \<open>The reader is never stacked on another one, so the reuse test is always false.\<close>

definition NewReaderSize :: "conn_in \<Rightarrow> nat \<Rightarrow> tcp_reader" where
  "NewReaderSize src sz =
     (let sz = (if sz < minReadBufferSize then minReadBufferSize else sz)
      in Reader_reset (replicate sz (char_of (0 :: nat))) src)"

definition NewReader :: "conn_in \<Rightarrow> tcp_reader" where
  "NewReader src = NewReaderSize src defaultBufSize"

definition NewReaderWithBuf :: "conn_in \<Rightarrow> string \<Rightarrow> tcp_reader" where
  "NewReaderWithBuf src b = (Reader_reset b src)\<lparr>wpos := length b\<rparr>"

subsection \<open>Operations\<close>

definition readErr :: "tcp_reader \<Rightarrow> go_err option \<times> tcp_reader" where
  "readErr b = (rerr b, b\<lparr>rerr := None\<rparr>)"

definition Buffered :: "tcp_reader \<Rightarrow> nat" where
  "Buffered b = wpos b - rpos b"

definition unread :: "tcp_reader \<Rightarrow> string" where
  "unread b = take (wpos b - rpos b) (drop (rpos b) (rbuf b))"

definition byte_int :: "char \<Rightarrow> int" where
  "byte_int c = of_char c"

definition store_bytes :: "string \<Rightarrow> nat \<Rightarrow> string \<Rightarrow> string" where
  "store_bytes b i d = take i b @ d @ drop (i + length d) b"

text \<open>The last two statements of \<open>Read\<close>: copy out of the buffer.\<close>

definition read_copy :: "nat \<Rightarrow> tcp_reader \<Rightarrow> string \<times> go_err option \<times> tcp_reader" where
  "read_copy len_p b =
     (let n = min len_p (wpos b - rpos b);
          d = take n (drop (rpos b) (rbuf b));
          b = b\<lparr>rpos := rpos b + n\<rparr>
      in (d, None, b\<lparr>lastByte := byte_int (rbuf b ! (rpos b - 1))\<rparr>))"

definition Reader_Read :: "nat \<Rightarrow> tcp_reader \<Rightarrow> string \<times> go_err option \<times> tcp_reader" where
  "Reader_Read len_p b =
     (if len_p = 0 then ([], Some (ErrMsg ''read buf len is 0''), b)
      else if rpos b = wpos b then
        (if rerr b \<noteq> None then ([], readErr b)
         else if length (rbuf b) \<le> len_p then
           let (d, e, src) = conn_read len_p (rsrc b);
               b = b\<lparr>rsrc := src, rerr := e\<rparr>;
               b = (if d \<noteq> [] then b\<lparr>lastByte := byte_int (last d)\<rparr> else b)
           in (d, readErr b)
         else
           let b = b\<lparr>rpos := 0, wpos := 0\<rparr>;
               (d, e, src) = conn_read (length (rbuf b)) (rsrc b);
               b = b\<lparr>rsrc := src, rerr := e, rbuf := store_bytes (rbuf b) 0 d\<rparr>
           in if d = [] then ([], readErr b)
              else read_copy len_p (b\<lparr>wpos := wpos b + length d\<rparr>))
      else read_copy len_p b)"

fun fill_loop :: "nat \<Rightarrow> tcp_reader \<Rightarrow> tcp_reader" where
  "fill_loop 0 b = b\<lparr>rerr := Some ErrNoProgress\<rparr>"
| "fill_loop (Suc i) b =
     (let (d, e, src) = conn_read (length (rbuf b) - wpos b) (rsrc b);
          b = b\<lparr>rsrc := src, rbuf := store_bytes (rbuf b) (wpos b) d, wpos := wpos b + length d\<rparr>
      in if e \<noteq> None then b\<lparr>rerr := e\<rparr>
         else if d \<noteq> [] then b
         else fill_loop i b)"

definition slide :: "tcp_reader \<Rightarrow> tcp_reader" where
  "slide b =
     (if 0 < rpos b
      then b\<lparr>rbuf := store_bytes (rbuf b) 0 (unread b), wpos := wpos b - rpos b, rpos := 0\<rparr>
      else b)"

definition fill :: "tcp_reader \<Rightarrow> tcp_reader" where
  "fill b = fill_loop maxConsecutiveEmptyReads (slide b)"

definition set_lastByte :: "string \<Rightarrow> tcp_reader \<Rightarrow> tcp_reader" where
  "set_lastByte line b = (if line \<noteq> [] then b\<lparr>lastByte := byte_int (last line)\<rparr> else b)"

text \<open>What termination of the filling loops rests on: a fill adds a byte or sets the error.\<close>

definition fill_room :: "tcp_reader \<Rightarrow> nat" where
  "fill_room b = (if rerr b = None then 1 + (length (rbuf b) - Buffered b) else 0)"

lemma conn_read_length: "conn_read n c = (d, e, c') \<Longrightarrow> length d \<le> n"
  by (cases "(n, c)" rule: conn_read.cases) (auto split: if_splits)

lemma length_store_bytes [simp]: "i + length d \<le> length b \<Longrightarrow> length (store_bytes b i d) = length b"
  by (simp add: store_bytes_def)

lemma store_bytes_Nil [simp]: "store_bytes b i [] = b"
  by (simp add: store_bytes_def)

lemma fill_loop_progress:
  assumes "wpos b < length (rbuf b)" and "rpos b = 0"
  shows "length (rbuf (fill_loop i b)) = length (rbuf b) \<and> rpos (fill_loop i b) = 0
    \<and> wpos b \<le> wpos (fill_loop i b) \<and> wpos (fill_loop i b) \<le> length (rbuf b)
    \<and> (rerr (fill_loop i b) \<noteq> None \<or> wpos b < wpos (fill_loop i b))"
  using assms
proof (induction i b rule: fill_loop.induct)
  case (1 b)
  then show ?case by simp
next
  case (2 i b)
  obtain d e src where r: "conn_read (length (rbuf b) - wpos b) (rsrc b) = (d, e, src)"
    by (cases "conn_read (length (rbuf b) - wpos b) (rsrc b)") auto
  from conn_read_length [OF r] have "wpos b + length d \<le> length (rbuf b)"
    using "2.prems" by simp
  with 2 r show ?case by (auto simp: Let_def)
qed

lemma length_unread: "wpos b \<le> length (rbuf b) \<Longrightarrow> length (unread b) = Buffered b"
  by (simp add: unread_def Buffered_def)
lemma length_unread_le: "length (unread b) \<le> length (rbuf b)"
  by (simp add: unread_def)

lemma slide_simps [simp]:
  "rpos (slide b) = 0" "wpos (slide b) = Buffered b" "length (rbuf (slide b)) = length (rbuf b)"
  "rerr (slide b) = rerr b" "rsrc (slide b) = rsrc b" "lastByte (slide b) = lastByte b"
  by (auto simp: slide_def Buffered_def length_unread_le)

lemma fill_guard: "Buffered b < length (rbuf b) \<Longrightarrow> wpos (slide b) < length (rbuf (slide b))"
  by simp

lemma fill_progress:
  assumes "Buffered b < length (rbuf b)"
  shows "length (rbuf (fill b)) = length (rbuf b) \<and> rpos (fill b) = 0
    \<and> Buffered b \<le> wpos (fill b) \<and> wpos (fill b) \<le> length (rbuf b)
    \<and> (rerr (fill b) \<noteq> None \<or> Buffered b < wpos (fill b))"
  using fill_loop_progress [of "slide b" maxConsecutiveEmptyReads] assms
  by (simp add: fill_def)

lemma fill_room_fill:
  "Buffered b < length (rbuf b) \<Longrightarrow> rerr b = None \<Longrightarrow> fill_room (fill b) < fill_room b"
  using fill_progress [of b] by (auto simp: fill_room_def Buffered_def)

text \<open>
  The loop of \<open>ReadSlice\<close>; \<open>s\<close> is the index the search starts at. It returns the slice and
  the error before the last byte is recorded.
\<close>

function ReadSlice_loop :: "char \<Rightarrow> nat \<Rightarrow> tcp_reader \<Rightarrow> string \<times> go_err option \<times> tcp_reader" where
  "ReadSlice_loop delim s b =
     (case find_byte delim (take (wpos b - (rpos b + s)) (drop (rpos b + s) (rbuf b))) of
        Some i \<Rightarrow>
          let i = i + s
          in (take (i + 1) (drop (rpos b) (rbuf b)), None, b\<lparr>rpos := rpos b + (i + 1)\<rparr>)
      | None \<Rightarrow>
          if rerr b \<noteq> None then
            (unread b, readErr (b\<lparr>rpos := wpos b\<rparr>))
          else if length (rbuf b) \<le> Buffered b then
            (rbuf b, Some ErrBufferFull, b\<lparr>rpos := wpos b\<rparr>)
          else ReadSlice_loop delim (wpos b - rpos b) (fill b))"
  by pat_completeness auto
termination
  by (relation "measure (\<lambda>(delim, s, b). fill_room b)") (auto intro!: fill_room_fill)

declare ReadSlice_loop.simps [simp del]

definition ReadSlice :: "char \<Rightarrow> tcp_reader \<Rightarrow> string \<times> go_err option \<times> tcp_reader" where
  "ReadSlice delim b =
     (let (line, err, b) = ReadSlice_loop delim 0 b in (line, err, set_lastByte line b))"

definition drop_break :: "string \<Rightarrow> string" where
  "drop_break line =
     (if last line = CHR 0x0A then
        (let drop = (if length line > 1 \<and> line ! (length line - 2) = CHR 0x0D then 2 else 1)
         in take (length line - drop) line)
      else line)"

definition Reader_ReadLine ::
  "bool \<Rightarrow> tcp_reader \<Rightarrow> string \<times> bool \<times> go_err option \<times> tcp_reader" where
  "Reader_ReadLine dropBreak b =
     (let (line, err, b) = ReadSlice CHR 0x0A b
      in if err = Some ErrBufferFull then
           (if line \<noteq> [] \<and> last line = CHR 0x0D
            then (butlast line, True, None, b\<lparr>rpos := rpos b - 1\<rparr>)
            else (line, True, None, b))
         else if line = [] then ([], False, err, b)
         else if dropBreak then (drop_break line, False, None, b)
         else (line, False, None, b))"

function Peek_loop :: "nat \<Rightarrow> tcp_reader \<Rightarrow> tcp_reader" where
  "Peek_loop n b =
     (if wpos b - rpos b < n \<and> wpos b - rpos b < length (rbuf b) \<and> rerr b = None
      then Peek_loop n (fill b) else b)"
  by pat_completeness auto
termination
  by (relation "measure (\<lambda>(n, b). fill_room b)") (auto intro!: fill_room_fill simp: Buffered_def)

declare Peek_loop.simps [simp del]

definition Peek :: "int \<Rightarrow> tcp_reader \<Rightarrow> string \<times> go_err option \<times> tcp_reader" where
  "Peek n b =
     (if n < 0 then ([], Some ErrNegativeCount, b)
      else
        let b = Peek_loop (nat n) (b\<lparr>lastByte := -1\<rparr>)
        in if int (length (rbuf b)) < n then (unread b, Some ErrBufferFull, b)
           else if int (Buffered b) < n then
             (let avail = Buffered b;
                  (err, b) = readErr b;
                  err = (if err = None then Some ErrBufferFull else err)
              in (take avail (drop (rpos b) (rbuf b)), err, b))
           else (take (nat n) (drop (rpos b) (rbuf b)), None, b))"

definition UnreadBuf :: "int \<Rightarrow> tcp_reader \<Rightarrow> string \<times> tcp_reader" where
  "UnreadBuf mx b =
     (if mx = 0 then ([], b)
      else
        let (data, b) =
              (if mx > 0 \<and> int (Buffered b) > mx
               then (take (nat mx) (drop (rpos b) (rbuf b)), b\<lparr>rpos := rpos b + nat mx\<rparr>)
               else (unread b, b\<lparr>rpos := wpos b\<rparr>))
        in (data, set_lastByte data b))"

subsection \<open>Invariant and the bytes still to come\<close>

definition reader_inv :: "tcp_reader \<Rightarrow> bool" where
  "reader_inv b \<longleftrightarrow> rpos b \<le> wpos b \<and> wpos b \<le> length (rbuf b)"

definition pending :: "tcp_reader \<Rightarrow> string" where
  "pending b = unread b @ conn_bytes (rsrc b)"

text \<open>
  \<open>consumes b d b'\<close>: an operation that hands out the bytes \<open>d\<close> takes the reader from \<open>b\<close>
  to \<open>b'\<close>; it keeps the invariant and the buffer size, what was to come before is \<open>d\<close>
  followed by what is to come after, and nothing is put back into the connection.
\<close>

definition consumes :: "tcp_reader \<Rightarrow> string \<Rightarrow> tcp_reader \<Rightarrow> bool" where
  "consumes b d b' \<longleftrightarrow>
     reader_inv b' \<and> length (rbuf b') = length (rbuf b) \<and> pending b = d @ pending b'
     \<and> length (conn_bytes (rsrc b')) \<le> length (conn_bytes (rsrc b))"

lemma consumesI:
  "reader_inv b' \<Longrightarrow> length (rbuf b') = length (rbuf b) \<Longrightarrow> pending b = d @ pending b' \<Longrightarrow>
   length (conn_bytes (rsrc b')) \<le> length (conn_bytes (rsrc b)) \<Longrightarrow> consumes b d b'"
  by (simp add: consumes_def)

lemma consumes_inv: "consumes b d b' \<Longrightarrow> reader_inv b'"
  by (simp add: consumes_def)

lemma consumes_pending: "consumes b d b' \<Longrightarrow> pending b = d @ pending b'"
  by (simp add: consumes_def)

lemma consumes_refl: "reader_inv b \<Longrightarrow> consumes b [] b"
  by (simp add: consumes_def)

lemma consumes_trans: "consumes a d b \<Longrightarrow> consumes b e c \<Longrightarrow> consumes a (d @ e) c"
  by (simp add: consumes_def)

lemma consumes_trans0: "consumes a [] b \<Longrightarrow> consumes b e c \<Longrightarrow> consumes a e c"
  using consumes_trans [of a "[]" b e c] by simp

lemma conn_read_bytes: "conn_read n c = (d, e, c') \<Longrightarrow> conn_bytes c = d @ conn_bytes c'"
  by (cases "(n, c)" rule: conn_read.cases) (auto simp: conn_bytes_def split: if_splits)

lemma reader_inv_simps [simp]:
  "reader_inv (b\<lparr>rerr := e\<rparr>) = reader_inv b" "reader_inv (b\<lparr>lastByte := l\<rparr>) = reader_inv b"
  "reader_inv (b\<lparr>rsrc := s\<rparr>) = reader_inv b"
  by (auto simp: reader_inv_def)

lemma unread_simps [simp]:
  "unread (b\<lparr>rerr := e\<rparr>) = unread b" "unread (b\<lparr>lastByte := l\<rparr>) = unread b"
  "unread (b\<lparr>rsrc := s\<rparr>) = unread b"
  by (auto simp: unread_def)

lemma pending_simps [simp]:
  "pending (b\<lparr>rerr := e\<rparr>) = pending b" "pending (b\<lparr>lastByte := l\<rparr>) = pending b"
  by (auto simp: pending_def)

lemma consumes_simps [simp]:
  "consumes b d (b'\<lparr>rerr := e\<rparr>) = consumes b d b'"
  "consumes b d (b'\<lparr>lastByte := l\<rparr>) = consumes b d b'"
  "consumes (b\<lparr>rerr := e\<rparr>) d b' = consumes b d b'"
  "consumes (b\<lparr>lastByte := l\<rparr>) d b' = consumes b d b'"
  by (auto simp: consumes_def)

lemma consumes_set_lastByte [simp]: "consumes b d (set_lastByte line b') = consumes b d b'"
  by (simp add: set_lastByte_def)

lemma unread_empty: "rpos b = wpos b \<Longrightarrow> unread b = []"
  by (simp add: unread_def)

lemma length_unread_inv: "reader_inv b \<Longrightarrow> length (unread b) = wpos b - rpos b"
  by (auto simp: unread_def reader_inv_def)

text \<open>Advancing the read position hands out a prefix of the unread bytes.\<close>

lemma consumes_advance:
  assumes "reader_inv b" and "n \<le> wpos b - rpos b"
  shows "consumes b (take n (drop (rpos b) (rbuf b))) (b\<lparr>rpos := rpos b + n\<rparr>)"
proof -
  have "take (wpos b - rpos b) (drop (rpos b) (rbuf b)) =
      take n (drop (rpos b) (rbuf b)) @ take (wpos b - rpos b - n) (drop n (drop (rpos b) (rbuf b)))"
    using assms(2) by (metis le_add_diff_inverse take_add)
  then show ?thesis using assms
    by (auto simp: consumes_def reader_inv_def pending_def unread_def diff_diff_left add.commute)
qed

lemma consumes_all:
  "reader_inv b \<Longrightarrow> consumes b (unread b) (b\<lparr>rpos := wpos b\<rparr>)"
  using consumes_advance [of b "wpos b - rpos b"] by (simp add: unread_def reader_inv_def)

lemma unread_store:
  assumes "rpos b \<le> wpos b" and "wpos b + length d \<le> length (rbuf b)"
  shows "unread (b\<lparr>rbuf := store_bytes (rbuf b) (wpos b) d, wpos := wpos b + length d\<rparr>) = unread b @ d"
  using assms by (simp add: unread_def store_bytes_def min_absorb2 drop_take)

lemma slide_unread [simp]: "reader_inv b \<Longrightarrow> unread (slide b) = unread b"
  by (auto simp: slide_def unread_def store_bytes_def reader_inv_def)

lemma slide_inv [simp]: "reader_inv b \<Longrightarrow> reader_inv (slide b)"
  by (auto simp: reader_inv_def Buffered_def)

lemma fill_loop_consumes:
  assumes "reader_inv b" and "rpos b = 0"
  shows "consumes b [] (fill_loop i b) \<and> (\<exists>d. unread (fill_loop i b) = unread b @ d)"
  using assms
proof (induction i b rule: fill_loop.induct)
  case (1 b)
  then show ?case by (simp add: consumes_refl)
next
  case (2 i b)
  obtain d e src where r: "conn_read (length (rbuf b) - wpos b) (rsrc b) = (d, e, src)"
    by (cases "conn_read (length (rbuf b) - wpos b) (rsrc b)") auto
  define b1 where "b1 = b\<lparr>rsrc := src, rbuf := store_bytes (rbuf b) (wpos b) d, wpos := wpos b + length d\<rparr>"
  have len: "wpos b + length d \<le> length (rbuf b)"
    using conn_read_length [OF r] "2.prems" by (simp add: reader_inv_def)
  have u: "unread b1 = unread b @ d"
    using unread_store [of "b\<lparr>rsrc := src\<rparr>" d] "2.prems" len by (simp add: b1_def reader_inv_def)
  have c1: "consumes b [] b1"
    using len u conn_read_bytes [OF r] "2.prems"
    by (auto simp: b1_def consumes_def pending_def reader_inv_def)
  then have b1: "reader_inv b1" "rpos b1 = 0" using "2.prems" by (auto simp: consumes_inv b1_def)
  show ?case
  proof (cases "e \<noteq> None \<or> d \<noteq> []")
    case True
    then show ?thesis using r c1 u by (auto simp: Let_def simp flip: b1_def)
  next
    case False
    then have "fill_loop (Suc i) b = fill_loop i b1" using r by (simp add: b1_def)
    moreover have "consumes b1 [] (fill_loop i b1) \<and> (\<exists>d. unread (fill_loop i b1) = unread b1 @ d)"
      using 2 r False b1 by (auto simp: b1_def)
    ultimately show ?thesis using c1 u by (auto intro: consumes_trans0)
  qed
qed

lemma slide_consumes: "reader_inv b \<Longrightarrow> consumes b [] (slide b)"
  by (simp add: consumes_def pending_def)

lemma fill_consumes: "reader_inv b \<Longrightarrow> consumes b [] (fill b) \<and> (\<exists>d. unread (fill b) = unread b @ d)"
  using fill_loop_consumes [of "slide b" maxConsecutiveEmptyReads] slide_consumes [of b]
  by (auto simp: fill_def intro: consumes_trans0)

subsection \<open>ReadSlice\<close>

lemma take_wpos_unread: "reader_inv b \<Longrightarrow> take (wpos b) (rbuf b) = take (rpos b) (rbuf b) @ unread b"
  by (metis le_add_diff_inverse reader_inv_def take_add unread_def)

lemma ReadSlice_search:
  "reader_inv b \<Longrightarrow> take (wpos b - (rpos b + s)) (drop (rpos b + s) (rbuf b)) = drop s (unread b)"
  by (simp add: unread_def drop_take add.commute)

lemma ReadSlice_loop_spec:
  assumes "reader_inv b" and "delim \<notin> set (take s (unread b))"
    and "ReadSlice_loop delim s b = (line, err, b')"
  shows "consumes b line b' \<and>
    (if err = None then \<exists>l. line = l @ [delim] \<and> delim \<notin> set l else delim \<notin> set line)
    \<and> (err \<noteq> None \<longrightarrow> rpos b' = wpos b' \<and> (\<exists>x. take (wpos b') (rbuf b') = x @ line))"
  using assms
proof (induction delim s b rule: ReadSlice_loop.induct)
  case (1 delim s b)
  note search = ReadSlice_search [OF "1.prems"(1)]
  show ?case
  proof (cases "find_byte delim (drop s (unread b))")
    case (Some i)
    let ?u = "unread b"
    from find_byte_SomeD [OF Some] have i: "i < length ?u - s" "?u ! (s + i) = delim"
      "delim \<notin> set (take i (drop s ?u))" by auto
    then have n: "s + i < wpos b - rpos b" using length_unread_inv [OF "1.prems"(1)] by simp
    have line: "line = take (i + s + 1) (drop (rpos b) (rbuf b))" "err = None"
      "b' = b\<lparr>rpos := rpos b + (i + s + 1)\<rparr>"
      using "1.prems"(3) Some search by (auto simp: ReadSlice_loop.simps [of delim s b] Let_def)
    have "take (i + s + 1) (drop (rpos b) (rbuf b)) = take (i + s + 1) ?u"
      using n by (simp add: unread_def)
    also have "\<dots> = take (s + i) ?u @ [delim]"
      using i n by (simp add: take_Suc_conv_app_nth add.commute)
    finally have "line = take (s + i) ?u @ [delim]" using line by simp
    moreover have "delim \<notin> set (take (s + i) ?u)"
      using i(3) "1.prems"(2) by (simp add: take_add)
    ultimately show ?thesis
      using line consumes_advance [OF "1.prems"(1), of "i + s + 1"] n by auto
  next
    case None
    then have nd: "delim \<notin> set (unread b)"
      using "1.prems"(2) append_take_drop_id [of s "unread b"]
      by (metis Un_iff find_byte_None_iff set_append)
    show ?thesis
    proof (cases "rerr b \<noteq> None")
      case True
      then show ?thesis
        using "1.prems" None search nd consumes_all [OF "1.prems"(1)]
        by (auto simp: ReadSlice_loop.simps [of delim s b] readErr_def take_wpos_unread)
    next
      case False
      show ?thesis
      proof (cases "length (rbuf b) \<le> Buffered b")
        case True
        with "1.prems"(1) have "rpos b = 0" "wpos b = length (rbuf b)"
          by (auto simp: reader_inv_def Buffered_def)
        then have "unread b = rbuf b" by (simp add: unread_def)
        then show ?thesis
          using False True "1.prems" None search nd consumes_all [OF "1.prems"(1)]
            \<open>wpos b = length (rbuf b)\<close>
          by (auto simp: ReadSlice_loop.simps [of delim s b])
      next
        case f: False
        have fc: "consumes b [] (fill b)" and "\<exists>d. unread (fill b) = unread b @ d"
          using fill_consumes [OF "1.prems"(1)] by auto
        then have "delim \<notin> set (take (wpos b - rpos b) (unread (fill b)))"
          using nd length_unread_inv [OF "1.prems"(1)] by auto
        moreover have "ReadSlice_loop delim (wpos b - rpos b) (fill b) = (line, err, b')"
          using False f None search "1.prems"(3) by (simp add: ReadSlice_loop.simps [of delim s b])
        ultimately show ?thesis
          using "1.IH" None search False f fc by (auto simp: consumes_inv intro: consumes_trans0)
      qed
    qed
  qed
qed

lemma ReadSlice_spec:
  assumes "reader_inv b" and "ReadSlice delim b = (line, err, b')"
  shows "consumes b line b'"
    and "err = None \<Longrightarrow> \<exists>l. line = l @ [delim] \<and> delim \<notin> set l"
    and "err \<noteq> None \<Longrightarrow> delim \<notin> set line"
    and "err \<noteq> None \<Longrightarrow> rpos b' = wpos b' \<and> (\<exists>x. take (wpos b') (rbuf b') = x @ line)"
proof -
  obtain l e c where r: "ReadSlice_loop delim 0 b = (l, e, c)" by (cases "ReadSlice_loop delim 0 b")
  then have eq: "line = l" "err = e" "b' = set_lastByte l c"
    using assms(2) by (auto simp: ReadSlice_def)
  note spec = ReadSlice_loop_spec [OF assms(1) _ r]
  show "consumes b line b'" using spec eq by simp
  show "err = None \<Longrightarrow> \<exists>l. line = l @ [delim] \<and> delim \<notin> set l" using spec eq by simp
  show "err \<noteq> None \<Longrightarrow> delim \<notin> set line" using spec eq by auto
  show "err \<noteq> None \<Longrightarrow> rpos b' = wpos b' \<and> (\<exists>x. take (wpos b') (rbuf b') = x @ line)"
    using spec eq by (auto simp: set_lastByte_def)
qed

text \<open>A full buffer without the delimiter leaves the read position past the slice's bytes.\<close>

lemma ReadSlice_full_pos:
  assumes "reader_inv b" and "ReadSlice delim b = (line, Some e, b')" and "line \<noteq> []"
  shows "0 < rpos b'"
  using ReadSlice_spec(4) [OF assms(1,2)] assms(3) by (cases "rpos b'") auto

text \<open>Putting the last byte of the slice back.\<close>

lemma consumes_putback:
  assumes "consumes b line b'" and "rpos b' = wpos b'" and "line \<noteq> []"
    and "\<exists>x. take (wpos b') (rbuf b') = x @ line"
  shows "consumes b (butlast line) (b'\<lparr>rpos := rpos b' - 1\<rparr>)
    \<and> unread (b'\<lparr>rpos := rpos b' - 1\<rparr>) = [last line]"
proof -
  obtain x where x: "take (wpos b') (rbuf b') = x @ butlast line @ [last line]"
    using assms(3,4) by auto
  have inv: "reader_inv b'" using assms(1) by (rule consumes_inv)
  then have w: "wpos b' = Suc (length (x @ butlast line))"
    using arg_cong [OF x, of length] by (simp add: reader_inv_def min_absorb2)
  have "unread (b'\<lparr>rpos := rpos b' - 1\<rparr>) = drop (wpos b' - 1) (take (wpos b') (rbuf b'))"
    using w assms(2) by (simp add: unread_def drop_take)
  also have "\<dots> = [last line]" unfolding x using w by simp
  finally have u: "unread (b'\<lparr>rpos := rpos b' - 1\<rparr>) = [last line]" .
  have "unread b' = []" using assms(2) by (rule unread_empty)
  with u assms(1,3) inv show ?thesis
    by (auto simp: consumes_def pending_def reader_inv_def)
qed

subsection \<open>ReadLine\<close>

text \<open>The end of line that \<open>drop_break\<close> removes.\<close>

definition is_break :: "string \<Rightarrow> bool" where
  "is_break br \<longleftrightarrow> br = [] \<or> br = [CHR 0x0A] \<or> br = [CHR 0x0D, CHR 0x0A]"

lemma drop_break_spec:
  assumes "line \<noteq> []"
  shows "\<exists>br. line = drop_break line @ br \<and> is_break br
    \<and> (last line = CHR 0x0A \<longrightarrow> br \<noteq> [])"
proof (cases "last line = CHR 0x0A")
  case False
  then show ?thesis by (simp add: drop_break_def is_break_def)
next
  case True
  then obtain l where l: "line = l @ [CHR 0x0A]" using assms by (metis append_butlast_last_id)
  show ?thesis
  proof (cases "l \<noteq> [] \<and> last l = CHR 0x0D")
    case True
    then obtain k where "l = k @ [CHR 0x0D]" by (metis append_butlast_last_id)
    with l show ?thesis
      by (intro exI [of _ "[CHR 0x0D, CHR 0x0A]"]) (simp add: drop_break_def is_break_def nth_append)
  next
    case False
    with l show ?thesis
      by (intro exI [of _ "[CHR 0x0A]"])
        (auto simp: drop_break_def is_break_def nth_append last_conv_nth)
  qed
qed

lemma Reader_ReadLine_spec:
  assumes "reader_inv b" and "Reader_ReadLine dropBreak b = (line, isPre, err, b')"
  shows "\<exists>br. consumes b (line @ br) b' \<and> is_break br \<and> (isPre \<or> \<not> dropBreak \<longrightarrow> br = [])"
    and "isPre \<Longrightarrow> err = None \<and> CHR 0x0A \<notin> set line"
    and "err \<noteq> None \<Longrightarrow> line = [] \<and> \<not> isPre"
proof -
  obtain l e c where r: "ReadSlice CHR 0x0A b = (l, e, c)" by (cases "ReadSlice CHR 0x0A b")
  note spec = ReadSlice_spec [OF assms(1) r]
  show "\<exists>br. consumes b (line @ br) b' \<and> is_break br \<and> (isPre \<or> \<not> dropBreak \<longrightarrow> br = [])"
  proof (cases "e = Some ErrBufferFull")
    case True
    then show ?thesis
      using assms(2) r spec(1,4) consumes_putback [OF spec(1)]
      by (auto simp: Reader_ReadLine_def is_break_def split: if_splits)
  next
    case False
    show ?thesis
    proof (cases "l = [] \<or> \<not> dropBreak")
      case True
      then show ?thesis
        using False assms(2) r spec(1) by (auto simp: Reader_ReadLine_def is_break_def split: if_splits)
    next
      case db: False
      from db obtain br where br: "l = drop_break l @ br" "is_break br"
        using drop_break_spec [of l] by auto
      moreover have "line = drop_break l" "b' = c" "\<not> isPre"
        using False db assms(2) r by (auto simp: Reader_ReadLine_def)
      ultimately have "consumes b (line @ br) b'" using spec(1) by metis
      with br(2) db \<open>\<not> isPre\<close> show ?thesis by auto
    qed
  qed
  show "isPre \<Longrightarrow> err = None \<and> CHR 0x0A \<notin> set line"
    using assms(2) r spec(3)
    by (auto simp: Reader_ReadLine_def dest: in_set_butlastD split: if_splits)
  show "err \<noteq> None \<Longrightarrow> line = [] \<and> \<not> isPre"
    using assms(2) r by (auto simp: Reader_ReadLine_def split: if_splits)
qed

subsection \<open>Read, Peek and UnreadBuf\<close>

lemma read_copy_spec:
  assumes "reader_inv b" and "read_copy n b = (d, e, b')"
  shows "consumes b d b' \<and> length d \<le> n \<and> e = None \<and> (0 < n \<and> unread b \<noteq> [] \<longrightarrow> d \<noteq> [])"
proof -
  have eq: "d = take (min n (wpos b - rpos b)) (drop (rpos b) (rbuf b))" "e = None"
    "b' = b\<lparr>rpos := rpos b + min n (wpos b - rpos b),
            lastByte := byte_int (rbuf b ! (rpos b + min n (wpos b - rpos b) - 1))\<rparr>"
    using assms(2) by (auto simp: read_copy_def Let_def)
  have "length d \<le> n" by (simp add: eq)
  moreover have "0 < n \<and> unread b \<noteq> [] \<longrightarrow> d \<noteq> []"
    using assms(1) by (auto simp: eq unread_def reader_inv_def)
  moreover have "consumes b d b'"
    using consumes_advance [OF assms(1), of "min n (wpos b - rpos b)"] by (simp add: eq(1,3))
  ultimately show ?thesis using eq(2) by simp
qed

lemma Reader_Read_spec:
  assumes "reader_inv b" and "Reader_Read n b = (d, e, b')"
  shows "consumes b d b' \<and> length d \<le> n"
proof (cases "n = 0 \<or> rpos b \<noteq> wpos b \<or> rerr b \<noteq> None")
  case True
  then show ?thesis
    using assms read_copy_spec [OF assms(1)]
    by (auto simp: Reader_Read_def readErr_def consumes_refl split: if_splits)
next
  case False
  then have u: "unread b = []" by (simp add: unread_def)
  show ?thesis
  proof (cases "length (rbuf b) \<le> n")
    case True
    obtain d1 e1 src where r: "conn_read n (rsrc b) = (d1, e1, src)"
      by (cases "conn_read n (rsrc b)")
    then show ?thesis
      using assms False True u conn_read_bytes [OF r] conn_read_length [OF r]
      by (auto simp: Reader_Read_def readErr_def Let_def consumes_def pending_def split: if_splits)
  next
    case small: False
    obtain d1 e1 src where r: "conn_read (length (rbuf b)) (rsrc b) = (d1, e1, src)"
      by (cases "conn_read (length (rbuf b)) (rsrc b)")
    define b1 where "b1 = b\<lparr>rpos := 0, rsrc := src, rerr := e1,
      rbuf := store_bytes (rbuf b) 0 d1, wpos := length d1\<rparr>"
    have len: "length d1 \<le> length (rbuf b)" by (rule conn_read_length [OF r])
    have "unread b1 = d1" by (simp add: b1_def unread_def store_bytes_def)
    then have c1: "consumes b [] b1"
      using len u conn_read_bytes [OF r]
      by (auto simp: consumes_def pending_def b1_def reader_inv_def)
    show ?thesis
    proof (cases "d1 = []")
      case True
      then show ?thesis
        using assms False small r c1
        by (auto simp: Reader_Read_def readErr_def Let_def b1_def consumes_def pending_def
            reader_inv_def unread_def)
    next
      case nonempty: False
      then have "read_copy n b1 = (d, e, b')"
        using assms(2) False small r by (auto simp: Reader_Read_def Let_def b1_def)
      then show ?thesis
        using read_copy_spec [OF consumes_inv [OF c1]] c1 by (blast intro: consumes_trans0)
    qed
  qed
qed

lemma Peek_loop_consumes: "reader_inv b \<Longrightarrow> consumes b [] (Peek_loop n b)"
proof (induction n b rule: Peek_loop.induct)
  case (1 n b)
  then show ?case
    using fill_consumes [of b]
    by (subst Peek_loop.simps) (auto intro: consumes_trans0 consumes_inv consumes_refl)
qed

lemma Peek_spec:
  assumes "reader_inv b" and "Peek n b = (d, e, b')"
  shows "consumes b [] b' \<and> (\<exists>x. unread b' = d @ x) \<and> (e = None \<longrightarrow> int (length d) = n)
    \<and> (0 \<le> n \<longrightarrow> int (length d) \<le> n \<or> e = Some ErrBufferFull)"
proof (cases "n < 0")
  case True
  then show ?thesis using assms by (auto simp: Peek_def consumes_refl)
next
  case False
  define c where "c = Peek_loop (nat n) (b\<lparr>lastByte := -1\<rparr>)"
  have c: "consumes b [] c"
    using Peek_loop_consumes [of "b\<lparr>lastByte := -1\<rparr>"] assms(1) by (simp add: c_def)
  have len: "length (unread c) = Buffered c"
    using c by (simp add: Buffered_def consumes_inv length_unread_inv)
  have pre: "m \<le> Buffered c \<Longrightarrow> take m (drop (rpos c) (rbuf c)) = take m (unread c)" for m
    by (simp add: unread_def Buffered_def)
  have "\<exists>x. unread c = take m (unread c) @ x" for m by (metis append_take_drop_id)
  with assms(2) False c len pre show ?thesis
    by (auto simp: Peek_def Let_def readErr_def simp flip: c_def split: if_splits)
qed

lemma UnreadBuf_spec:
  assumes "reader_inv b" and "UnreadBuf mx b = (d, b')"
  shows "consumes b d b' \<and> d = (if mx < 0 then unread b else take (nat mx) (unread b))"
proof -
  have "mx > 0 \<and> int (Buffered b) > mx \<Longrightarrow>
      consumes b (take (nat mx) (drop (rpos b) (rbuf b))) (b\<lparr>rpos := rpos b + nat mx\<rparr>)"
    using assms(1) by (intro consumes_advance) (auto simp: Buffered_def)
  moreover have "mx > 0 \<and> \<not> int (Buffered b) > mx \<Longrightarrow> take (nat mx) (unread b) = unread b"
    using length_unread_inv [OF assms(1)] by (auto simp: Buffered_def le_nat_iff)
  moreover have "mx > 0 \<and> int (Buffered b) > mx \<Longrightarrow>
      take (nat mx) (drop (rpos b) (rbuf b)) = take (nat mx) (unread b)"
    by (auto simp: unread_def Buffered_def nat_le_iff min_absorb1)
  ultimately show ?thesis
    using assms consumes_all [OF assms(1)] consumes_refl [OF assms(1)]
    by (auto simp: UnreadBuf_def Let_def split: if_splits)
qed

subsection \<open>Runs of operations\<close>

datatype reader_op =
    OpRead nat
  | OpReadSlice char
  | OpReadLine
  | OpPeek int
  | OpUnreadBuf int

text \<open>What an operation hands out for good; \<open>Peek\<close> hands out nothing.\<close>

fun reader_step :: "reader_op \<Rightarrow> tcp_reader \<Rightarrow> string \<times> tcp_reader" where
  "reader_step (OpRead n) b = (case Reader_Read n b of (d, e, b') \<Rightarrow> (d, b'))"
| "reader_step (OpReadSlice c) b = (case ReadSlice c b of (d, e, b') \<Rightarrow> (d, b'))"
| "reader_step OpReadLine b = (case Reader_ReadLine False b of (d, p, e, b') \<Rightarrow> (d, b'))"
| "reader_step (OpPeek n) b = (case Peek n b of (d, e, b') \<Rightarrow> ([], b'))"
| "reader_step (OpUnreadBuf n) b = UnreadBuf n b"

fun reader_run :: "reader_op list \<Rightarrow> tcp_reader \<Rightarrow> string \<times> tcp_reader" where
  "reader_run [] b = ([], b)"
| "reader_run (op # ops) b =
     (case reader_step op b of (d, b') \<Rightarrow>
        case reader_run ops b' of (ds, b'') \<Rightarrow> (d @ ds, b''))"

lemma reader_step_consumes: "reader_inv b \<Longrightarrow> reader_step op b = (d, b') \<Longrightarrow> consumes b d b'"
  by (cases op)
    (auto split: prod.splits dest: Reader_Read_spec ReadSlice_spec(1) Reader_ReadLine_spec(1)
      Peek_spec UnreadBuf_spec)

lemma reader_run_consumes: "reader_inv b \<Longrightarrow> reader_run ops b = (d, b') \<Longrightarrow> consumes b d b'"
proof (induction ops arbitrary: b d b')
  case Nil
  then show ?case by (simp add: consumes_refl)
next
  case (Cons op ops)
  obtain d1 b1 where 1: "reader_step op b = (d1, b1)" by (cases "reader_step op b")
  obtain d2 b2 where 2: "reader_run ops b1 = (d2, b2)" by (cases "reader_run ops b1")
  have c: "consumes b d1 b1" by (rule reader_step_consumes [OF Cons.prems(1) 1])
  from Cons.IH [OF consumes_inv [OF c] 2] c have "consumes b (d1 @ d2) b2"
    by (blast intro: consumes_trans)
  with Cons.prems(2) 1 2 show ?case by simp
qed

lemma NewReader_inv: "reader_inv (NewReader src)" and pending_NewReader: "pending (NewReader src) = conn_bytes src"
  by (auto simp: NewReader_def NewReaderSize_def Reader_reset_def reader_inv_def pending_def
      unread_def Let_def)

lemma NewReaderWithBuf_inv: "reader_inv (NewReaderWithBuf src pre)"
  and pending_NewReaderWithBuf: "pending (NewReaderWithBuf src pre) = pre @ conn_bytes src"
  by (auto simp: NewReaderWithBuf_def Reader_reset_def reader_inv_def pending_def unread_def)

subsection \<open>The contract of a byte source\<close>

text \<open>
  Go's \<open>io.Reader\<close>, as far as the copying loops use it: a read returns at most the
  number of bytes asked for, and they are the next ones to come. The connection and the
  buffered reader on top of it both provide it.
\<close>

locale byte_source =
  fixes rd :: "nat \<Rightarrow> 's \<Rightarrow> string \<times> go_err option \<times> 's"
    and content :: "'s \<Rightarrow> string"
    and ok :: "'s \<Rightarrow> bool"
  assumes rd_ok: "ok s \<Longrightarrow> rd n s = (d, e, s') \<Longrightarrow> ok s'"
    and rd_length: "ok s \<Longrightarrow> rd n s = (d, e, s') \<Longrightarrow> length d \<le> n"
    and rd_content: "ok s \<Longrightarrow> rd n s = (d, e, s') \<Longrightarrow> content s = d @ content s'"

interpretation conn_source: byte_source conn_read conn_bytes "\<lambda>_. True"
  by unfold_locales (auto dest: conn_read_length conn_read_bytes)

interpretation reader_source: byte_source Reader_Read pending reader_inv
  by unfold_locales (auto dest: Reader_Read_spec consumes_inv consumes_pending)

subsection \<open>Reading from a connection without errors\<close>

definition clean :: "conn_in \<Rightarrow> bool" where
  "clean c \<longleftrightarrow> (\<forall>(d, e) \<in> set c. d \<noteq> [] \<and> e = None)"

lemma conn_read_clean:
  assumes "clean c" and "c \<noteq> []" and "0 < n" and "conn_read n c = (d, e, c')"
  shows "d \<noteq> [] \<and> e = None \<and> clean c'"
  using assms by (cases "(n, c)" rule: conn_read.cases) (auto simp: clean_def split: if_splits)

lemma fill_clean:
  assumes "Buffered b < length (rbuf b)" and "rerr b = None" and "clean (rsrc b)" and "rsrc b \<noteq> []"
  shows "rerr (fill b) = None \<and> clean (rsrc (fill b))"
proof -
  obtain d e src where r: "conn_read (length (rbuf b) - Buffered b) (rsrc b) = (d, e, src)"
    by (cases "conn_read (length (rbuf b) - Buffered b) (rsrc b)")
  have "d \<noteq> [] \<and> e = None \<and> clean src"
    using conn_read_clean [OF assms(3,4) _ r] assms(1) by simp
  then show ?thesis using r assms(2)
    by (simp add: fill_def maxConsecutiveEmptyReads_def numeral_eq_Suc)
qed

lemma ReadSlice_loop_clean:
  assumes "reader_inv b" and "rerr b = None" and "clean (rsrc b)"
    and "delim \<in> set (take (length (rbuf b)) (pending b))" and "delim \<notin> set (take s (unread b))"
    and "ReadSlice_loop delim s b = (line, err, b')"
  shows "err = None \<and> rerr b' = None \<and> clean (rsrc b')"
  using assms
proof (induction delim s b rule: ReadSlice_loop.induct)
  case (1 delim s b)
  note search = ReadSlice_search [OF "1.prems"(1)]
  show ?case
  proof (cases "find_byte delim (drop s (unread b))")
    case (Some i)
    then show ?thesis
      using "1.prems" search by (auto simp: ReadSlice_loop.simps [of delim s b] Let_def)
  next
    case None
    then have nd: "delim \<notin> set (unread b)"
      using "1.prems"(5) append_take_drop_id [of s "unread b"]
      by (metis Un_iff find_byte_None_iff set_append)
    with "1.prems"(4) have "length (unread b) < length (rbuf b)" "conn_bytes (rsrc b) \<noteq> []"
      by (auto simp: pending_def dest: in_set_takeD intro: ccontr)
    then have f: "Buffered b < length (rbuf b)" and "rsrc b \<noteq> []"
      using length_unread_inv [OF "1.prems"(1)] by (auto simp: Buffered_def conn_bytes_def)
    have fc: "consumes b [] (fill b)" and "\<exists>d. unread (fill b) = unread b @ d"
      using fill_consumes [OF "1.prems"(1)] by auto
    then have "delim \<notin> set (take (wpos b - rpos b) (unread (fill b)))"
      using nd length_unread_inv [OF "1.prems"(1)] by auto
    moreover have "ReadSlice_loop delim (wpos b - rpos b) (fill b) = (line, err, b')"
      using f None search "1.prems"(2,6) by (simp add: ReadSlice_loop.simps [of delim s b])
    moreover have "rerr (fill b) = None" "clean (rsrc (fill b))"
      using fill_clean [OF f "1.prems"(2,3) \<open>rsrc b \<noteq> []\<close>] by auto
    moreover have "delim \<in> set (take (length (rbuf (fill b))) (pending (fill b)))"
      using "1.prems"(4) fc by (simp add: consumes_def)
    ultimately show ?thesis
      using "1.IH" None search f fc "1.prems"(2) by (auto simp: consumes_inv)
  qed
qed

text \<open>
  Without errors, what \<open>ReadSlice\<close> returns depends on the bytes to come only, not on how
  the connection cuts them.
\<close>

lemma ReadSlice_clean:
  assumes "reader_inv b" and "rerr b = None" and "clean (rsrc b)"
    and "pending b = l @ delim # rest" and "delim \<notin> set l" and "length l < length (rbuf b)"
  shows "\<exists>b'. ReadSlice delim b = (l @ [delim], None, b') \<and> consumes b (l @ [delim]) b'
    \<and> pending b' = rest \<and> rerr b' = None \<and> clean (rsrc b')"
proof -
  obtain line e b' where r: "ReadSlice delim b = (line, e, b')" by (cases "ReadSlice delim b")
  obtain c where l: "ReadSlice_loop delim 0 b = (line, e, c)" "b' = set_lastByte line c"
    using r by (auto simp: ReadSlice_def split: prod.splits)
  have "delim \<in> set (take (length (rbuf b)) (pending b))"
    using assms(4,6) by (simp add: take_Cons' )
  from ReadSlice_loop_clean [OF assms(1-3) this _ l(1)]
  have e: "e = None" "rerr b' = None" "clean (rsrc b')" by (auto simp: l(2) set_lastByte_def)
  from ReadSlice_spec(1,2) [OF assms(1) r] e obtain k where
    k: "line = k @ [delim]" "delim \<notin> set k" and c: "consumes b line b'" by auto
  have "k @ delim # pending b' = l @ delim # rest"
    using consumes_pending [OF c] assms(4) k(1) by simp
  then have "k = l \<and> pending b' = rest"
    using k(2) assms(5) by (simp add: first_split_unique)
  with r c k(1) e show ?thesis by blast
qed

lemma reader_run_pending:
  "reader_inv b \<Longrightarrow> fst (reader_run ops b) @ pending (snd (reader_run ops b)) = pending b"
  using reader_run_consumes [of b ops] by (cases "reader_run ops b") (simp add: consumes_def)

subsection \<open>Properties\<close>

text \<open>
  C3: the reader neither loses, duplicates nor reorders a byte: for any connection (any
  chunking, empty reads, errors) and any sequence of operations, the bytes handed out
  followed by the bytes still to come are exactly the preset buffer followed by what the
  connection delivers.
\<close>

theorem reader_lossless:
  "fst (reader_run ops (NewReaderWithBuf src pre)) @ pending (snd (reader_run ops (NewReaderWithBuf src pre)))
     = pre @ conn_bytes src
   \<and> fst (reader_run ops (NewReader src)) @ pending (snd (reader_run ops (NewReader src)))
     = conn_bytes src"
  by (simp add: reader_run_pending NewReaderWithBuf_inv NewReader_inv
      pending_NewReader pending_NewReaderWithBuf)

text \<open>
  \<open>ReadSlice\<close> returns an error exactly when the line does not end in the delimiter,
  the delimiter occurs nowhere else in the line, and the line is the next bytes of the
  stream.
\<close>

theorem ReadSlice_err_iff:
  assumes "reader_inv b" and "ReadSlice delim b = (line, err, b')"
  shows "(err = None \<longleftrightarrow> line \<noteq> [] \<and> last line = delim) \<and> delim \<notin> set (butlast line)
    \<and> pending b = line @ pending b'"
proof (cases err)
  case None
  then show ?thesis
    using ReadSlice_spec(1,2) [OF assms] by (auto simp: consumes_def)
next
  case (Some e)
  then show ?thesis
    using ReadSlice_spec(1,3) [OF assms] by (auto simp: consumes_def dest: in_set_butlastD)
qed

theorem ReadSlice_err_iff_witness:
  "\<exists>line err b'. ReadSlice CHR 0x0A (NewReaderWithBuf [(''GET /'', None), (''a '' @ [CHR 0x0A], None)] ''xy'')
      = (line, err, b')
     \<and> (err = None \<longleftrightarrow> line \<noteq> [] \<and> last line = CHR 0x0A)"
proof -
  obtain line err b' where r: "ReadSlice CHR 0x0A
      (NewReaderWithBuf [(''GET /'', None), (''a '' @ [CHR 0x0A], None)] ''xy'') = (line, err, b')"
    by (metis prod_cases3)
  from ReadSlice_err_iff [OF NewReaderWithBuf_inv r] r show ?thesis by blast
qed

text \<open>
  Over a connection that delivers without errors, \<open>ReadSlice\<close> returns the bytes up to
  and including the first delimiter whenever they fit the buffer, whatever way the
  connection cuts the stream into reads.
\<close>

theorem ReadSlice_chunking:
  assumes "clean src" and "conn_bytes src = l @ delim # rest" and "delim \<notin> set l"
    and "length l < 4096"
  shows "\<exists>b'. ReadSlice delim (NewReader src) = (l @ [delim], None, b') \<and> pending b' = rest"
proof -
  have "rerr (NewReader src) = None" "rsrc (NewReader src) = src"
    "length (rbuf (NewReader src)) = 4096"
    by (simp_all add: NewReader_def NewReaderSize_def Reader_reset_def defaultBufSize_def
        minReadBufferSize_def)
  then show ?thesis
    using ReadSlice_clean [OF NewReader_inv, of src l delim rest] assms
    by (auto simp: pending_NewReader)
qed

theorem ReadSlice_chunking_witness:
  "\<exists>b'. ReadSlice CHR 0x0A (NewReader [(''ab'', None), (''c'' @ [CHR 0x0A] @ ''d'', None)])
     = (''abc'' @ [CHR 0x0A], None, b') \<and> pending b' = ''d''"
  by (rule ReadSlice_chunking) (simp_all add: clean_def conn_bytes_def)

text \<open>
  Filling the buffer gives up after 100 consecutive empty reads with \<open>ErrNoProgress\<close>, and
  not before: with fewer of them the bytes that follow are taken.
\<close>

theorem fill_gives_up:
  assumes "Buffered b < length (rbuf b)" and "rsrc b = replicate k ([], None) @ (d, None) # rest"
    and "d \<noteq> []" and "length d \<le> length (rbuf b) - Buffered b"
  shows "if k < 100 then rerr (fill b) = rerr b \<and> rsrc (fill b) = rest \<and> wpos (fill b) = Buffered b + length d
    else rerr (fill b) = Some ErrNoProgress \<and> rsrc (fill b) = drop 100 (rsrc b)"
proof -
  have "if k < i
      then rerr (fill_loop i c) = rerr c \<and> rsrc (fill_loop i c) = rest \<and> wpos (fill_loop i c) = wpos c + length d
      else rerr (fill_loop i c) = Some ErrNoProgress \<and> rsrc (fill_loop i c) = drop i (rsrc c)"
    if "rsrc c = replicate k ([], None) @ (d, None) # rest" "length d \<le> length (rbuf c) - wpos c"
    for i k and c :: tcp_reader
    using that assms(3)
  proof (induction i arbitrary: k c)
    case 0
    then show ?case by simp
  next
    case (Suc i)
    show ?case
    proof (cases k)
      case 0
      with Suc.prems show ?thesis by (auto simp: Let_def)
    next
      case k: (Suc k')
      define c' where "c' = c\<lparr>rsrc := replicate k' ([], None) @ (d, None) # rest\<rparr>"
      have "fill_loop (Suc i) c = fill_loop i c'"
        using Suc.prems(1) k by (simp add: c'_def)
      moreover have c': "rsrc c' = replicate k' ([], None) @ (d, None) # rest" "rerr c' = rerr c"
        "wpos c' = wpos c" "rbuf c' = rbuf c" by (simp_all add: c'_def)
      moreover have "drop (Suc i) (rsrc c) = drop i (rsrc c')"
        using Suc.prems(1) k c'(1) by simp
      ultimately show ?thesis
        using Suc.IH [of c' k'] Suc.prems k by (simp only: c') simp
    qed
  qed
  from this [of "slide b" k 100] assms show ?thesis
    by (simp add: fill_def maxConsecutiveEmptyReads_def)
qed

theorem fill_gives_up_witness:
  "rerr (fill (NewReader (replicate 100 ([], None) @ [(''x'', None)]))) = Some ErrNoProgress"
  using fill_gives_up [of "NewReader (replicate 100 ([], None) @ [(''x'', None)])" 100 "''x''" "[]"]
  by (simp add: NewReader_def NewReaderSize_def Reader_reset_def Buffered_def defaultBufSize_def
      minReadBufferSize_def)

text \<open>
  \<open>Peek\<close> takes nothing away: what it shows is the start of the bytes to come, it shows
  all \<open>n\<close> bytes when it reports no error, and they stay buffered.
\<close>

theorem Peek_keeps:
  assumes "reader_inv b" and "Peek n b = (d, e, b')"
  shows "pending b' = pending b \<and> (\<exists>x. pending b = d @ x)
    \<and> (if e = None then int (length d) = n \<and> n \<le> int (Buffered b') else True)"
proof -
  from Peek_spec [OF assms] obtain x where x: "consumes b [] b'" "unread b' = d @ x"
    "e = None \<Longrightarrow> int (length d) = n" by auto
  then have "pending b = d @ x @ conn_bytes (rsrc b')" by (simp add: consumes_def pending_def)
  moreover have "length d \<le> Buffered b'"
    using x length_unread_inv [OF consumes_inv [OF x(1)]] by (simp add: Buffered_def)
  ultimately show ?thesis using x by (auto simp: consumes_def intro: exI [of _ "x @ conn_bytes (rsrc b')"])
qed

theorem Peek_keeps_witness:
  "\<exists>d e b'. Peek 2 (NewReaderWithBuf [] ''abc'') = (d, e, b') \<and> pending b' = ''abc''"
proof -
  obtain d e b' where "Peek 2 (NewReaderWithBuf [] ''abc'') = (d, e, b')" by (metis prod_cases3)
  with Peek_keeps [OF NewReaderWithBuf_inv this] show ?thesis
    by (auto simp: pending_NewReaderWithBuf conn_bytes_def)
qed

end
