(* ===== verification/Text_Reader.thy ===== *)
theory Text_Reader
  imports Tcp_Reader Http_Header
begin

section \<open>Lines and header blocks\<close>

text \<open>
  The package \<open>proto/text\<close> (\<open>proto/text/reader.go\<close>): whole lines and header blocks read
  from the buffered reader. The two loops that read until a line or a block ends are
  partial functions whose value \<open>None\<close> means that they do not return; the lemmas show
  that they always return when the buffer has room for two bytes, which
  \<open>NewReaderSize\<close> guarantees.
\<close>

subsection \<open>Operations\<close>

partial_function (option) readLine_loop ::
  "bool \<Rightarrow> string \<Rightarrow> tcp_reader \<Rightarrow> (string \<times> go_err option \<times> tcp_reader) option" where
  "readLine_loop dropBreak line b =
     (case Reader_ReadLine dropBreak b of (l, isPre, err, b') \<Rightarrow>
        if err \<noteq> None then Some ([], err, b')
        else if isPre then readLine_loop dropBreak (line @ l) b'
        else Some (line @ l, None, b'))"

definition readLineSlice :: "bool \<Rightarrow> tcp_reader \<Rightarrow> (string \<times> go_err option \<times> tcp_reader) option" where
  "readLineSlice dropBreak b = readLine_loop dropBreak [] b"

text \<open>\<open>ReadLine\<close> and \<open>ReadLineBytes\<close> differ in the type of the result only.\<close>

definition Text_ReadLine :: "bool \<Rightarrow> tcp_reader \<Rightarrow> (string \<times> go_err option \<times> tcp_reader) option" where
  "Text_ReadLine dropBreak b = readLineSlice dropBreak b"

definition is_blank :: "char \<Rightarrow> bool" where
  "is_blank c \<longleftrightarrow> c = CHR '' '' \<or> c = CHR 0x09"

definition Trim :: "string \<Rightarrow> string" where
  "Trim s = rev (dropWhile is_blank (rev (dropWhile is_blank s)))"

function newline_count :: "string \<Rightarrow> nat" where
  "newline_count peek =
     (if peek = [] then 0
      else case find_byte CHR 0x0A peek of
        None \<Rightarrow> 0
      | Some i \<Rightarrow> if i < 3 then 0 else 1 + newline_count (drop (i + 1) peek))"
  by pat_completeness auto
termination by (relation "measure length") auto

declare newline_count.simps [simp del]

definition upcomingHeaderNewlines :: "tcp_reader \<Rightarrow> nat \<times> tcp_reader" where
  "upcomingHeaderNewlines b =
     (let (_, _, b) = Peek 1 b;
          s = Buffered b
      in if s = 0 then (0, b)
         else let (peek, _, b) = Peek (int s) b in (newline_count peek, b))"

text \<open>
  One line of the header, after its line break is dropped: the field name ends at the
  first colon, spaces before the colon and blanks after it are skipped, a line without
  a name is skipped. The preallocated slice \<open>strs\<close> of the code only saves allocations:
  a value found under no key becomes the single value of a new list either way.
\<close>

definition trim_right_spaces :: "string \<Rightarrow> string" where
  "trim_right_spaces s = rev (dropWhile (\<lambda>c. c = CHR '' '') (rev s))"

definition header_line :: "string \<Rightarrow> header \<Rightarrow> go_err + header" where
  "header_line kv m =
     (case find_byte CHR '':'' kv of
        None \<Rightarrow> Inl (ErrMsg (''malformed MIME header line: '' @ kv))
      | Some i \<Rightarrow>
          let key = CanonicalMIMEHeaderKey (trim_right_spaces (take i kv))
          in if key = [] then Inr m
             else let value = dropWhile is_blank (drop (i + 1) kv)
                  in Inr (AList.update key (header_vals m key @ [value]) m))"

text \<open>The loop of \<open>ReadHeader\<close>; \<open>lastEnd\<close> holds the last two bytes of the line before.\<close>

partial_function (option) ReadHeader_loop ::
  "bool \<Rightarrow> string \<Rightarrow> header \<Rightarrow> tcp_reader \<Rightarrow> (header \<times> go_err option \<times> tcp_reader) option" where
  "ReadHeader_loop headerIsEnd lastEnd m b =
     (if headerIsEnd then Some (m, None, b)
      else Option.bind (readLineSlice False b) (\<lambda>(kv, err, b).
        if kv = [] then Some (m, err, b)
        else if kv = crlf \<and> lastEnd = crlf then ReadHeader_loop True lastEnd m b
        else
          let lastEnd = (if 2 \<le> length kv then drop (length kv - 2) kv else lastEnd);
              kv = drop_break kv
          in if kv = [] then Some (m, None, b)
             else case header_line kv m of
                 Inl e \<Rightarrow> Some (m, Some e, b)
               | Inr m \<Rightarrow> if err \<noteq> None then Some (m, err, b)
                          else ReadHeader_loop False lastEnd m b))"

definition ReadHeader :: "tcp_reader \<Rightarrow> (header \<times> go_err option \<times> tcp_reader) option" where
  "ReadHeader b =
     (let (hint, b) = upcomingHeaderNewlines b;
          (buf, err, b) = Peek 1 b
      in if err = None \<and> is_blank (hd buf) then
           Option.bind (readLineSlice False b) (\<lambda>(line, err, b).
             if err \<noteq> None then Some ([], err, b)
             else Some ([], Some (ErrMsg (''malformed MIME header initial line: '' @ line)), b))
         else ReadHeader_loop False (replicate 2 (char_of (0 :: nat))) [] b)"

subsection \<open>Lines end\<close>

text \<open>The invariant of a reader with room for two bytes, as \<open>NewReaderSize\<close> makes it.\<close>

definition roomy :: "tcp_reader \<Rightarrow> bool" where
  "roomy b \<longleftrightarrow> reader_inv b \<and> 2 \<le> length (rbuf b)"

lemma roomy_NewReader: "roomy (NewReader src)"
  using NewReader_inv [of src]
  by (simp add: roomy_def NewReader_def NewReaderSize_def Reader_reset_def defaultBufSize_def
      minReadBufferSize_def)

lemma roomy_consumes: "roomy b \<Longrightarrow> consumes b d b' \<Longrightarrow> roomy b'"
  by (simp add: roomy_def consumes_def)

text \<open>
  A connection could itself report the error of a full buffer; counting these reports
  makes the measure of the line loop decrease in that case too.
\<close>

definition full_errs :: "tcp_reader \<Rightarrow> nat" where
  "full_errs b = length (filter (\<lambda>(d, e). e = Some ErrBufferFull) (rsrc b))
     + (if rerr b = Some ErrBufferFull then 1 else 0)"

lemma conn_read_full_errs:
  "conn_read n c = (d, e, c') \<Longrightarrow>
   length (filter (\<lambda>(d, e). e = Some ErrBufferFull) c') + (if e = Some ErrBufferFull then 1 else 0)
   \<le> length (filter (\<lambda>(d, e). e = Some ErrBufferFull) c)"
  by (cases "(n, c)" rule: conn_read.cases) (auto split: if_splits)

lemma full_errs_simps [simp]:
  "full_errs (b\<lparr>rpos := p\<rparr>) = full_errs b" "full_errs (b\<lparr>lastByte := l\<rparr>) = full_errs b"
  "full_errs (set_lastByte s b) = full_errs b" "full_errs (slide b) = full_errs b"
  by (simp_all add: full_errs_def set_lastByte_def)

lemma full_errs_fill_loop: "full_errs (fill_loop i b) \<le> full_errs b"
proof (induction i b rule: fill_loop.induct)
  case (1 b)
  then show ?case by (simp add: full_errs_def)
next
  case (2 i b)
  obtain d e src where r: "conn_read (length (rbuf b) - wpos b) (rsrc b) = (d, e, src)"
    by (cases "conn_read (length (rbuf b) - wpos b) (rsrc b)") auto
  define b1 where "b1 = b\<lparr>rsrc := src, rbuf := store_bytes (rbuf b) (wpos b) d, wpos := wpos b + length d\<rparr>"
  have *: "rsrc b1 = src" "rerr b1 = rerr b" by (simp_all add: b1_def)
  note c = conn_read_full_errs [OF r]
  show ?case
  proof (cases "e = None \<and> d = []")
    case True
    with r have "fill_loop (Suc i) b = fill_loop i b1" by (simp add: Let_def b1_def)
    moreover have "full_errs b1 \<le> full_errs b" using c True by (simp add: full_errs_def *)
    moreover have "full_errs (fill_loop i b1) \<le> full_errs b1"
      using "2.IH" [OF r [symmetric] refl refl b1_def] True by simp
    ultimately show ?thesis by simp
  next
    case False
    with r have "fill_loop (Suc i) b = (if e \<noteq> None then b1\<lparr>rerr := e\<rparr> else b1)"
      by (auto simp: Let_def b1_def)
    with c show ?thesis by (auto simp: full_errs_def *)
  qed
qed

lemma full_errs_fill: "full_errs (fill b) \<le> full_errs b"
  using full_errs_fill_loop [of maxConsecutiveEmptyReads "slide b"] by (simp add: fill_def)

lemma full_errs_readErr:
  "readErr b = (e, b') \<Longrightarrow> full_errs b' \<le> full_errs b \<and> (e = Some ErrBufferFull \<longrightarrow> full_errs b' < full_errs b)"
  by (auto simp: readErr_def full_errs_def)

lemma full_errs_ReadSlice_loop:
  "ReadSlice_loop delim s b = (line, err, b') \<Longrightarrow> reader_inv b \<Longrightarrow>
   full_errs b' \<le> full_errs b \<and>
   (err = Some ErrBufferFull \<longrightarrow> full_errs b' < full_errs b \<or> length line = length (rbuf b))"
proof (induction delim s b rule: ReadSlice_loop.induct)
  case (1 delim s b)
  show ?case
  proof (cases "find_byte delim (take (wpos b - (rpos b + s)) (drop (rpos b + s) (rbuf b)))")
    case (Some i)
    then show ?thesis using "1.prems" by (auto simp: ReadSlice_loop.simps [of delim s b] Let_def)
  next
    case None
    show ?thesis
    proof (cases "rerr b = None \<and> Buffered b < length (rbuf b)")
      case True
      then have "ReadSlice_loop delim (wpos b - rpos b) (fill b) = (line, err, b')"
        using None "1.prems"(1) by (simp add: ReadSlice_loop.simps [of delim s b])
      moreover have "reader_inv (fill b)" "length (rbuf (fill b)) = length (rbuf b)"
        using fill_consumes [OF "1.prems"(2)] by (auto simp: consumes_def)
      ultimately show ?thesis using "1.IH" [OF None] True full_errs_fill [of b] by auto
    next
      case False
      then show ?thesis
        using None "1.prems" full_errs_readErr [of "b\<lparr>rpos := wpos b\<rparr>"]
        by (auto simp: ReadSlice_loop.simps [of delim s b] split: if_splits)
    qed
  qed
qed

lemma ReadLine_progress:
  assumes "roomy b" and "Reader_ReadLine dropBreak b = (line, isPre, err, b')"
  shows "roomy b' \<and> full_errs b' \<le> full_errs b
    \<and> (isPre \<longrightarrow> length (pending b') + full_errs b' < length (pending b) + full_errs b)"
proof -
  have inv: "reader_inv b" and room: "2 \<le> length (rbuf b)" using assms(1) by (simp_all add: roomy_def)
  obtain br where br: "consumes b (line @ br) b'"
    using Reader_ReadLine_spec(1) [OF inv assms(2)] by blast
  obtain l e c where r: "ReadSlice CHR 0x0A b = (l, e, c)" by (cases "ReadSlice CHR 0x0A b")
  then obtain c' where l: "ReadSlice_loop CHR 0x0A 0 b = (l, e, c')" "c = set_lastByte l c'"
    by (auto simp: ReadSlice_def split: prod.splits)
  have f: "full_errs b' = full_errs c'"
    using assms(2) r l(2) by (auto simp: Reader_ReadLine_def split: if_splits)
  have p: "isPre \<Longrightarrow> e = Some ErrBufferFull \<and> length l - 1 \<le> length line"
    using assms(2) r by (auto simp: Reader_ReadLine_def split: if_splits)
  from full_errs_ReadSlice_loop [OF l(1) inv] f p room
  have "isPre \<Longrightarrow> full_errs b' < full_errs b \<or> 0 < length line" by auto
  moreover have "length (pending b) = length line + length br + length (pending b')"
    using consumes_pending [OF br] by simp
  moreover have "full_errs b' \<le> full_errs b" using full_errs_ReadSlice_loop [OF l(1) inv] f by simp
  ultimately show ?thesis using roomy_consumes [OF assms(1) br] by (cases isPre) linarith+
qed

text \<open>
  The line loop returns, and it hands out the line and its line break; the line break is
  part of the line when it is not dropped.
\<close>

lemma readLine_loop_returns:
  assumes "roomy b"
  shows "\<exists>line err b' x. readLine_loop dropBreak acc b = Some (line, err, b')
    \<and> consumes b x b' \<and> (err = None \<longrightarrow> (\<exists>br. acc @ x = line @ br \<and> is_break br \<and> (\<not> dropBreak \<longrightarrow> br = [])))
    \<and> (err \<noteq> None \<longrightarrow> line = [])
    \<and> full_errs b' \<le> full_errs b"
  using assms
proof (induction "length (pending b) + full_errs b" arbitrary: b acc rule: less_induct)
  case less
  obtain l isPre e c where r: "Reader_ReadLine dropBreak b = (l, isPre, e, c)"
    by (metis prod_cases4)
  have inv: "reader_inv b" using less.prems by (simp add: roomy_def)
  obtain br where br: "consumes b (l @ br) c" "is_break br" "isPre \<or> \<not> dropBreak \<Longrightarrow> br = []"
    using Reader_ReadLine_spec(1) [OF inv r] by blast
  note p = ReadLine_progress [OF less.prems r]
  show ?case
  proof (cases "e = None \<and> isPre")
    case True
    with p obtain line err b' x where x: "readLine_loop dropBreak (acc @ l) c = Some (line, err, b')"
      "consumes c x b'"
      "err = None \<Longrightarrow> \<exists>br. (acc @ l) @ x = line @ br \<and> is_break br \<and> (\<not> dropBreak \<longrightarrow> br = [])"
      "err \<noteq> None \<Longrightarrow> line = []"
      "full_errs b' \<le> full_errs c"
      using less.hyps [of c "acc @ l"] by blast
    have "consumes b (l @ x) b'" using consumes_trans [OF br(1) x(2)] br(3) True by simp
    moreover have "readLine_loop dropBreak acc b = Some (line, err, b')"
      using x(1) r True by (subst readLine_loop.simps) simp
    moreover have "err = None \<longrightarrow> (\<exists>br. acc @ (l @ x) = line @ br \<and> is_break br \<and> (\<not> dropBreak \<longrightarrow> br = []))"
      using x(3) by simp
    moreover have "full_errs b' \<le> full_errs b"
      using x(5) p by simp
    ultimately show ?thesis using x(4) \<open>consumes b (l @ x) b'\<close> by blast
  next
    case False
    have "readLine_loop dropBreak acc b = Some (if e = None then acc @ l else [], e, c)"
      using False r by (subst readLine_loop.simps) auto
    moreover have "e = None \<longrightarrow> (\<exists>br'. acc @ (l @ br) = (acc @ l) @ br' \<and> is_break br' \<and> (\<not> dropBreak \<longrightarrow> br' = []))"
      using br by auto
    ultimately show ?thesis using br(1) p by (auto split: if_splits)
  qed
qed

lemma readLineSlice_returns:
  assumes "roomy b"
  shows "\<exists>line err b' x. readLineSlice dropBreak b = Some (line, err, b')
    \<and> consumes b x b' \<and> (err = None \<longrightarrow> (\<exists>br. x = line @ br \<and> is_break br \<and> (\<not> dropBreak \<longrightarrow> br = [])))
    \<and> (err \<noteq> None \<longrightarrow> line = []) \<and> full_errs b' \<le> full_errs b"
  using readLine_loop_returns [OF assms, of dropBreak "[]"] by (simp add: readLineSlice_def)

lemma readLineSlice_keep:
  assumes "roomy b" and "readLineSlice False b = Some (line, err, b')"
  shows "roomy b' \<and> full_errs b' \<le> full_errs b \<and> (err \<noteq> None \<longrightarrow> line = [])
    \<and> (err = None \<longrightarrow> consumes b line b') \<and> (\<exists>x. consumes b x b')"
  using readLineSlice_returns [OF assms(1), of False] assms roomy_consumes by fastforce

lemma ReadHeader_loop_returns:
  assumes "roomy b"
  shows "\<exists>m' err b' x. ReadHeader_loop fin lastEnd m b = Some (m', err, b') \<and> consumes b x b'"
  using assms
proof (induction "length (pending b) + full_errs b" arbitrary: fin lastEnd m b rule: less_induct)
  case less
  have inv: "reader_inv b" using less.prems by (simp add: roomy_def)
  obtain kv err c where r: "readLineSlice False b = Some (kv, err, c)"
    using readLineSlice_returns [OF less.prems, of False] by blast
  note k = readLineSlice_keep [OF less.prems r]
  have step: "\<exists>m' err b' x. ReadHeader_loop f l m'' c = Some (m', err, b') \<and> consumes b x b'"
    if kv: "kv \<noteq> []" and "err = None" for f l m''
  proof -
    have c: "consumes b kv c" using k that by simp
    then have "length (pending c) + full_errs c < length (pending b) + full_errs b"
      using k consumes_pending [OF c] kv by (cases kv) auto
    from less.hyps [OF this, of f l m''] k obtain m' err b' x
      where "ReadHeader_loop f l m'' c = Some (m', err, b')" "consumes c x b'" by blast
    with c show ?thesis by (blast intro: consumes_trans)
  qed
  show ?case
  proof (cases "fin \<or> kv = []")
    case True
    then show ?thesis
      using r k consumes_refl [OF inv] by (subst ReadHeader_loop.simps) auto
  next
    case False
    then have e: "err = None" using k by auto
    show ?thesis
    proof (cases "kv = crlf \<and> lastEnd = crlf")
      case True
      have "ReadHeader_loop fin lastEnd m b = ReadHeader_loop True lastEnd m c"
        using True False r by (subst ReadHeader_loop.simps) simp
      with step e False show ?thesis by simp
    next
      case lns: False
      show ?thesis
      proof (cases "drop_break kv = [] \<or> isl (header_line (drop_break kv) m)")
        case True
        then show ?thesis using lns False r k
          by (subst ReadHeader_loop.simps) (auto simp: Let_def split: sum.splits)
      next
        case good: False
        then obtain m1 where m1: "header_line (drop_break kv) m = Inr m1"
          by (cases "header_line (drop_break kv) m") auto
        define l where "l = (if 2 \<le> length kv then drop (length kv - 2) kv else lastEnd)"
        have "ReadHeader_loop fin lastEnd m b = ReadHeader_loop False l m1 c"
          using good m1 lns False r e by (subst ReadHeader_loop.simps) (auto simp: Let_def l_def)
        with step e False show ?thesis by simp
      qed
    qed
  qed
qed

lemma Peek_roomy:
  assumes "roomy b" and "Peek n b = (d, e, b')"
  shows "roomy b' \<and> consumes b [] b'"
  using Peek_spec [of b n d e b'] roomy_consumes [OF assms(1)] assms by (auto simp: roomy_def)

lemma upcomingHeaderNewlines_keeps:
  assumes "roomy b" and "upcomingHeaderNewlines b = (n, b')"
  shows "roomy b' \<and> consumes b [] b'"
proof -
  obtain d e c where 1: "Peek 1 b = (d, e, c)" by (metis prod_cases3)
  obtain d' e' c' where 2: "Peek (int (Buffered c)) c = (d', e', c')" by (metis prod_cases3)
  have "b' = c \<or> b' = c'" using assms(2) 1 2 by (auto simp: upcomingHeaderNewlines_def Let_def split: if_splits)
  with Peek_roomy [OF assms(1) 1] Peek_roomy [OF _ 2] show ?thesis by (auto intro: consumes_trans0)
qed

lemma ReadHeader_always_returns:
  assumes "roomy b"
  shows "\<exists>m err b' x. ReadHeader b = Some (m, err, b') \<and> consumes b x b'"
proof -
  obtain n b1 where 1: "upcomingHeaderNewlines b = (n, b1)" by (metis surj_pair)
  obtain buf e b2 where 2: "Peek 1 b1 = (buf, e, b2)" by (metis prod_cases3)
  have b1: "roomy b1" "consumes b [] b1" using upcomingHeaderNewlines_keeps [OF assms 1] by auto
  have b2: "roomy b2" "consumes b [] b2"
    using Peek_roomy [OF b1(1) 2] b1(2) by (auto intro: consumes_trans0)
  show ?thesis
  proof (cases "e = None \<and> is_blank (hd buf)")
    case True
    obtain line err c where r: "readLineSlice False b2 = Some (line, err, c)"
      using readLineSlice_returns [OF b2(1), of False] by blast
    from readLineSlice_keep [OF b2(1) r] obtain x where x: "consumes b2 x c" by blast
    have "\<exists>m err. ReadHeader b = Some (m, err, c)"
      using True 1 2 r by (auto simp: ReadHeader_def)
    then show ?thesis using consumes_trans0 [OF b2(2) x] by blast
  next
    case False
    obtain m err c x where r: "ReadHeader_loop False (replicate 2 (char_of (0 :: nat))) [] b2 = Some (m, err, c)"
      and x: "consumes b2 x c" using ReadHeader_loop_returns [OF b2(1)] by blast
    have "ReadHeader b = Some (m, err, c)"
      using False 1 2 r by (auto simp: ReadHeader_def)
    then show ?thesis using consumes_trans0 [OF b2(2) x] by blast
  qed
qed

subsection \<open>Reading from a connection without errors\<close>

text \<open>
  A reader whose connection only delivers bytes: it has no error, and what it reads next
  is decided by the bytes to come alone.
\<close>

definition live :: "tcp_reader \<Rightarrow> bool" where
  "live b \<longleftrightarrow> roomy b \<and> rerr b = None \<and> clean (rsrc b)"

lemma live_NewReader: "clean src \<Longrightarrow> live (NewReader src)"
  using roomy_NewReader [of src]
  by (simp add: live_def NewReader_def NewReaderSize_def Reader_reset_def)

lemma ReadSlice_loop_live:
  assumes "reader_inv b" and "rerr b = None" and "clean (rsrc b)"
    and "delim \<in> set (pending b)" and "delim \<notin> set (take s (unread b))"
    and "ReadSlice_loop delim s b = (line, err, b')"
  shows "(err = None \<or> err = Some ErrBufferFull \<and> length line = length (rbuf b))
    \<and> rerr b' = None \<and> clean (rsrc b')"
  using assms
proof (induction delim s b rule: ReadSlice_loop.induct)
  case (1 delim s b)
  note search = ReadSlice_search [OF "1.prems"(1)]
  show ?case
  proof (cases "find_byte delim (drop s (unread b))")
    case (Some i)
    then show ?thesis
      using "1.prems" search by (auto simp: ReadSlice_loop.simps [of delim s b] Let_def)
  next
    case None
    then have nd: "delim \<notin> set (unread b)"
      using "1.prems"(5) append_take_drop_id [of s "unread b"]
      by (metis Un_iff find_byte_None_iff set_append)
    show ?thesis
    proof (cases "Buffered b < length (rbuf b)")
      case False
      then show ?thesis
        using None search "1.prems" by (auto simp: ReadSlice_loop.simps [of delim s b])
    next
      case f: True
      have "rsrc b \<noteq> []" using nd "1.prems"(4) by (auto simp: pending_def conn_bytes_def)
      have fc: "consumes b [] (fill b)" and "\<exists>d. unread (fill b) = unread b @ d"
        using fill_consumes [OF "1.prems"(1)] by auto
      then have "delim \<notin> set (take (wpos b - rpos b) (unread (fill b)))"
        using nd length_unread_inv [OF "1.prems"(1)] by auto
      moreover have "ReadSlice_loop delim (wpos b - rpos b) (fill b) = (line, err, b')"
        using f None search "1.prems"(2,6) by (simp add: ReadSlice_loop.simps [of delim s b])
      moreover have "rerr (fill b) = None" "clean (rsrc (fill b))"
        using fill_clean [OF f "1.prems"(2,3) \<open>rsrc b \<noteq> []\<close>] by auto
      moreover have "delim \<in> set (pending (fill b))" "length (rbuf (fill b)) = length (rbuf b)"
        using "1.prems"(4) fc by (simp_all add: consumes_def)
      ultimately show ?thesis
        using "1.IH" None search f fc "1.prems"(2) by (auto simp: consumes_inv)
    qed
  qed
qed

lemma ReadLine_live:
  assumes "live b" and "CHR 0x0A \<in> set (pending b)"
    and "Reader_ReadLine False b = (line, isPre, err, b')"
  shows "live b' \<and> err = None \<and> consumes b line b' \<and> line \<noteq> []
    \<and> (if isPre then CHR 0x0A \<notin> set line else \<exists>l. line = l @ [CHR 0x0A] \<and> CHR 0x0A \<notin> set l)"
proof -
  have inv: "reader_inv b" and room: "2 \<le> length (rbuf b)" and e0: "rerr b = None" "clean (rsrc b)"
    using assms(1) by (simp_all add: live_def roomy_def)
  obtain l e c where r: "ReadSlice CHR 0x0A b = (l, e, c)" by (cases "ReadSlice CHR 0x0A b")
  then obtain c' where l: "ReadSlice_loop CHR 0x0A 0 b = (l, e, c')" "c = set_lastByte l c'"
    by (auto simp: ReadSlice_def split: prod.splits)
  from ReadSlice_loop_live [OF inv e0 assms(2) _ l(1)]
  have e: "e = None \<or> e = Some ErrBufferFull \<and> length l = length (rbuf b)"
    and c: "rerr c = None" "clean (rsrc c)" by (auto simp: l(2) set_lastByte_def)
  have b': "rerr b' = None" "clean (rsrc b')" "err = None"
    using assms(3) r c e by (auto simp: Reader_ReadLine_def split: if_splits)
  obtain br where br: "consumes b (line @ br) b'" "isPre \<or> True \<longrightarrow> br = []"
    using Reader_ReadLine_spec(1) [OF inv assms(3)] by blast
  then have cons: "consumes b line b'" by simp
  then have "live b'" using b' roomy_consumes [of b line b'] assms(1) by (simp add: live_def)
  moreover have "if isPre then line \<noteq> [] else \<exists>l. line = l @ [CHR 0x0A] \<and> CHR 0x0A \<notin> set l"
  proof (cases e)
    case None
    with assms(3) r ReadSlice_spec(2) [OF inv r] show ?thesis
      by (auto simp: Reader_ReadLine_def split: if_splits)
  next
    case (Some e')
    then have "length l = length (rbuf b)" "e = Some ErrBufferFull" using e by auto
    moreover from this room have "2 \<le> length l" by simp
    moreover from this have "butlast l \<noteq> []" by (cases l rule: rev_cases) auto
    ultimately show ?thesis
      using assms(3) r by (auto simp: Reader_ReadLine_def split: if_splits)
  qed
  ultimately show ?thesis
    using cons b' Reader_ReadLine_spec(2) [OF inv assms(3)] by auto
qed

text \<open>A whole line, however long and however the connection cuts it.\<close>

lemma readLine_loop_live:
  assumes "live b" and "pending b = l @ CHR 0x0A # rest" and "CHR 0x0A \<notin> set l"
  shows "\<exists>b'. readLine_loop False acc b = Some (acc @ l @ [CHR 0x0A], None, b') \<and> live b' \<and> pending b' = rest"
  using assms
proof (induction "length l" arbitrary: b l acc rule: less_induct)
  case less
  obtain line isPre err c where r: "Reader_ReadLine False b = (line, isPre, err, c)"
    by (metis prod_cases4)
  have s: "live c" "err = None" "consumes b line c" "line \<noteq> []"
    "if isPre then CHR 0x0A \<notin> set line else \<exists>l. line = l @ [CHR 0x0A] \<and> CHR 0x0A \<notin> set l"
    using ReadLine_live [OF less.prems(1) _ r] less.prems(2) by auto
  note p = consumes_pending [OF s(3)]
  show ?case
  proof (cases isPre)
    case True
    with s(5) have nl: "CHR 0x0A \<notin> set line" by simp
    have "\<exists>l'. l = line @ l' \<and> pending c = l' @ CHR 0x0A # rest"
    proof -
      from p less.prems(2) have "line @ pending c = l @ CHR 0x0A # rest" by simp
      then obtain us where "line = l @ us \<and> us @ pending c = CHR 0x0A # rest \<or> line @ us = l \<and> pending c = us @ CHR 0x0A # rest"
        by (auto simp: append_eq_append_conv2)
      then show ?thesis using nl by (cases us) auto
    qed
    then obtain l' where l': "l = line @ l'" "pending c = l' @ CHR 0x0A # rest" by blast
    have "length l' < length l" using l'(1) s(4) by (cases line) auto
    from less.hyps [OF this s(1) l'(2), of "acc @ line"] l' less.prems(3)
    obtain b' where "readLine_loop False (acc @ line) c = Some (acc @ l @ [CHR 0x0A], None, b')"
      "live b'" "pending b' = rest" by auto
    with r s(2) True show ?thesis by (subst readLine_loop.simps) auto
  next
    case False
    with s(5) obtain k where k: "line = k @ [CHR 0x0A]" "CHR 0x0A \<notin> set k" by auto
    with p less.prems(2) have "k @ CHR 0x0A # pending c = l @ CHR 0x0A # rest" by simp
    then have "k = l \<and> pending c = rest" using k(2) less.prems(3) by (simp add: first_split_unique)
    with r s k(1) False show ?thesis by (subst readLine_loop.simps) auto
  qed
qed

lemma readLineSlice_live:
  assumes "live b" and "pending b = l @ CHR 0x0A # rest" and "CHR 0x0A \<notin> set l"
  shows "\<exists>b'. readLineSlice False b = Some (l @ [CHR 0x0A], None, b') \<and> live b' \<and> pending b' = rest"
  using readLine_loop_live [OF assms, of "[]"] by (simp add: readLineSlice_def)

lemma ReadLine_drop:
  "Reader_ReadLine True b =
     (case Reader_ReadLine False b of (line, isPre, err, b') \<Rightarrow>
        (if isPre then line else drop_break line, isPre, err, b'))"
  by (auto simp: Reader_ReadLine_def drop_break_def split: prod.splits)

lemma ReadLine_pre_CR:
  assumes "reader_inv b" and "Reader_ReadLine False b = (line, True, err, b')"
  shows "line = [] \<or> last line \<noteq> CHR 0x0D \<or> (\<exists>x. pending b' = CHR 0x0D # x)"
proof -
  obtain l e c where r: "ReadSlice CHR 0x0A b = (l, e, c)" by (metis prod_cases3)
  obtain br where br: "consumes b (line @ br) b'" "br = []"
    using Reader_ReadLine_spec(1) [OF assms] by auto
  then have p: "pending b = line @ pending b'" by (simp add: consumes_pending)
  have s: "pending b = l @ pending c" using ReadSlice_spec(1) [OF assms(1) r] by (simp add: consumes_def)
  show ?thesis
  proof (cases "l \<noteq> [] \<and> last l = CHR 0x0D")
    case True
    from this assms(2) r have "line = butlast l"  by (auto simp: Reader_ReadLine_def split: if_splits)
    then have "l = line @ [CHR 0x0D]" using True append_butlast_last_id [of l] by simp
    then have "pending b' = CHR 0x0D # pending c" using p s by simp
    then show ?thesis by simp
  next
    case False
    then have "line = l" using assms(2) r by (auto simp: Reader_ReadLine_def split: if_splits)
    then show ?thesis using False by auto
  qed
qed

lemma drop_break_append:
  assumes "x \<noteq> [] \<longrightarrow> last x \<noteq> CHR 0x0D \<or> (\<exists>m. l = CHR 0x0D # m)"
  shows "drop_break (x @ l @ [CHR 0x0A]) = x @ drop_break (l @ [CHR 0x0A])"
  using assms by (cases l rule: rev_cases; cases x rule: rev_cases) (auto simp: drop_break_def nth_append)

lemma readLine_loop_drop:
  assumes "live b" and "pending b = l @ CHR 0x0A # rest" and "CHR 0x0A \<notin> set l"
  shows "\<exists>b'. readLine_loop True acc b = Some (acc @ drop_break (l @ [CHR 0x0A]), None, b') \<and> live b' \<and> pending b' = rest"
  using assms
proof (induction "length l" arbitrary: b l acc rule: less_induct)
  case less
  obtain line isPre err c where r: "Reader_ReadLine False b = (line, isPre, err, c)"
    by (metis prod_cases4)
  have s: "live c" "err = None" "consumes b line c" "line \<noteq> []"
    "if isPre then CHR 0x0A \<notin> set line else \<exists>l. line = l @ [CHR 0x0A] \<and> CHR 0x0A \<notin> set l"
    using ReadLine_live [OF less.prems(1) _ r] less.prems(2) by auto
  have inv: "reader_inv b" using less.prems(1) by (simp add: live_def roomy_def)
  note p = consumes_pending [OF s(3)]
  show ?case
  proof (cases isPre)
    case True
    with s(5) have nl: "CHR 0x0A \<notin> set line" by simp
    have "\<exists>l'. l = line @ l' \<and> pending c = l' @ CHR 0x0A # rest"
    proof -
      from p less.prems(2) have "line @ pending c = l @ CHR 0x0A # rest" by simp
      then obtain us where "line = l @ us \<and> us @ pending c = CHR 0x0A # rest \<or> line @ us = l \<and> pending c = us @ CHR 0x0A # rest"
        by (auto simp: append_eq_append_conv2)
      then show ?thesis using nl by (cases us) auto
    qed
    then obtain l' where l': "l = line @ l'" "pending c = l' @ CHR 0x0A # rest" by blast
    have d: "drop_break (l @ [CHR 0x0A]) = line @ drop_break (l' @ [CHR 0x0A])"
      using drop_break_append [of line l'] ReadLine_pre_CR [OF inv] r True l' by (cases l') auto
    have "length l' < length l" using l'(1) s(4) by (cases line) auto
    from less.hyps [OF this s(1) l'(2), of "acc @ line"] l' less.prems(3)
    obtain b' where "readLine_loop True (acc @ line) c = Some (acc @ line @ drop_break (l' @ [CHR 0x0A]), None, b')"
      "live b'" "pending b' = rest" by auto
    with r s(2) True d show ?thesis by (subst readLine_loop.simps) (auto simp: ReadLine_drop)
  next
    case False
    with s(5) obtain k where k: "line = k @ [CHR 0x0A]" "CHR 0x0A \<notin> set k" by auto
    with p less.prems(2) have "k @ CHR 0x0A # pending c = l @ CHR 0x0A # rest" by simp
    then have "k = l \<and> pending c = rest" using k(2) less.prems(3) by (simp add: first_split_unique)
    with r s k(1) False show ?thesis by (subst readLine_loop.simps) (auto simp: ReadLine_drop)
  qed
qed

lemma readLineSlice_drop:
  assumes "live b" and "pending b = l @ CHR 0x0A # rest" and "CHR 0x0A \<notin> set l"
  shows "\<exists>b'. readLineSlice True b = Some (drop_break (l @ [CHR 0x0A]), None, b') \<and> live b' \<and> pending b' = rest"
  using readLine_loop_drop [OF assms, of "[]"] by (simp add: readLineSlice_def)

lemma Peek_loop_live:
  assumes "live b" and "n \<le> length (pending b)" and "n \<le> length (rbuf b)"
  shows "live (Peek_loop n b) \<and> consumes b [] (Peek_loop n b) \<and> n \<le> Buffered (Peek_loop n b)"
  using assms
proof (induction n b rule: Peek_loop.induct)
  case (1 n b)
  have inv: "reader_inv b" and e0: "rerr b = None" "clean (rsrc b)"
    using "1.prems"(1) by (simp_all add: live_def roomy_def)
  show ?case
  proof (cases "Buffered b < n")
    case True
    then have f: "Buffered b < length (rbuf b)" using "1.prems"(3) by simp
    have "rsrc b \<noteq> []"
      using True "1.prems"(2) length_unread_inv [OF inv]
      by (auto simp: pending_def conn_bytes_def Buffered_def)
    note fc = fill_clean [OF f e0 this] fill_consumes [OF inv]
    then have "live (fill b)" using roomy_consumes [of b "[]" "fill b"] "1.prems"(1) by (simp add: live_def)
    moreover have "n \<le> length (pending (fill b))" "n \<le> length (rbuf (fill b))"
      using fc(2) "1.prems"(2,3) by (simp_all add: consumes_def)
    ultimately show ?thesis
      using "1.IH" True f e0 fc(2) "1.prems"(3) by (subst (1 2 3) Peek_loop.simps)
        (auto simp: Buffered_def intro: consumes_trans0)
  next
    case False
    then show ?thesis
      using "1.prems" consumes_refl [OF inv]
      by (subst (1 2 3) Peek_loop.simps) (auto simp: Buffered_def)
  qed
qed

lemma live_lastByte [simp]: "live (b\<lparr>lastByte := l\<rparr>) = live b"
  by (simp add: live_def roomy_def)

lemma Peek_live:
  assumes "live b" and "n \<le> length (pending b)" and "n \<le> length (rbuf b)"
  shows "\<exists>b'. Peek (int n) b = (take n (pending b), None, b') \<and> live b' \<and> pending b' = pending b \<and> n \<le> Buffered b'"
proof -
  define c where "c = Peek_loop n (b\<lparr>lastByte := -1\<rparr>)"
  have c: "live c" "consumes b [] c" "n \<le> Buffered c"
    using Peek_loop_live [of "b\<lparr>lastByte := -1\<rparr>" n] assms by (simp_all add: c_def)
  then have inv: "reader_inv c" and len: "length (rbuf c) = length (rbuf b)" "pending c = pending b"
    by (simp_all add: consumes_def)
  have "take n (drop (rpos c) (rbuf c)) = take n (unread c)"
    using c(3) by (simp add: unread_def Buffered_def min_absorb1)
  also have "\<dots> = take n (pending c)"
    using c(3) length_unread_inv [OF inv] by (simp add: pending_def Buffered_def)
  also have "\<dots> = take n (pending b)" by (simp add: len(2))
  finally have "Peek (int n) b = (take n (pending b), None, c)"
    using c(3) assms(3) len(1) by (simp add: Peek_def c_def [symmetric] Let_def)
  with c len show ?thesis by blast
qed

lemma live_buffered: "live b \<Longrightarrow> Buffered b \<le> length (pending b) \<and> Buffered b \<le> length (rbuf b)"
  using length_unread_inv [of b]
  by (auto simp: live_def roomy_def pending_def Buffered_def reader_inv_def)

lemma upcomingHeaderNewlines_live:
  assumes "live b" and "pending b \<noteq> []"
  shows "\<exists>n b'. upcomingHeaderNewlines b = (n, b') \<and> live b' \<and> pending b' = pending b"
proof -
  have "1 \<le> length (rbuf b)" "1 \<le> length (pending b)"
    using assms by (auto simp: live_def roomy_def Suc_le_eq)
  from Peek_live [OF assms(1) this(2,1)] obtain b1 where
    b1: "Peek 1 b = (take 1 (pending b), None, b1)" "live b1" "pending b1 = pending b" "1 \<le> Buffered b1"
    by auto
  from Peek_live [OF b1(2), of "Buffered b1"] live_buffered [OF b1(2)] obtain b2 where
    "Peek (int (Buffered b1)) b1 = (take (Buffered b1) (pending b1), None, b2)" "live b2"
    "pending b2 = pending b1" by auto
  with b1 show ?thesis by (auto simp: upcomingHeaderNewlines_def)
qed

subsection \<open>Reading what is already buffered\<close>

text \<open>A reader whose buffer holds \<open>s\<close>, on a connection that is left alone.\<close>

definition buffered :: "conn_in \<Rightarrow> tcp_reader \<Rightarrow> string \<Rightarrow> bool" where
  "buffered src b s \<longleftrightarrow> reader_inv b \<and> unread b = s \<and> rsrc b = src \<and> rerr b = None"

lemma Peek_buffered:
  assumes "n \<le> Buffered b" and "reader_inv b"
  shows "Peek (int n) b = (take n (unread b), None, b\<lparr>lastByte := -1\<rparr>)"
proof -
  have "Peek_loop n (b\<lparr>lastByte := -1\<rparr>) = b\<lparr>lastByte := -1\<rparr>"
    using assms by (subst Peek_loop.simps) (simp add: Buffered_def)
  then show ?thesis
    using assms by (auto simp: Peek_def Let_def Buffered_def unread_def reader_inv_def min_absorb1)
qed

lemma Peek_1_buffered:
  assumes "buffered src b (c # s)"
  shows "Peek 1 b = ([c], None, b\<lparr>lastByte := -1\<rparr>)" and "buffered src (b\<lparr>lastByte := -1\<rparr>) (c # s)"
proof -
  have "length (unread b) = Buffered b"
    using assms length_unread_inv [of b] by (simp add: buffered_def Buffered_def)
  then show "Peek 1 b = ([c], None, b\<lparr>lastByte := -1\<rparr>)"
    using assms Peek_buffered [of 1 b] by (simp add: buffered_def)
  show "buffered src (b\<lparr>lastByte := -1\<rparr>) (c # s)" using assms by (simp add: buffered_def)
qed

lemma upcomingHeaderNewlines_buffered:
  assumes "buffered src b (c # s)"
  shows "\<exists>n b'. upcomingHeaderNewlines b = (n, b') \<and> buffered src b' (c # s)"
proof -
  let ?b = "b\<lparr>lastByte := -1\<rparr>"
  note p = Peek_1_buffered [OF assms]
  have "Peek (int (Buffered ?b)) ?b = (take (Buffered ?b) (unread ?b), None, ?b\<lparr>lastByte := -1\<rparr>)"
    using p(2) by (intro Peek_buffered) (simp_all add: buffered_def)
  with p show ?thesis by (auto simp: upcomingHeaderNewlines_def Let_def buffered_def)
qed

lemma ReadLine_buffered:
  assumes "buffered src b (l @ CHR 0x0A # rest)" and "CHR 0x0A \<notin> set l"
  shows "\<exists>b'. Reader_ReadLine False b = (l @ [CHR 0x0A], False, None, b') \<and> buffered src b' rest"
proof -
  have inv: "reader_inv b" and u: "unread b = l @ CHR 0x0A # rest" and src: "rsrc b = src"
    using assms(1) by (simp_all add: buffered_def)
  have f: "find_byte CHR 0x0A (unread b) = Some (length l)" using u assms(2) by simp
  let ?b = "b\<lparr>rpos := rpos b + (length l + 1)\<rparr>"
  have t: "take (length l + 1) (drop (rpos b) (rbuf b)) = l @ [CHR 0x0A]"
  proof -
    have "length l + 1 \<le> wpos b - rpos b"
      using u length_unread_inv [OF inv] by (metis Suc_eq_plus1 le_add1 length_append length_Cons add_Suc_right add_le_mono order_refl Suc_le_mono)
    then have "take (length l + 1) (drop (rpos b) (rbuf b)) = take (length l + 1) (unread b)"
      by (simp add: unread_def min_absorb1)
    then show ?thesis by (simp add: u)
  qed
  have "consumes b (l @ [CHR 0x0A]) ?b"
    using consumes_advance [OF inv, of "length l + 1"] t u length_unread_inv [OF inv] by simp
  moreover have "rsrc ?b = src" "rerr ?b = None" using assms(1) by (simp_all add: src buffered_def)
  ultimately have b: "buffered src (set_lastByte (l @ [CHR 0x0A]) ?b) rest"
    using u src by (auto simp: buffered_def consumes_def pending_def set_lastByte_def)
  have "ReadSlice_loop CHR 0x0A 0 b = (l @ [CHR 0x0A], None, ?b)"
    using f t by (subst ReadSlice_loop.simps) (simp add: Let_def unread_def)
  with b show ?thesis by (auto simp: Reader_ReadLine_def ReadSlice_def)
qed

lemma readLineSlice_buffered:
  assumes "buffered src b (l @ CHR 0x0A # rest)" and "CHR 0x0A \<notin> set l"
  shows "\<exists>b'. readLineSlice dropBreak b
      = Some (if dropBreak then drop_break (l @ [CHR 0x0A]) else l @ [CHR 0x0A], None, b') \<and> buffered src b' rest"
  using ReadLine_buffered [OF assms]
  by (cases dropBreak) (auto simp: readLineSlice_def readLine_loop.simps ReadLine_drop)

subsection \<open>Sources of lines\<close>

text \<open>
  What the parser of header blocks relies on: \<open>feeds b s\<close> says that the reader \<open>b\<close> will
  deliver \<open>s\<close>, line by line, and that it can be looked at without being read. A live
  connection provides it whatever way it cuts the bytes, and so does a full buffer,
  without touching the connection.
\<close>

locale line_source =
  fixes feeds :: "tcp_reader \<Rightarrow> string \<Rightarrow> bool"
  assumes line: "feeds b (l @ CHR 0x0A # rest) \<Longrightarrow> CHR 0x0A \<notin> set l \<Longrightarrow>
      \<exists>b'. readLineSlice dropBreak b
        = Some (if dropBreak then drop_break (l @ [CHR 0x0A]) else l @ [CHR 0x0A], None, b') \<and> feeds b' rest"
    and ahead: "feeds b (c # s) \<Longrightarrow> \<exists>n b'. upcomingHeaderNewlines b = (n, b') \<and> feeds b' (c # s)"
    and first: "feeds b (c # s) \<Longrightarrow> \<exists>b'. Peek 1 b = ([c], None, b') \<and> feeds b' (c # s)"

definition delivers :: "tcp_reader \<Rightarrow> string \<Rightarrow> bool" where
  "delivers b s \<longleftrightarrow> live b \<and> pending b = s"

interpretation live_source: line_source delivers
proof
  fix b l rest dropBreak
  assume "delivers b (l @ CHR 0x0A # rest)" and "CHR 0x0A \<notin> set l"
  then show "\<exists>b'. readLineSlice dropBreak b
      = Some (if dropBreak then drop_break (l @ [CHR 0x0A]) else l @ [CHR 0x0A], None, b') \<and> delivers b' rest"
    using readLineSlice_live [of b l rest] readLineSlice_drop [of b l rest]
    by (cases dropBreak) (simp_all add: delivers_def)
next
  fix b c s
  assume b: "delivers b (c # s)"
  then show "\<exists>n b'. upcomingHeaderNewlines b = (n, b') \<and> delivers b' (c # s)"
    using upcomingHeaderNewlines_live [of b] by (simp add: delivers_def)
  from b have "1 \<le> length (rbuf b)" by (auto simp: delivers_def live_def roomy_def)
  then show "\<exists>b'. Peek 1 b = ([c], None, b') \<and> delivers b' (c # s)"
    using b Peek_live [of b 1] by (auto simp: delivers_def)
qed

interpretation buffer_source: line_source "buffered src" for src
proof
  fix b c s
  assume b: "buffered src b (c # s)"
  show "\<exists>n b'. upcomingHeaderNewlines b = (n, b') \<and> buffered src b' (c # s)"
    by (rule upcomingHeaderNewlines_buffered [OF b])
  show "\<exists>b'. Peek 1 b = ([c], None, b') \<and> buffered src b' (c # s)"
    using Peek_1_buffered [OF b] by blast
qed (rule readLineSlice_buffered)

subsection \<open>Header blocks\<close>

text \<open>The fields of a header in the order they are written, and their lines.\<close>

definition wire_fields :: "header \<Rightarrow> (string \<times> string) list" where
  "wire_fields h =
     concat (map (\<lambda>(k, vs). map (\<lambda>v. (k, wire_value v)) vs) (sortedKeyValues (\<lambda>_. False) h))"

definition field_line :: "string \<times> string \<Rightarrow> string" where
  "field_line f = fst f @ '': '' @ snd f @ crlf"

definition add_field :: "string \<times> string \<Rightarrow> header \<Rightarrow> header" where
  "add_field f m = AList.update (fst f) (header_vals m (fst f) @ [snd f]) m"

text \<open>Field names a request can carry: tokens that are already canonical.\<close>

definition name_ok :: "string \<Rightarrow> bool" where
  "name_ok k \<longleftrightarrow> k \<noteq> [] \<and> list_all validHeaderFieldByte k \<and> CanonicalMIMEHeaderKey k = k"

definition value_ok :: "string \<Rightarrow> bool" where
  "value_ok v \<longleftrightarrow> CHR 0x0A \<notin> set v \<and> CHR 0x0D \<notin> set v \<and> (v \<noteq> [] \<longrightarrow> \<not> is_blank (hd v))"

lemma strings_fields:
  "concat (concat (map (\<lambda>(k, vs). concat (map (\<lambda>v. [k, '': '', wire_value v, crlf]) vs)) kvs))
    = concat (map field_line (concat (map (\<lambda>(k, vs). map (\<lambda>v. (k, wire_value v)) vs) kvs)))"
proof (induction kvs)
  case Nil
  show ?case by simp
next
  case (Cons kv kvs)
  obtain k vs where kv: "kv = (k, vs)" by (cases kv)
  have "concat (concat (map (\<lambda>v. [k, '': '', wire_value v, crlf]) vs))
      = concat (map field_line (map (\<lambda>v. (k, wire_value v)) vs))"
    by (induction vs) (simp_all add: field_line_def)
  with Cons kv show ?case by simp
qed

lemma header_wire_fields: "header_wire h = concat (map field_line (wire_fields h))"
  by (simp add: header_wire_eq header_strings_def wire_fields_def strings_fields)

lemma TrimString_hd: "TrimString s \<noteq> [] \<Longrightarrow> \<not> is_ascii_space (hd (TrimString s))"
proof -
  assume ne: "TrimString s \<noteq> []"
  define t where "t = dropWhile is_ascii_space s"
  have "t = rev (dropWhile is_ascii_space (rev t)) @ rev (takeWhile is_ascii_space (rev t))"
    by (metis rev_append rev_rev_ident takeWhile_dropWhile_id)
  then obtain u where "t = TrimString s @ u" by (auto simp: TrimString_def t_def)
  with ne have "t \<noteq> []" "hd (TrimString s) = hd t" by auto
  then show ?thesis by (simp add: t_def hd_dropWhile)
qed

lemma wire_value_ok: "value_ok (wire_value v)"
proof -
  have "is_blank c \<Longrightarrow> is_ascii_space c" for c by (auto simp: is_blank_def is_ascii_space_def)
  then show ?thesis
    using wire_value_clean [of _ v] TrimString_hd [of "newline_to_space v"]
    by (auto simp: value_ok_def wire_value_def)
qed

lemma drop_break_crlf [simp]: "drop_break (x @ crlf) = x"
  by (simp add: drop_break_def crlf_def nth_append)

lemma name_chars: "name_ok k \<Longrightarrow> CHR '':'' \<notin> set k \<and> CHR '' '' \<notin> set k \<and> CHR 0x0A \<notin> set k \<and> CHR 0x09 \<notin> set k"
proof -
  have "\<not> validHeaderFieldByte CHR '':''" "\<not> validHeaderFieldByte CHR '' ''"
    "\<not> validHeaderFieldByte CHR 0x0A" "\<not> validHeaderFieldByte CHR 0x09"
    by code_simp+
  then show "name_ok k \<Longrightarrow> ?thesis" by (auto simp: name_ok_def list_all_iff)
qed

lemma header_line_field:
  assumes "name_ok (fst f)" and "value_ok (snd f)"
  shows "header_line (fst f @ '': '' @ snd f) m = Inr (add_field f m)"
proof -
  note c = name_chars [OF assms(1)]
  have "find_byte CHR '':'' (fst f @ '': '' @ snd f) = Some (length (fst f))"
    using c find_byte_append_notin [of "CHR '':''" "fst f" "CHR '' '' # snd f"] by simp
  moreover have "trim_right_spaces (fst f) = fst f"
    using c by (cases "rev (fst f)") (auto simp: trim_right_spaces_def)
  moreover have "dropWhile is_blank (CHR '' '' # snd f) = snd f"
    using assms(2) by (cases "snd f") (auto simp: value_ok_def is_blank_def)
  ultimately show ?thesis
    using assms(1) by (simp add: header_line_def name_ok_def add_field_def Let_def)
qed

lemma ReadHeader_loop_step:
  assumes "readLineSlice False b = Some (kv, None, c)" and "kv \<noteq> []" and "kv \<noteq> crlf"
    and "drop_break kv \<noteq> []" and "header_line (drop_break kv) m = Inr m'"
  shows "\<exists>l. ReadHeader_loop False lastEnd m b = ReadHeader_loop False l m' c"
proof
  show "ReadHeader_loop False lastEnd m b =
      ReadHeader_loop False (if 2 \<le> length kv then drop (length kv - 2) kv else lastEnd) m' c"
    using assms by (subst ReadHeader_loop.simps) (simp add: Let_def)
qed

lemma header_vals_fold:
  "header_vals (fold add_field fs m) k = header_vals m k @ map snd (filter (\<lambda>f. fst f = k) fs)"
  by (induction fs arbitrary: m) (auto simp: add_field_def header_vals_update)

lemma filter_wire_fields:
  assumes "distinct (map fst kvs)"
  shows "map snd (filter (\<lambda>f. fst f = k) (concat (map (\<lambda>(k, vs). map (\<lambda>v. (k, wire_value v)) vs) kvs)))
    = (case map_of kvs k of Some vs \<Rightarrow> map wire_value vs | None \<Rightarrow> [])"
  using assms
proof (induction kvs)
  case Nil
  show ?case by simp
next
  case (Cons kv kvs)
  obtain k' vs where kv: "kv = (k', vs)" by (cases kv)
  have "k' = k \<Longrightarrow> map_of kvs k = None" using Cons.prems kv by (auto simp: map_of_eq_None_iff)
  then show ?case using Cons kv by (auto simp: filter_map comp_def)
qed

lemma map_of_sortedKeyValues:
  assumes "distinct (map fst h)"
  shows "map_of (sortedKeyValues (\<lambda>_. False) h) = map_of h"
    and "distinct (map fst (sortedKeyValues (\<lambda>_. False) h))"
proof -
  let ?s = "sortedKeyValues (\<lambda>_. False) h"
  have s: "set ?s = set h" by (simp add: sortedKeyValues_def)
  show d: "distinct (map fst ?s)"
    using assms by (simp add: sortedKeyValues_def distinct_map inj_on_def)
  from s d assms show "map_of ?s = map_of h" by (simp add: map_of_inject_set)
qed

lemma header_vals_wire:
  assumes "header_ok h"
  shows "header_vals (fold add_field (wire_fields h) []) k = map wire_value (header_vals h k)"
proof -
  have d: "distinct (map fst h)" using assms by (simp add: header_ok_def)
  show ?thesis
    using filter_wire_fields [OF map_of_sortedKeyValues(2) [OF d], of k]
    by (simp add: header_vals_fold wire_fields_def map_of_sortedKeyValues(1) [OF d])
      (simp add: header_vals_def split: option.splits)
qed

lemma wire_fields_ok:
  assumes "\<forall>(k, vs) \<in> set h. name_ok k" and "f \<in> set (wire_fields h)"
  shows "name_ok (fst f) \<and> value_ok (snd f)"
  using assms by (auto simp: wire_fields_def sortedKeyValues_def wire_value_ok)

lemma wire_start:
  assumes "\<forall>f \<in> set fs. name_ok (fst f)"
  shows "\<exists>c cs. concat (map field_line fs) @ crlf @ rest = c # cs \<and> \<not> is_blank c"
proof (cases fs)
  case Nil
  then show ?thesis by (simp add: crlf_def is_blank_def)
next
  case (Cons f fs')
  then have "name_ok (fst f)" using assms by simp
  then show ?thesis
    using name_chars [of "fst f"] Cons
    by (cases "fst f") (auto simp: field_line_def is_blank_def name_ok_def)
qed

context line_source
begin

lemma ReadHeader_loop_fields:
  assumes "feeds b (concat (map field_line fs) @ crlf @ rest)"
    and "\<forall>f \<in> set fs. name_ok (fst f) \<and> value_ok (snd f)"
  shows "\<exists>b'. ReadHeader_loop False lastEnd m b = Some (fold add_field fs m, None, b') \<and> feeds b' rest"
  using assms
proof (induction fs arbitrary: b m lastEnd)
  case Nil
  have "feeds b ([CHR 0x0D] @ CHR 0x0A # rest)" using Nil.prems(1) by (simp add: crlf_def)
  from line [OF this, of False] obtain b' where
    b': "readLineSlice False b = Some (crlf, None, b')" "feeds b' rest" by (auto simp: crlf_def)
  have d: "drop_break crlf = []" using drop_break_crlf [of "[]"] by simp
  have "ReadHeader_loop True lastEnd m b' = Some (m, None, b')"
    by (subst ReadHeader_loop.simps) simp
  then have "ReadHeader_loop False lastEnd m b = Some (m, None, b')"
    using b'(1) d by (subst ReadHeader_loop.simps) (auto simp: Let_def crlf_def)
  with b' show ?case by simp
next
  case (Cons f fs)
  let ?kv = "fst f @ '': '' @ snd f"
  have f: "name_ok (fst f)" "value_ok (snd f)" using Cons.prems(2) by simp_all
  let ?l = "?kv @ [CHR 0x0D]"
  let ?rest = "concat (map field_line fs) @ crlf @ rest"
  have "feeds b (?l @ CHR 0x0A # ?rest)"
    using Cons.prems(1) by (simp add: field_line_def [of f] crlf_def)
  moreover have "CHR 0x0A \<notin> set ?l"
    using name_chars [OF f(1)] f(2) by (simp add: value_ok_def)
  ultimately obtain c where c: "readLineSlice False b = Some (?kv @ crlf, None, c)" "feeds c ?rest"
    using line [of b ?l ?rest False] by (auto simp: crlf_def)
  obtain lastEnd' where
    "ReadHeader_loop False lastEnd m b = ReadHeader_loop False lastEnd' (add_field f m) c"
    using ReadHeader_loop_step [OF c(1), of m "add_field f m" lastEnd] header_line_field [OF f, of m]
      drop_break_crlf [of ?kv] by auto
  with Cons.IH [OF c(2), of lastEnd' "add_field f m"] Cons.prems(2) show ?case by auto
qed

lemma ReadHeader_wire:
  assumes "\<forall>(k, vs) \<in> set h. name_ok k" and "feeds b (header_wire h @ crlf @ rest)"
  shows "\<exists>b'. ReadHeader b = Some (fold add_field (wire_fields h) [], None, b') \<and> feeds b' rest"
proof -
  let ?fs = "wire_fields h"
  have ok: "\<forall>f \<in> set ?fs. name_ok (fst f) \<and> value_ok (snd f)"
    using wire_fields_ok [OF assms(1)] by blast
  obtain c cs where start: "concat (map field_line ?fs) @ crlf @ rest = c # cs" "\<not> is_blank c"
    using wire_start [of ?fs rest] ok by blast
  then have "feeds b (c # cs)" using assms(2) by (simp add: header_wire_fields)
  from ahead [OF this] obtain n b1 where b1: "upcomingHeaderNewlines b = (n, b1)" "feeds b1 (c # cs)" by blast
  from first [OF b1(2)] obtain b2 where b2: "Peek 1 b1 = ([c], None, b2)" "feeds b2 (c # cs)" by blast
  with start have "feeds b2 (concat (map field_line ?fs) @ crlf @ rest)" by simp
  from ReadHeader_loop_fields [OF this ok] obtain b' where
    "ReadHeader_loop False (replicate 2 (char_of (0 :: nat))) [] b2 = Some (fold add_field ?fs [], None, b')"
    "feeds b' rest" by blast
  with b1(1) b2(1) start(2) show ?thesis by (auto simp: ReadHeader_def)
qed

end

subsection \<open>Properties\<close>

text \<open>
  Reading a header always returns, whatever the connection delivers, and takes a
  prefix of the bytes to come: no input makes the line loop or the header loop spin.
\<close>

theorem ReadHeader_terminates:
  "\<exists>m err b' x. ReadHeader (NewReader src) = Some (m, err, b') \<and> conn_bytes src = x @ pending b'"
  using ReadHeader_always_returns [OF roomy_NewReader, of src]
  by (auto simp: consumes_def pending_NewReader)

text \<open>
  A line is read whole, however long it is and however the connection cuts it: the
  continued parts the reader hands out when its buffer is full are put together again.
\<close>

theorem readLineSlice_whole:
  assumes "clean src" and "conn_bytes src = l @ CHR 0x0A # rest" and "CHR 0x0A \<notin> set l"
  shows "\<exists>b'. readLineSlice False (NewReader src) = Some (l @ [CHR 0x0A], None, b') \<and> pending b' = rest"
  using readLineSlice_live [OF live_NewReader, of src l rest] assms by (auto simp: pending_NewReader)

theorem readLineSlice_whole_witness:
  "\<exists>b'. readLineSlice False (NewReader [(replicate 5000 CHR ''a'', None), (CHR 0x0A # ''b'', None)])
     = Some (replicate 5000 CHR ''a'' @ [CHR 0x0A], None, b') \<and> pending b' = ''b''"
  by (rule readLineSlice_whole) (auto simp: clean_def conn_bytes_def)

text \<open>
  C16: a header written by \<open>Write\<close> and followed by an empty line is read back: every field
  has the values it had, in their order, with line breaks and outer spaces cleaned as
  \<open>Write\<close> does, and the body is what remains to be read, for every cutting of the stream.
\<close>

theorem ReadHeader_Write:
  assumes "header_ok h" and "\<forall>(k, vs) \<in> set h. name_ok k"
    and "clean src" and "conn_bytes src = header_wire h @ crlf @ body"
  shows "\<exists>m b'. ReadHeader (NewReader src) = Some (m, None, b')
    \<and> (\<forall>k. header_vals m k = map wire_value (header_vals h k)) \<and> pending b' = body"
proof -
  have "delivers (NewReader src) (header_wire h @ crlf @ body)"
    using live_NewReader [OF assms(3)] assms(4) by (simp add: delivers_def pending_NewReader)
  from live_source.ReadHeader_wire [OF assms(2) this] show ?thesis
    using header_vals_wire [OF assms(1)] by (auto simp: delivers_def)
qed

theorem ReadHeader_Write_witness:
  "\<exists>m b'. ReadHeader (NewReader [(header_wire [(''Host'', ['' a.b''])], None), (crlf @ ''xyz'', None)]) = Some (m, None, b')
     \<and> header_vals m ''Host'' = [''a.b''] \<and> pending b' = ''xyz''"
proof -
  let ?h = "[(''Host'', ['' a.b''])]"
  have h: "header_ok ?h" "name_ok ''Host''" "header_wire ?h \<noteq> []"
    unfolding header_ok_def name_ok_def by code_simp+
  have w: "map wire_value (header_vals ?h ''Host'') = [''a.b'']" by code_simp
  have "clean [(header_wire ?h, None), (crlf @ ''xyz'', None)]" using h(3) by (simp add: clean_def crlf_def)
  then obtain m b' where "ReadHeader (NewReader [(header_wire ?h, None), (crlf @ ''xyz'', None)]) = Some (m, None, b')"
    "header_vals m ''Host'' = map wire_value (header_vals ?h ''Host'')" "pending b' = ''xyz''"
    using ReadHeader_Write [of ?h "[(header_wire ?h, None), (crlf @ ''xyz'', None)]" "''xyz''"] h
    by (auto simp: conn_bytes_def)
  with w show ?thesis by auto
qed

end
