(* ===== verification/Net_Url.thy ===== *)
theory Net_Url
  imports Net_Addr
begin

section \<open>URLs\<close>

text \<open>
  The part of Go's package \<open>net/url\<close> the HTTP stream calls: \<open>ParseRequestURI\<close>, \<open>String\<close> and
  \<open>Port\<close>. An error of the parser is \<open>None\<close>: the program only passes it on. A request URI has no
  fragment, a number sign is part of the path or of the query.
\<close>

datatype enc_mode = EncPath | EncHost | EncZone | EncUser

definition is_alnum :: "char \<Rightarrow> bool" where
  "is_alnum c \<longleftrightarrow> is_digit c \<or> (97 \<le> (of_char c :: nat) \<and> (of_char c :: nat) \<le> 122)
     \<or> (65 \<le> (of_char c :: nat) \<and> (of_char c :: nat) \<le> 90)"

definition quote_char :: char where "quote_char = CHR 0x27"

definition shouldEscape :: "enc_mode \<Rightarrow> char \<Rightarrow> bool" where
  "shouldEscape mode c =
     (if is_alnum c then False
      else if (mode = EncHost \<or> mode = EncZone) \<and> (c \<in> set ''!$&()*+,;=:[]<>'' \<or> c = CHR 0x22 \<or> c = quote_char) then False
      else if c \<in> set ''-_.~'' then False
      else if c \<in> set ''$&+,/:;=?@'' then
        (case mode of
           EncPath \<Rightarrow> c = CHR ''?''
         | EncUser \<Rightarrow> c \<in> set ''@/?:''
         | _ \<Rightarrow> True)
      else True)"

definition up_hex :: "nat \<Rightarrow> char" where
  "up_hex d = (if d < 10 then char_of (48 + d) else char_of (55 + d))"

definition escape :: "enc_mode \<Rightarrow> string \<Rightarrow> string" where
  "escape mode s =
     concat (map (\<lambda>c. if shouldEscape mode c
        then [CHR ''%'', up_hex (of_char c div 16), up_hex (of_char c mod 16)] else [c]) s)"

definition unhex :: "char \<Rightarrow> nat" where
  "unhex c = the (digit_val c)"

fun unescape :: "enc_mode \<Rightarrow> string \<Rightarrow> string option" where
  "unescape mode [] = Some []"
| "unescape mode (c # s) =
     (if c = CHR ''%'' then
        (case s of
           a # b # r \<Rightarrow>
             if \<not> is_hex a \<or> \<not> is_hex b then None
             else if mode = EncHost \<and> unhex a < 8 \<and> \<not> (a = CHR ''2'' \<and> b = CHR ''5'') then None
             else let v = unhex a * 16 + unhex b
                  in if mode = EncZone \<and> \<not> (a = CHR ''2'' \<and> b = CHR ''5'') \<and> v \<noteq> 32 \<and> shouldEscape EncHost (char_of v)
                     then None
                     else map_option (Cons (char_of v)) (unescape mode r)
         | _ \<Rightarrow> None)
      else if (mode = EncHost \<or> mode = EncZone) \<and> (of_char c :: nat) < 128 \<and> shouldEscape mode c then None
      else map_option (Cons c) (unescape mode s))"

record url =
  u_Scheme :: string
  u_Opaque :: string
  u_User :: "(string \<times> string option) option"
  u_Host :: string
  u_Path :: string
  u_RawPath :: string
  u_ForceQuery :: bool
  u_RawQuery :: string
  u_OmitHost :: bool

subsection \<open>Parsing\<close>

fun last_byte :: "char \<Rightarrow> string \<Rightarrow> nat option" where
  "last_byte b [] = None"
| "last_byte b (c # s) =
     (case last_byte b s of Some i \<Rightarrow> Some (Suc i) | None \<Rightarrow> if c = b then Some 0 else None)"

definition validOptionalPort :: "string \<Rightarrow> bool" where
  "validOptionalPort port = (case port of [] \<Rightarrow> True | c # ds \<Rightarrow> c = CHR '':'' \<and> list_all is_digit ds)"

definition parseHost :: "string \<Rightarrow> string option" where
  "parseHost host =
     (if HasPrefix host ''['' then
        (case last_byte CHR '']'' host of
           None \<Rightarrow> None
         | Some i \<Rightarrow>
             if \<not> validOptionalPort (drop (i + 1) host) then None
             else (case find_sub (take i host) ''%25'' of
                 Some z \<Rightarrow>
                   (case (unescape EncHost (take z host), unescape EncZone (drop z (take i host)),
                          unescape EncHost (drop i host)) of
                      (Some a, Some b, Some c) \<Rightarrow> Some (a @ b @ c)
                    | _ \<Rightarrow> None)
               | None \<Rightarrow> unescape EncHost host))
      else case last_byte CHR '':'' host of
          Some i \<Rightarrow> if validOptionalPort (drop i host) then unescape EncHost host else None
        | None \<Rightarrow> unescape EncHost host)"

definition validUserinfo :: "string \<Rightarrow> bool" where
  "validUserinfo s = list_all (\<lambda>c. is_alnum c \<or> c \<in> set ''-._:~!$&()*+,;=%@'' \<or> c = quote_char) s"

definition parseAuthority :: "string \<Rightarrow> ((string \<times> string option) option \<times> string) option" where
  "parseAuthority a =
     (case last_byte CHR ''@'' a of
        None \<Rightarrow> map_option (Pair None) (parseHost a)
      | Some i \<Rightarrow>
          (case parseHost (drop (i + 1) a) of
             None \<Rightarrow> None
           | Some host \<Rightarrow>
               let ui = take i a
               in if \<not> validUserinfo ui then None
                  else (case find_byte CHR '':'' ui of
                      None \<Rightarrow> map_option (\<lambda>u. (Some (u, None), host)) (unescape EncUser ui)
                    | Some j \<Rightarrow>
                        (case (unescape EncUser (take j ui), unescape EncUser (drop (j + 1) ui)) of
                           (Some u, Some p) \<Rightarrow> Some (Some (u, Some p), host)
                         | _ \<Rightarrow> None))))"

text \<open>\<open>getScheme\<close>: \<open>None\<close> is an error, otherwise the scheme and the rest.\<close>

fun scheme_scan :: "string \<Rightarrow> nat \<Rightarrow> string \<Rightarrow> (string \<times> string) option" where
  "scheme_scan raw i [] = Some ('''', raw)"
| "scheme_scan raw i (c # s) =
     (if is_alnum c \<and> \<not> is_digit c then scheme_scan raw (Suc i) s
      else if is_digit c \<or> c \<in> set ''+-.'' then
        (if i = 0 then Some ('''', raw) else scheme_scan raw (Suc i) s)
      else if c = CHR '':'' then (if i = 0 then None else Some (take i raw, s))
      else Some ('''', raw))"

definition lower_string :: "string \<Rightarrow> string" where
  "lower_string s = map (\<lambda>c. if 65 \<le> (of_char c :: nat) \<and> (of_char c :: nat) \<le> 90 then char_of ((of_char c :: nat) + 32) else c) s"

definition setPath :: "string \<Rightarrow> url \<Rightarrow> url option" where
  "setPath p u =
     (case unescape EncPath p of
        None \<Rightarrow> None
      | Some path \<Rightarrow> Some (u\<lparr>u_Path := path, u_RawPath := (if p = escape EncPath path then '''' else p)\<rparr>))"

definition empty_url :: url where
  "empty_url = \<lparr>u_Scheme = '''', u_Opaque = '''', u_User = None, u_Host = '''', u_Path = '''',
     u_RawPath = '''', u_ForceQuery = False, u_RawQuery = '''', u_OmitHost = False\<rparr>"

definition is_ctl :: "char \<Rightarrow> bool" where
  "is_ctl c \<longleftrightarrow> (of_char c :: nat) < 32 \<or> (of_char c :: nat) = 127"

definition split_query :: "string \<Rightarrow> url \<Rightarrow> string \<times> url" where
  "split_query rest u =
     (case find_byte CHR ''?'' rest of
        None \<Rightarrow> (rest, u)
      | Some i \<Rightarrow>
          if i + 1 = length rest then (take i rest, u\<lparr>u_ForceQuery := True\<rparr>)
          else (take i rest, u\<lparr>u_RawQuery := drop (i + 1) rest\<rparr>))"

definition ParseRequestURI :: "string \<Rightarrow> url option" where
  "ParseRequestURI raw =
     (if list_ex is_ctl raw then None
      else if raw = '''' then None
      else if raw = ''*'' then Some (empty_url\<lparr>u_Path := ''*''\<rparr>)
      else case scheme_scan raw 0 raw of
          None \<Rightarrow> None
        | Some (scheme, rest) \<Rightarrow>
            let u = empty_url\<lparr>u_Scheme := lower_string scheme\<rparr>;
                (rest, u) = split_query rest u
            in if \<not> HasPrefix rest ''/'' then
                 (if u_Scheme u \<noteq> '''' then Some (u\<lparr>u_Opaque := rest\<rparr>) else None)
               else if u_Scheme u \<noteq> '''' \<and> HasPrefix rest ''//'' then
                 (let a = drop 2 rest; i = (case find_byte CHR ''/'' a of Some i \<Rightarrow> i | None \<Rightarrow> length a)
                  in case parseAuthority (take i a) of
                       None \<Rightarrow> None
                     | Some (ui, host) \<Rightarrow> setPath (drop i a) (u\<lparr>u_User := ui, u_Host := host\<rparr>))
               else setPath rest (if u_Scheme u \<noteq> '''' then u\<lparr>u_OmitHost := True\<rparr> else u))"

subsection \<open>Printing\<close>

definition validEncodedPath :: "string \<Rightarrow> bool" where
  "validEncodedPath s =
     list_all (\<lambda>c. c \<in> set ''!$&()*+,;=:@[]%'' \<or> c = quote_char \<or> \<not> shouldEscape EncPath c) s"

definition EscapedPath :: "url \<Rightarrow> string" where
  "EscapedPath u =
     (if u_RawPath u \<noteq> '''' \<and> validEncodedPath (u_RawPath u) \<and> unescape EncPath (u_RawPath u) = Some (u_Path u)
      then u_RawPath u
      else if u_Path u = ''*'' then ''*'' else escape EncPath (u_Path u))"

definition userinfo_string :: "string \<times> string option \<Rightarrow> string" where
  "userinfo_string ui =
     (case ui of
        (u, None) \<Rightarrow> escape EncUser u
      | (u, Some p) \<Rightarrow> escape EncUser u @ '':'' @ escape EncUser p)"

definition url_prefix :: "url \<Rightarrow> string" where
  "url_prefix u =
     (if u_Scheme u \<noteq> '''' then u_Scheme u @ '':'' else '''') @
     (if (u_Scheme u \<noteq> '''' \<or> u_Host u \<noteq> '''' \<or> u_User u \<noteq> None)
          \<and> \<not> (u_OmitHost u \<and> u_Host u = '''' \<and> u_User u = None) then
        (if u_Host u \<noteq> '''' \<or> u_Path u \<noteq> '''' \<or> u_User u \<noteq> None then ''//'' else '''') @
        (case u_User u of None \<Rightarrow> '''' | Some ui \<Rightarrow> userinfo_string ui @ ''@'') @
        escape EncHost (u_Host u)
      else '''')"

definition url_String :: "url \<Rightarrow> string" where
  "url_String u =
     (if u_Opaque u \<noteq> ''''
      then (if u_Scheme u \<noteq> '''' then u_Scheme u @ '':'' else '''') @ u_Opaque u
      else
        let pre = url_prefix u; path = EscapedPath u;
            pre = (if path \<noteq> '''' \<and> hd path \<noteq> CHR ''/'' \<and> u_Host u \<noteq> '''' then pre @ ''/'' else pre);
            pre = (if pre = '''' \<and> CHR '':'' \<in> set path \<and> CHR ''/'' \<notin> set (takeWhile (\<lambda>c. c \<noteq> CHR '':'') path)
                   then ''./'' else pre)
        in pre @ path)
     @ (if u_ForceQuery u \<or> u_RawQuery u \<noteq> '''' then CHR ''?'' # u_RawQuery u else '''')"

definition url_Port :: "url \<Rightarrow> string" where
  "url_Port u =
     (case last_byte CHR '':'' (u_Host u) of
        Some i \<Rightarrow> if validOptionalPort (drop i (u_Host u)) then drop (i + 1) (u_Host u) else ''''
      | None \<Rightarrow> '''')"

subsection \<open>Lemmas\<close>

text \<open>Host names that need no escaping.\<close>

definition host_char :: "char \<Rightarrow> bool" where
  "host_char c \<longleftrightarrow> is_alnum c \<or> c \<in> set ''-_.~''"

definition path_char :: "char \<Rightarrow> bool" where
  "path_char c \<longleftrightarrow> is_alnum c \<or> c \<in> set ''-_.~/$&+,:;=@''"

lemma host_char_plain: "host_char c \<Longrightarrow> \<not> shouldEscape m c"
  by (auto simp: host_char_def shouldEscape_def)

lemma path_char_plain: "path_char c \<Longrightarrow> \<not> shouldEscape EncPath c"
  by (auto simp: path_char_def shouldEscape_def)

lemma alnum_neq: "is_alnum c \<Longrightarrow> c \<noteq> CHR ''%'' \<and> c \<noteq> CHR ''?'' \<and> c \<noteq> CHR '':'' \<and> c \<noteq> CHR ''/''
    \<and> c \<noteq> CHR ''@'' \<and> c \<noteq> CHR ''['' \<and> c \<noteq> CHR '' '' \<and> \<not> is_ctl c"
  by (auto simp: is_alnum_def is_digit_def is_ctl_def)

lemma escape_plain: "list_all (\<lambda>c. \<not> shouldEscape m c) s \<Longrightarrow> escape m s = s"
  by (induction s) (auto simp: escape_def)

lemma unescape_plain: "list_all (\<lambda>c. \<not> shouldEscape m c \<and> c \<noteq> CHR ''%'') s \<Longrightarrow> unescape m s = Some s"
  by (induction s) auto

lemma last_byte_notin: "last_byte b s = None \<longleftrightarrow> b \<notin> set s"
  by (induction s) (auto split: option.splits)

lemma last_byte_append: "b \<notin> set t \<Longrightarrow> last_byte b (s @ b # t) = Some (length s)"
  by (induction s) (auto simp: last_byte_notin [THEN iffD2])

text \<open>Paths and queries that are kept as they are.\<close>

definition plain_path :: "string \<Rightarrow> bool" where
  "plain_path p \<longleftrightarrow> HasPrefix p ''/'' \<and> list_all path_char p"

definition plain_query :: "string \<Rightarrow> bool" where
  "plain_query q \<longleftrightarrow> (q = [] \<or> hd q = CHR ''?'') \<and> \<not> list_ex is_ctl q"

definition plain_host :: "string \<Rightarrow> bool" where
  "plain_host hp \<longleftrightarrow> (\<exists>h p. h \<noteq> [] \<and> list_all host_char h \<and> (hp = h \<or> hp = h @ CHR '':'' # port_str p))"

lemma path_char_neq: "path_char c \<Longrightarrow> c \<noteq> CHR ''?'' \<and> c \<noteq> CHR ''%'' \<and> \<not> is_ctl c"
  using alnum_neq [of c] by (auto simp: path_char_def is_ctl_def)

lemma host_char_neq: "host_char c \<Longrightarrow> c \<noteq> CHR ''?'' \<and> c \<noteq> CHR ''%'' \<and> c \<noteq> CHR '':'' \<and> c \<noteq> CHR ''/''
    \<and> c \<noteq> CHR ''@'' \<and> c \<noteq> CHR ''['' \<and> c \<noteq> CHR '' '' \<and> \<not> is_ctl c"
  using alnum_neq [of c] by (auto simp: host_char_def is_ctl_def)

lemma port_chars: "list_all (\<lambda>c. is_digit c) (port_str p)"
  using digits_dec [of "nat (uint p)"] by (simp add: port_str_def Itoa_def)

lemma digit_host: "is_digit c \<Longrightarrow> host_char c"
  by (simp add: host_char_def is_alnum_def)

lemma plain_host_chars: "plain_host hp \<Longrightarrow> c \<in> set hp \<Longrightarrow> host_char c \<or> c = CHR '':''"
  using port_chars digit_host by (auto simp: plain_host_def list_all_iff)

lemma plain_host_plain: "plain_host hp \<Longrightarrow> list_all (\<lambda>c. \<not> shouldEscape EncHost c \<and> c \<noteq> CHR ''%'') hp"
proof -
  have "\<not> shouldEscape EncHost CHR '':''" by (simp add: shouldEscape_def)
  moreover assume "plain_host hp"
  ultimately have "\<not> shouldEscape EncHost c \<and> c \<noteq> CHR ''%''" if "c \<in> set hp" for c
    using plain_host_chars [OF _ that] host_char_plain [of c] host_char_neq [of c] by auto
  then show ?thesis by (simp add: list_all_iff)
qed

lemma plain_host_escape: "plain_host hp \<Longrightarrow> escape EncHost hp = hp"
  using plain_host_plain [of hp] by (intro escape_plain) (simp add: list_all_iff)

lemma plain_host_unescape: "plain_host hp \<Longrightarrow> unescape EncHost hp = Some hp"
  using plain_host_plain [of hp] by (intro unescape_plain)

lemma validOptionalPort_str: "validOptionalPort (CHR '':'' # port_str p)"
  using port_chars by (simp add: validOptionalPort_def)

lemma plain_host_parse: "plain_host hp \<Longrightarrow> parseHost hp = Some hp"
proof -
  assume hp: "plain_host hp"
  then obtain h p where h: "h \<noteq> []" "list_all host_char h" "hp = h \<or> hp = h @ CHR '':'' # port_str p"
    by (auto simp: plain_host_def)
  have nb: "\<not> HasPrefix hp ''[''" using h host_char_neq by (cases h) auto
  have "CHR '':'' \<notin> set h" using h(2) host_char_neq by (auto simp: list_all_iff)
  then have "last_byte CHR '':'' hp = None \<or> (\<exists>i. last_byte CHR '':'' hp = Some i \<and> validOptionalPort (drop i hp))"
    using h(3) validOptionalPort_str [of p] by (auto simp: last_byte_notin last_byte_append)
  then show ?thesis using nb plain_host_unescape [OF hp] by (auto simp: parseHost_def)
qed

lemma plain_host_authority: "plain_host hp \<Longrightarrow> parseAuthority hp = Some (None, hp)"
proof -
  assume hp: "plain_host hp"
  then have "CHR ''@'' \<notin> set hp"
    using plain_host_chars [OF hp, of "CHR ''@''"] host_char_neq [of "CHR ''@''"] by auto
  then have "last_byte CHR ''@'' hp = None" by (simp add: last_byte_notin)
  then show ?thesis by (simp add: parseAuthority_def plain_host_parse [OF hp])
qed

lemma plain_path_unescape: "list_all path_char p \<Longrightarrow> unescape EncPath p = Some p"
  using path_char_plain path_char_neq by (intro unescape_plain) (auto simp: list_all_iff)

lemma plain_path_escape: "list_all path_char p \<Longrightarrow> escape EncPath p = p"
  using path_char_plain by (intro escape_plain) (auto simp: list_all_iff)

lemma setPath_plain: "list_all path_char p \<Longrightarrow> setPath p u = Some (u\<lparr>u_Path := p, u_RawPath := ''''\<rparr>)"
  by (simp add: setPath_def plain_path_unescape plain_path_escape)

definition query_url :: "string \<Rightarrow> url \<Rightarrow> url" where
  "query_url q u = (if q = [] then u else if q = ''?'' then u\<lparr>u_ForceQuery := True\<rparr> else u\<lparr>u_RawQuery := tl q\<rparr>)"

lemma split_query_plain:
  assumes "CHR ''?'' \<notin> set p" and "plain_query q"
  shows "split_query (p @ q) u = (p, query_url q u)"
proof (cases q)
  case Nil
  then show ?thesis using assms(1) by (simp add: split_query_def query_url_def find_byte_None_iff [THEN iffD2])
next
  case (Cons c r)
  then have "q = CHR ''?'' # r" using assms(2) by (simp add: plain_query_def)
  then show ?thesis using assms(1) by (auto simp: split_query_def query_url_def)
qed

lemma plain_path_no_query: "plain_path p \<Longrightarrow> CHR ''?'' \<notin> set p"
  using path_char_neq by (auto simp: plain_path_def list_all_iff)

lemma plain_path_no_ctl: "plain_path p \<Longrightarrow> \<not> list_ex is_ctl p"
  using path_char_neq by (auto simp: plain_path_def list_all_iff list_ex_iff)

lemma plain_path_Cons: "plain_path p \<Longrightarrow> \<exists>r. p = CHR ''/'' # r"
  by (cases p) (auto simp: plain_path_def HasPrefix_def)

lemma query_url_simps [simp]:
  "u_Scheme (query_url q u) = u_Scheme u" "u_Host (query_url q u) = u_Host u"
  "u_User (query_url q u) = u_User u" "u_Opaque (query_url q u) = u_Opaque u"
  "u_Path (query_url q u) = u_Path u" "u_RawPath (query_url q u) = u_RawPath u"
  "u_OmitHost (query_url q u) = u_OmitHost u"
  by (simp_all add: query_url_def)

lemma query_string:
  "plain_query q \<Longrightarrow> \<not> u_ForceQuery u \<Longrightarrow> u_RawQuery u = [] \<Longrightarrow>
   (if u_ForceQuery (query_url q u) \<or> u_RawQuery (query_url q u) \<noteq> '''' then CHR ''?'' # u_RawQuery (query_url q u) else '''') = q"
  by (cases q) (auto simp: query_url_def plain_query_def)

lemma empty_url_simps [simp]:
  "u_Scheme empty_url = ''''" "u_Host empty_url = ''''" "u_User empty_url = None" "u_Opaque empty_url = ''''"
  "u_Path empty_url = ''''" "u_RawPath empty_url = ''''" "\<not> u_OmitHost empty_url" "\<not> u_ForceQuery empty_url"
  "u_RawQuery empty_url = ''''"
  by (simp_all add: empty_url_def)

text \<open>The three shapes of request URI: origin form, absolute form, and a bare authority.\<close>

lemma ParseRequestURI_origin:
  assumes "plain_path p" and "plain_query q"
  shows "ParseRequestURI (p @ q) = Some (query_url q (empty_url\<lparr>u_Path := p\<rparr>))"
proof -
  obtain r where r: "p = CHR ''/'' # r" using plain_path_Cons [OF assms(1)] by blast
  have "\<not> list_ex is_ctl (p @ q)" using assms plain_path_no_ctl by (simp add: plain_query_def)
  moreover have "scheme_scan (p @ q) 0 (p @ q) = Some ('''', p @ q)"
    unfolding r by (simp add: is_alnum_def is_digit_def)
  moreover have "list_all path_char p" using assms(1) by (simp add: plain_path_def)
  ultimately show ?thesis
    using split_query_plain [OF plain_path_no_query [OF assms(1)] assms(2)] setPath_plain [of p]
    by (simp add: ParseRequestURI_def r empty_url_def lower_string_def query_url_def)
qed

lemma ParseRequestURI_absolute:
  assumes "plain_host hp" and "p = [] \<or> plain_path p" and "plain_query q"
  shows "ParseRequestURI (''http://'' @ hp @ p @ q) = Some (query_url q (empty_url\<lparr>u_Scheme := ''http'', u_Host := hp, u_Path := p\<rparr>))"
proof -
  let ?raw = "''http://'' @ hp @ p @ q"
  have hc: "c \<in> set hp \<Longrightarrow> c \<noteq> CHR ''?'' \<and> c \<noteq> CHR ''/'' \<and> \<not> is_ctl c" for c
    using plain_host_chars [OF assms(1), of c] host_char_neq [of c] by (auto simp: is_ctl_def)
  have pc: "list_all path_char p" "CHR ''?'' \<notin> set p" "\<not> list_ex is_ctl p"
    using assms(2) plain_path_no_query plain_path_no_ctl by (auto simp: plain_path_def)
  have ctl: "\<not> list_ex is_ctl ?raw"
    using hc pc(3) assms(3) by (auto simp: plain_query_def list_ex_iff is_ctl_def)
  have sch: "scheme_scan ?raw 0 ?raw = Some (''http'', ''//'' @ hp @ p @ q)"
    by (simp add: is_alnum_def is_digit_def)
  have "CHR ''?'' \<notin> set (''//'' @ hp @ p)" using hc pc(2) by auto
  from split_query_plain [OF this assms(3)]
  have sq: "split_query (''//'' @ hp @ p @ q) u = (''//'' @ hp @ p, query_url q u)" for u by simp
  have tk: "take (case find_byte CHR ''/'' (hp @ p) of Some i \<Rightarrow> i | None \<Rightarrow> length (hp @ p)) (hp @ p) = hp
      \<and> drop (case find_byte CHR ''/'' (hp @ p) of Some i \<Rightarrow> i | None \<Rightarrow> length (hp @ p)) (hp @ p) = p"
  proof (cases "p = []")
    case True
    have "CHR ''/'' \<notin> set hp" using hc by blast
    then have "find_byte CHR ''/'' hp = None" by (simp add: find_byte_None_iff)
    with True show ?thesis by simp
  next
    case False
    then obtain r where "p = CHR ''/'' # r" using assms(2) plain_path_Cons by blast
    moreover have "CHR ''/'' \<notin> set hp" using hc by blast
    ultimately show ?thesis by simp
  qed
  have low: "lower_string ''http'' = ''http''" by (simp add: lower_string_def)
  show ?thesis
    using ctl sch sq tk plain_host_authority [OF assms(1)] setPath_plain [OF pc(1)]
    by (simp add: ParseRequestURI_def low Let_def HasPrefix_def empty_url_def query_url_def)
qed

lemma url_String_origin:
  assumes "plain_path p" and "plain_query q"
  shows "url_String (query_url q (empty_url\<lparr>u_Path := p\<rparr>)) = p @ q"
proof -
  have p: "list_all path_char p" "p \<noteq> []" "hd p = CHR ''/''" "p \<noteq> ''*''"
    using plain_path_Cons [OF assms(1)] assms(1) by (auto simp: plain_path_def)
  then have "EscapedPath (query_url q (empty_url\<lparr>u_Path := p\<rparr>)) = p"
    by (simp add: EscapedPath_def plain_path_escape)
  moreover have "takeWhile (\<lambda>c. c \<noteq> CHR '':'') p = [] \<or> CHR ''/'' \<in> set (takeWhile (\<lambda>c. c \<noteq> CHR '':'') p)"
    using p(2,3) by (cases p) auto
  moreover from this have "CHR ''/'' \<in> set (takeWhile (\<lambda>c. c \<noteq> CHR '':'') p)"
    using p(2,3) by (cases p) auto
  ultimately show ?thesis
    unfolding url_String_def using query_string [OF assms(2), of "empty_url\<lparr>u_Path := p\<rparr>"] p(3)
    by (simp only: Let_def) (simp add: url_prefix_def)
qed

lemma url_String_absolute:
  assumes "plain_host hp" and "p = [] \<or> plain_path p" and "plain_query q"
  shows "url_String (query_url q (empty_url\<lparr>u_Scheme := ''http'', u_Host := hp, u_Path := p\<rparr>)) = ''http://'' @ hp @ p @ q"
proof -
  let ?u = "query_url q (empty_url\<lparr>u_Scheme := ''http'', u_Host := hp, u_Path := p\<rparr>)"
  have p: "list_all path_char p" "p = [] \<or> hd p = CHR ''/''" "p \<noteq> ''*''"
    using assms(2) plain_path_Cons [of p] by (auto simp: plain_path_def)
  then have "EscapedPath ?u = p" by (simp add: EscapedPath_def plain_path_escape)
  moreover have "hp \<noteq> []" using assms(1) by (auto simp: plain_host_def)
  then have "url_prefix ?u = ''http://'' @ hp"
    by (simp add: url_prefix_def plain_host_escape [OF assms(1)])
  moreover have "(if u_ForceQuery ?u \<or> u_RawQuery ?u \<noteq> '''' then CHR ''?'' # u_RawQuery ?u else '''') = q"
    by (rule query_string [OF assms(3)]) simp_all
  ultimately show ?thesis
    unfolding url_String_def using p(2) by (simp only: Let_def) auto
qed

end
