(* ===== verification/Http_Stream.thy ===== *)
theory Http_Stream
  imports Text_Reader Net_Url Tunnel
begin

section \<open>HTTP requests\<close>

text \<open>
  \<open>proto/http.go\<close> without its response: recognising an HTTP request on the first bytes of a
  connection, reading the request line, the header and the part of the body that is
  already buffered, and working out the destination. Results are wrapped twice: \<open>None\<close>
  means the code does not return, \<open>Some Panics\<close> that it panics.
\<close>

subsection \<open>The stream\<close>

record http_stream =
  hs_Method :: string
  hs_RequestURI :: string
  hs_URL :: url
  hs_Proto :: string
  hs_Host :: string
  hs_Header :: header
  hs_FirstLine :: string
  hs_BodyBuf :: string
  hs_clientUnRead :: int

definition newHTTPStream :: http_stream where
  "newHTTPStream =
     \<lparr>hs_Method = '''', hs_RequestURI = '''', hs_URL = empty_url, hs_Proto = '''', hs_Host = '''',
      hs_Header = [], hs_FirstLine = '''', hs_BodyBuf = '''', hs_clientUnRead = 0\<rparr>"

subsection \<open>The request line\<close>

definition parseRequestLine :: "string \<Rightarrow> string \<times> string \<times> bool" where
  "parseRequestLine line =
     (let s1 = strings_Index line '' '';
          s2 = strings_Index (drop (nat (s1 + 1)) line) '' ''
      in if s1 < 0 \<or> s2 < 0 then ('''', '''', False)
         else let s2 = s2 + (s1 + 1)
              in (take (nat (s2 - (s1 + 1))) (drop (nat (s1 + 1)) line), drop (nat (s2 + 1)) line, True))"

definition readFistLine :: "http_stream \<Rightarrow> tcp_reader \<Rightarrow> (bool \<times> http_stream \<times> tcp_reader) option" where
  "readFistLine hs b =
     Option.bind (Text_ReadLine True b) (\<lambda>(line, err, b).
       let hs = hs\<lparr>hs_FirstLine := line\<rparr>
       in if err \<noteq> None then Some (False, hs, b)
          else
            let (uri, pr, ok) = parseRequestLine line;
                hs = hs\<lparr>hs_RequestURI := uri, hs_Proto := pr\<rparr>
            in if \<not> ok then Some (False, hs, b)
               else if pr \<noteq> ''HTTP/1.0'' \<and> pr \<noteq> ''HTTP/1.1'' then Some (False, hs, b)
               else Some (True, hs, b))"

definition allMethods :: "string list" where
  "allMethods = [''CONNECT'', ''OPTIONS'', ''DELETE'', ''TRACE'', ''POST'', ''HEAD'', ''GET'', ''PUT'']"

definition http_validHead :: "http_stream \<Rightarrow> tcp_reader \<Rightarrow> (bool \<times> http_stream \<times> tcp_reader) option" where
  "http_validHead hs b =
     (if Buffered b < 8 then Some (False, hs, b)
      else case Peek 8 b of (tmpBuf, err, b) \<Rightarrow>
        if err \<noteq> None then Some (False, hs, b)
        else case find_byte CHR '' '' tmpBuf of
            None \<Rightarrow> Some (False, hs, b)
          | Some s1 \<Rightarrow>
              let hs = hs\<lparr>hs_Method := ToUpper (take s1 tmpBuf)\<rparr>
              in if hs_Method hs \<in> set allMethods then readFistLine hs b else Some (False, hs, b))"

subsection \<open>The destination\<close>

definition parseContentLength :: "string \<Rightarrow> int go_ret" where
  "parseContentLength cl =
     (let cl = TrimSpace cl
      in if cl = '''' then (-1, None)
         else case ParseInt cl 10 64 of
             (n, err) \<Rightarrow>
               if err \<noteq> None \<or> n < 0 then (0, Some (ErrMsg (''bad Content-Length '' @ cl))) else (n, None))"

definition firstLineHost :: "router \<Rightarrow> string \<Rightarrow> string" where
  "firstLineHost r host =
     (case fl_Custom (r_FirstLine r) (ReplaceByte CHR '':'' CHR ''.'' host) of
        Some v \<Rightarrow> v
      | None \<Rightarrow> if fl_Host (r_FirstLine r) = ''off'' then ''off'' else ''on'')"

text \<open>The URI a client of the tunnel mode sends is encrypted.\<close>

definition request_uri :: "block_fun \<Rightarrow> router \<Rightarrow> string \<Rightarrow> string \<Rightarrow> string \<Rightarrow> (go_err + string) outcome" where
  "request_uri D r method from uri =
     (if method = ''CONNECT'' \<and> from = ''server'' then
        (case base64_decode uri of
           None \<Rightarrow> Returns (Inl (ErrMsg ''illegal base64 data''))
         | Some x1 \<Rightarrow>
             if x1 = [] then Returns (Inr uri)
             else case DecryptAES D x1 (getToken r) of
                 Panics \<Rightarrow> Panics
               | Returns (x2, Some err) \<Rightarrow> Returns (Inl err)
               | Returns (x2, None) \<Rightarrow> Returns (Inr x2))
      else Returns (Inr uri))"

text \<open>The host of the request: the URL's, the header's, or the header's with the URL's port.\<close>

definition fix_host :: "url \<Rightarrow> header \<Rightarrow> string \<times> url" where
  "fix_host u h =
     (let hh = Header_Get h ''Host''
      in if u_Host u = '''' then (hh, u\<lparr>u_Host := hh, u_Scheme := ''http''\<rparr>)
         else if hh \<noteq> '''' \<and> hh \<noteq> u_Host u then
           (let host = (if CHR '':'' \<in> set (u_Host u) \<and> CHR '':'' \<notin> set hh then hh @ '':'' @ url_Port u else hh)
            in (host, u\<lparr>u_Host := host\<rparr>))
         else (u_Host u, u))"

text \<open>The request line that is sent on; the slice \<open>RequestURI[7:]\<close> of a shorter string panics.\<close>

definition first_line :: "router \<Rightarrow> string \<Rightarrow> string \<Rightarrow> bool \<Rightarrow> url \<Rightarrow> (string \<times> string \<times> url) outcome" where
  "first_line r method pr addedScheme u =
     (if addedScheme then
        let uri = url_String u
        in if length uri < 7 then Panics
           else Returns (uri, method @ '' '' @ drop 7 uri @ '' '' @ pr, u)
      else
        let u = (if lower_string (u_Scheme u) = ''http'' \<and> firstLineHost r (u_Host u) = ''off''
                 then u\<lparr>u_Scheme := '''', u_Host := ''''\<rparr> else u);
            uri = url_String u
        in Returns (uri, method @ '' '' @ uri @ '' '' @ pr, u))"

text \<open>
  How much of the body is still to come from the client: -1 means a connection without
  end, as for CONNECT, an upgrade, a transfer coding and HTTP/1.0.
\<close>

definition body_all :: "http_stream \<Rightarrow> tcp_reader \<Rightarrow> http_stream \<times> tcp_reader" where
  "body_all hs b =
     (case UnreadBuf (-1) b of (d, b) \<Rightarrow> (hs\<lparr>hs_BodyBuf := d, hs_clientUnRead := -1\<rparr>, b))"

definition readBody :: "http_stream \<Rightarrow> tcp_reader \<Rightarrow> http_stream \<times> tcp_reader" where
  "readBody hs b =
     (let h = map_of (hs_Header hs)
      in if hs_Method hs = ''CONNECT'' then body_all hs b
         else if hs_Proto hs = ''HTTP/1.1'' then
           (if (case h ''Connection'' of Some test \<Rightarrow> hd test = ''Upgrade'' | None \<Rightarrow> False) then body_all hs b
            else if h ''Transfer-Encoding'' \<noteq> None then body_all hs b
            else case h ''Content-Length'' of
                Some contentLen \<Rightarrow>
                  (case parseContentLength (hd contentLen) of
                     (bodyLen, None) \<Rightarrow>
                       (case UnreadBuf bodyLen b of (d, b) \<Rightarrow>
                          (hs\<lparr>hs_BodyBuf := d, hs_clientUnRead := bodyLen - int (length d)\<rparr>, b))
                   | (bodyLen, Some err) \<Rightarrow> (hs\<lparr>hs_clientUnRead := 0\<rparr>, b))
              | None \<Rightarrow> (hs\<lparr>hs_clientUnRead := 0\<rparr>, b))
         else body_all hs b)"

text \<open>The destination name and port; an unparsable port is what \<open>ParseUint\<close> returns beside its error.\<close>

definition getNameIPPort :: "string \<Rightarrow> url \<Rightarrow> string \<times> 16 word" where
  "getNameIPPort host u =
     (let splitStr = Split host '':'';
          DstName = hd splitStr;
          p = (if length splitStr = 2 then uint16 (int (fst (ParseUint (splitStr ! 1) 0 16))) else 0)
      in if p > 0 then (DstName, p)
         else
           let p = uint16 (int (fst (ParseUint (url_Port u) 0 16)))
           in (DstName, if p = 0 then (if u_Scheme u = ''https'' then 443 else 80) else p))"

subsection \<open>Reading a request\<close>

type_synonym 'a run = "'a outcome option"

text \<open>The result is \<open>canProxy\<close>, the error, the stream, the destination and the reader.\<close>

definition readRequest_body ::
  "router \<Rightarrow> bool \<Rightarrow> http_stream \<Rightarrow> string \<times> 16 word \<Rightarrow> tcp_reader
     \<Rightarrow> (bool \<times> go_err option \<times> http_stream \<times> (string \<times> 16 word) \<times> tcp_reader) outcome" where
  "readRequest_body r addedScheme hs dst b =
     (let (host, u) = fix_host (hs_URL hs) (hs_Header hs);
          hs = hs\<lparr>hs_Host := host, hs_URL := u\<rparr>
      in case first_line r (hs_Method hs) (hs_Proto hs) addedScheme u of
           Panics \<Rightarrow> Panics
         | Returns (uri, line, u) \<Rightarrow>
             let hs = hs\<lparr>hs_RequestURI := uri, hs_FirstLine := line, hs_URL := u\<rparr>;
                 (hs, b) = readBody hs b
             in Returns (True, None, hs, getNameIPPort (hs_Host hs) (hs_URL hs), b))"

definition http_readRequest ::
  "block_fun \<Rightarrow> router \<Rightarrow> string \<Rightarrow> http_stream \<Rightarrow> string \<times> 16 word \<Rightarrow> tcp_reader
     \<Rightarrow> (bool \<times> go_err option \<times> http_stream \<times> (string \<times> 16 word) \<times> tcp_reader) run" where
  "http_readRequest D r from hs dst b =
     (case request_uri D r (hs_Method hs) from (hs_RequestURI hs) of
        Panics \<Rightarrow> Some Panics
      | Returns (Inl err) \<Rightarrow> Some (Returns (False, Some err, hs, dst, b))
      | Returns (Inr rawurl) \<Rightarrow>
          let justAuthority = (hs_Method hs = ''CONNECT'' \<and> \<not> HasPrefix rawurl ''/'');
              rawurl = (if justAuthority then ''http://'' @ rawurl else rawurl)
          in case ParseRequestURI rawurl of
               None \<Rightarrow> Some (Returns (False, Some (ErrMsg ''url''), hs, dst, b))
             | Some u \<Rightarrow>
                 Option.bind (ReadHeader b) (\<lambda>(h, err, b).
                   let hs = hs\<lparr>hs_URL := u, hs_Header := h\<rparr>
                   in if err \<noteq> None then Some (Returns (False, err, hs, dst, b))
                      else Some (readRequest_body r justAuthority hs dst b)))"

text \<open>The log line of a request; an empty request URI panics.\<close>

definition Request_str :: "http_stream \<Rightarrow> string outcome" where
  "Request_str hs =
     (case hs_RequestURI hs of
        [] \<Rightarrow> Panics
      | c # _ \<Rightarrow> Returns (if c = CHR ''/'' then hs_Host hs @ hs_RequestURI hs else hs_RequestURI hs))"

subsection \<open>Lemmas\<close>

lemma strings_Index_byte: "strings_Index s [b] = (case find_byte b s of None \<Rightarrow> -1 | Some i \<Rightarrow> int i)"
  by (simp add: strings_Index_def find_sub_single)

lemma parseRequestLine_words:
  assumes "CHR '' '' \<notin> set m" and "CHR '' '' \<notin> set u"
  shows "parseRequestLine (m @ '' '' @ u @ '' '' @ pr) = (u, pr, True)"
proof -
  have 1: "strings_Index (m @ '' '' @ u @ '' '' @ pr) '' '' = int (length m)"
    using assms(1) by (simp add: strings_Index_byte)
  have d: "drop (nat (int (length m) + 1)) (m @ '' '' @ u @ '' '' @ pr) = u @ '' '' @ pr"
    by (simp add: nat_add_distrib)
  have 2: "strings_Index (u @ '' '' @ pr) '' '' = int (length u)"
    using assms(2) by (simp add: strings_Index_byte)
  show ?thesis
    unfolding parseRequestLine_def Let_def 1 d 2 by (simp add: nat_add_distrib)
qed

definition hostport :: "string \<Rightarrow> 16 word option \<Rightarrow> string" where
  "hostport h po = (case po of None \<Rightarrow> h | Some p \<Rightarrow> h @ CHR '':'' # port_str p)"

definition name_port :: "16 word option \<Rightarrow> 16 word" where
  "name_port po = (case po of None \<Rightarrow> 80 | Some p \<Rightarrow> if p = 0 then 80 else p)"

definition plain_name :: "string \<Rightarrow> bool" where
  "plain_name h \<longleftrightarrow> h \<noteq> [] \<and> list_all host_char h"

lemma plain_hostport: "plain_name h \<Longrightarrow> plain_host (hostport h po)"
  by (auto simp: plain_name_def plain_host_def hostport_def split: option.splits)

lemma plain_name_no_colon: "plain_name h \<Longrightarrow> CHR '':'' \<notin> set h"
  using host_char_neq by (auto simp: plain_name_def list_all_iff)

lemma ParseUint_port_str [simp]: "ParseUint (port_str p) 0 16 = (nat (uint p), None)"
proof -
  have "nat (uint p) < 2 ^ 16"
    using uint16_bounds [of p] nat_less_iff [of "uint p" 65536] uint_ge_0 [of p] by simp
  from ParseUint_Itoa [OF this] show ?thesis by (simp add: port_str_def)
qed

lemma Split_hostport:
  "plain_name h \<Longrightarrow> Split (hostport h po) '':'' = h # (case po of None \<Rightarrow> [] | Some p \<Rightarrow> [port_str p])"
  using plain_name_no_colon [of h] by (cases po) (simp_all add: hostport_def Split_byte)

lemma url_Port_hostport:
  "plain_name h \<Longrightarrow> u_Host u = hostport h po \<Longrightarrow> url_Port u = (case po of None \<Rightarrow> '''' | Some p \<Rightarrow> port_str p)"
proof -
  assume h: "plain_name h" and u: "u_Host u = hostport h po"
  note c = plain_name_no_colon [OF h]
  then have "last_byte CHR '':'' h = None" by (simp add: last_byte_notin)
  then show ?thesis
    using u validOptionalPort_str by (cases po) (simp_all add: url_Port_def hostport_def last_byte_append)
qed

lemma ParseUint_Nil [simp]: "ParseUint '''' b n = (0, Some ErrSyntax)"
  by (simp add: ParseUint_def)

lemma uint16_nat [simp]: "uint16 (int (nat (uint p))) = p" "uint16 (uint p) = p"
  by (simp_all add: uint16_def)

lemma getNameIPPort_hostport:
  assumes "plain_name h" and "u_Host u = hostport h po \<or> u_Host u = ''''" and "u_Scheme u \<noteq> ''https''"
  shows "getNameIPPort (hostport h po) u = (h, name_port po)"
proof -
  have "url_Port u = (case po of None \<Rightarrow> '''' | Some p \<Rightarrow> port_str p) \<or> url_Port u = ''''"
    using url_Port_hostport [OF assms(1)] assms(2) by (auto simp: url_Port_def)
  moreover have "uint16 0 = 0" by (simp add: uint16_def)
  ultimately show ?thesis
    using assms(3) Split_hostport [OF assms(1), of po]
    by (cases po) (auto simp: getNameIPPort_def Let_def name_port_def word_gt_0)
qed

lemma hostport_not_Nil [simp]: "plain_name h \<Longrightarrow> hostport h po \<noteq> []"
  by (auto simp: hostport_def plain_name_def split: option.splits)

lemma readBody_stream:
  "readBody hs b = (hs', b') \<Longrightarrow> hs_FirstLine hs' = hs_FirstLine hs \<and> hs_Host hs' = hs_Host hs
    \<and> hs_URL hs' = hs_URL hs \<and> hs_RequestURI hs' = hs_RequestURI hs \<and> hs_Header hs' = hs_Header hs
    \<and> hs_Method hs' = hs_Method hs \<and> hs_Proto hs' = hs_Proto hs"
  by (auto simp: readBody_def body_all_def Let_def split: if_splits prod.splits option.splits list.splits)

lemma readRequest_body_eq:
  assumes "fix_host (hs_URL hs) (hs_Header hs) = (host, u1)"
    and "first_line r (hs_Method hs) (hs_Proto hs) a u1 = Returns (uri, line, u2)"
    and "readBody (hs\<lparr>hs_Host := host, hs_RequestURI := uri, hs_FirstLine := line, hs_URL := u2\<rparr>) b = (hs', b')"
    and "getNameIPPort host u2 = d"
  shows "readRequest_body r a hs dst b = Returns (True, None, hs', d, b')"
  using assms readBody_stream [OF assms(3)] by (simp add: readRequest_body_def Let_def)

lemma UnreadBuf_rsrc: "UnreadBuf n b = (d, b') \<Longrightarrow> rsrc b' = rsrc b"
  and UnreadBuf_rerr: "UnreadBuf n b = (d, b') \<Longrightarrow> rerr b' = rerr b"
  by (auto simp: UnreadBuf_def set_lastByte_def Let_def split: if_splits)

lemma readBody_keeps:
  assumes "reader_inv b" and "hs_BodyBuf hs = ''''" and "readBody hs b = (hs', b')"
  shows "consumes b (hs_BodyBuf hs') b' \<and> rsrc b' = rsrc b"
proof -
  have "hs_BodyBuf hs' = '''' \<and> b' = b \<or> (\<exists>n. UnreadBuf n b = (hs_BodyBuf hs', b'))"
    using assms(2,3)
    by (auto simp: readBody_def body_all_def Let_def split: if_splits prod.splits option.splits)
  then show ?thesis using consumes_refl [OF assms(1)] UnreadBuf_spec [OF assms(1)] UnreadBuf_rsrc by auto
qed

lemma body_all_spec:
  assumes "reader_inv b" and "body_all hs b = (hs', b')"
  shows "hs_BodyBuf hs' = unread b \<and> hs_clientUnRead hs' = -1 \<and> consumes b (unread b) b'"
  using assms UnreadBuf_spec [OF assms(1), of "-1"] by (auto simp: body_all_def split: prod.splits)

text \<open>
  The body of an HTTP/1.1 request with a content length: what is handed on with the
  header and what the copying still has to take from the client make up the announced
  length, and nothing beyond the body is taken from the reader.
\<close>

theorem readBody_content_length:
  assumes "reader_inv b" and "hs_Method hs \<noteq> ''CONNECT''" and "hs_Proto hs = ''HTTP/1.1''"
    and "map_of (hs_Header hs) ''Connection'' = None" and "map_of (hs_Header hs) ''Transfer-Encoding'' = None"
    and "map_of (hs_Header hs) ''Content-Length'' = Some (cl # cls)" and "parseContentLength cl = (n, None)"
    and "0 \<le> n" and "readBody hs b = (hs', b')"
  shows "hs_BodyBuf hs' = take (nat n) (unread b) \<and> consumes b (hs_BodyBuf hs') b'
    \<and> hs_clientUnRead hs' = n - int (length (hs_BodyBuf hs')) \<and> 0 \<le> hs_clientUnRead hs'"
proof -
  obtain d c where u: "UnreadBuf n b = (d, c)" by (cases "UnreadBuf n b")
  then have "hs' = hs\<lparr>hs_BodyBuf := d, hs_clientUnRead := n - int (length d)\<rparr>" "b' = c"
    using assms(2-7,9) by (auto simp: readBody_def Let_def)
  moreover have "consumes b d c" "d = take (nat n) (unread b)"
    using UnreadBuf_spec [OF assms(1) u] assms(8) by auto
  ultimately show ?thesis using assms(8) by (auto simp: le_nat_iff)
qed

theorem readBody_content_length_witness:
  "hs_clientUnRead (fst (readBody
      (newHTTPStream\<lparr>hs_Method := ''POST'', hs_Proto := ''HTTP/1.1'', hs_Header := [(''Content-Length'', [''5''])]\<rparr>)
      (NewReaderWithBuf [] ''ab''))) = 3"
proof -
  let ?hs = "newHTTPStream\<lparr>hs_Method := ''POST'', hs_Proto := ''HTTP/1.1'', hs_Header := [(''Content-Length'', [''5''])]\<rparr>"
  obtain hs' b' where r: "readBody ?hs (NewReaderWithBuf [] ''ab'') = (hs', b')" by (metis surj_pair)
  have "Itoa 5 = ''5''" by (simp add: Itoa_def dec_digits.simps digit_char_def char_of_eq_iff take_bit_eq_mod)
  then have "ParseInt ''5'' 10 64 = (5, None)" using Atoi_Itoa [of 5] by (simp add: Atoi_def)
  moreover have "TrimSpace ''5'' = ''5''" by code_simp
  ultimately have p: "parseContentLength ''5'' = (5, None)" by (simp add: parseContentLength_def)
  have "unread (NewReaderWithBuf [] ''ab'') = ''ab''"
    by (simp add: unread_def NewReaderWithBuf_def Reader_reset_def)
  with readBody_content_length [OF NewReaderWithBuf_inv _ _ _ _ _ p _ r] r show ?thesis by simp
qed

text \<open>
  A request in origin form: the request line that is sent on names the host of the
  header unless the configuration switches that off, method, path, query and protocol are
  kept, and the destination is the host of the header with its port, or port 80.
\<close>

lemma readRequest_origin:
  assumes "hs_Method hs \<noteq> ''CONNECT''" and "hs_RequestURI hs = p @ q" and "plain_path p" and "plain_query q"
    and "ReadHeader b = Some (h, None, b1)" and "Header_Get h ''Host'' = hostport n po" and "plain_name n"
  shows "\<exists>hs' b'. http_readRequest D r from hs dst b = Some (Returns (True, None, hs', (n, name_port po), b'))
    \<and> hs_FirstLine hs' = hs_Method hs @ '' '' @
        (if firstLineHost r (hostport n po) = ''off'' then '''' else ''http://'' @ hostport n po) @ p @ q @ '' '' @ hs_Proto hs
    \<and> hs_Host hs' = hostport n po \<and> hs_Header hs' = h \<and> hs_Method hs' = hs_Method hs \<and> hs_RequestURI hs' \<noteq> ''''
    \<and> (reader_inv b1 \<longrightarrow> hs_BodyBuf hs = '''' \<longrightarrow> consumes b1 (hs_BodyBuf hs') b' \<and> rsrc b' = rsrc b1)"
proof -
  let ?hp = "hostport n po"
  let ?u = "query_url q (empty_url\<lparr>u_Path := p\<rparr>)"
  let ?u1 = "query_url q (empty_url\<lparr>u_Scheme := ''http'', u_Host := ?hp, u_Path := p\<rparr>)"
  have u: "ParseRequestURI (p @ q) = Some ?u" by (rule ParseRequestURI_origin [OF assms(3,4)])
  have u1: "?u\<lparr>u_Host := ?hp, u_Scheme := ''http''\<rparr> = ?u1" by (simp add: query_url_def empty_url_def)
  have u2: "?u1\<lparr>u_Scheme := '''', u_Host := ''''\<rparr> = ?u" by (simp add: query_url_def empty_url_def)
  have low: "lower_string ''http'' = ''http''" by (simp add: lower_string_def)
  define hs1 where "hs1 = hs\<lparr>hs_URL := ?u, hs_Header := h\<rparr>"
  have fh: "fix_host ?u h = (?hp, ?u1)" using assms(6,7) u1 by (simp add: fix_host_def Let_def)
  let ?off = "firstLineHost r ?hp = ''off''"
  let ?line = "hs_Method hs @ '' '' @ (if ?off then '''' else ''http://'' @ ?hp) @ p @ q @ '' '' @ hs_Proto hs"
  have "p \<noteq> ''''" using assms(3) by (auto simp: plain_path_def HasPrefix_def)
  then have fl: "\<exists>uri. uri \<noteq> '''' \<and> first_line r (hs_Method hs) (hs_Proto hs) False ?u1 = Returns (uri, ?line, if ?off then ?u else ?u1)"
    using url_String_origin [OF assms(3,4)] url_String_absolute [OF plain_hostport [OF assms(7)], of p q po] assms(3,4)
    by (simp add: first_line_def low u2 Let_def)
  then obtain uri where uri: "uri \<noteq> ''''"
    and fl: "first_line r (hs_Method hs) (hs_Proto hs) False ?u1 = Returns (uri, ?line, if ?off then ?u else ?u1)" by blast
  define hs2 where "hs2 = hs1\<lparr>hs_Host := ?hp, hs_RequestURI := uri, hs_FirstLine := ?line, hs_URL := (if ?off then ?u else ?u1)\<rparr>"
  obtain hs' b' where rb: "readBody hs2 b1 = (hs', b')" by (metis surj_pair)
  have gp: "getNameIPPort ?hp (if ?off then ?u else ?u1) = (n, name_port po)"
    by (rule getNameIPPort_hostport [OF assms(7)]) simp_all
  have "readRequest_body r False hs1 dst b1 = Returns (True, None, hs', (n, name_port po), b')"
    by (rule readRequest_body_eq [OF _ _ rb [unfolded hs2_def] gp]) (use fh fl in \<open>simp_all add: hs1_def\<close>)
  then have "http_readRequest D r from hs dst b = Some (Returns (True, None, hs', (n, name_port po), b'))"
    using assms(1,2,5) u by (simp add: http_readRequest_def request_uri_def hs1_def Let_def)
  with readBody_stream [OF rb] readBody_keeps [OF _ _ rb] uri show ?thesis by (simp add: hs2_def hs1_def)
qed

text \<open>
  A CONNECT request: the destination is the host and port of the request line (port 80
  when there is none), the line is sent on unchanged, and everything already buffered
  belongs to the connection, whose end is open.
\<close>

lemma readRequest_connect:
  assumes "hs_Method hs = ''CONNECT''" and "request_uri D r ''CONNECT'' from (hs_RequestURI hs) = Returns (Inr (hostport n po))"
    and "plain_name n" and "ReadHeader b = Some (h, None, b1)" and "reader_inv b1"
    and "Header_Get h ''Host'' = '''' \<or> Header_Get h ''Host'' = hostport n po"
  shows "\<exists>hs' b'. http_readRequest D r from hs dst b = Some (Returns (True, None, hs', (n, name_port po), b'))
    \<and> hs_FirstLine hs' = ''CONNECT '' @ hostport n po @ '' '' @ hs_Proto hs
    \<and> hs_BodyBuf hs' = unread b1 \<and> hs_clientUnRead hs' = -1 \<and> hs_Method hs' = ''CONNECT'' \<and> hs_Header hs' = h
    \<and> consumes b1 (hs_BodyBuf hs') b' \<and> rsrc b' = rsrc b1 \<and> rerr b' = rerr b1"
proof -
  let ?hp = "hostport n po"
  let ?u = "empty_url\<lparr>u_Scheme := ''http'', u_Host := ?hp\<rparr>"
  have hp: "plain_host ?hp" by (rule plain_hostport [OF assms(3)])
  have us: "query_url '''' (empty_url\<lparr>u_Scheme := ''http'', u_Host := ?hp, u_Path := ''''\<rparr>) = ?u"
    by (simp add: query_url_def empty_url_def)
  have q: "plain_query ''''" by (simp add: plain_query_def)
  have u: "ParseRequestURI (''http://'' @ ?hp) = Some ?u"
    using ParseRequestURI_absolute [OF hp _ q, of "''''"] us by simp
  have str: "url_String ?u = ''http://'' @ ?hp"
    using url_String_absolute [OF hp _ q, of "''''"] us by simp
  define hs1 where "hs1 = hs\<lparr>hs_URL := ?u, hs_Header := h\<rparr>"
  have fh: "fix_host ?u h = (?hp, ?u)" using assms(3,6) by (auto simp: fix_host_def Let_def)
  let ?line = "''CONNECT '' @ ?hp @ '' '' @ hs_Proto hs"
  have fl: "first_line r ''CONNECT'' (hs_Proto hs) True ?u = Returns (''http://'' @ ?hp, ?line, ?u)"
    by (simp add: first_line_def str)
  define hs2 where "hs2 = hs1\<lparr>hs_Host := ?hp, hs_RequestURI := ''http://'' @ ?hp, hs_FirstLine := ?line, hs_URL := ?u\<rparr>"
  obtain hs' b' where rb: "readBody hs2 b1 = (hs', b')" by (metis surj_pair)
  have gp: "getNameIPPort ?hp ?u = (n, name_port po)"
    by (rule getNameIPPort_hostport [OF assms(3)]) simp_all
  have "readRequest_body r True hs1 dst b1 = Returns (True, None, hs', (n, name_port po), b')"
    by (rule readRequest_body_eq [OF _ _ rb [unfolded hs2_def] gp]) (use fh fl assms(1) in \<open>simp_all add: hs1_def\<close>)
  moreover have "\<not> HasPrefix ?hp ''/''"
    using plain_host_chars [OF hp, of "hd ?hp"] host_char_neq [of "hd ?hp"] assms(3)
    by (cases ?hp) auto
  ultimately have "http_readRequest D r from hs dst b = Some (Returns (True, None, hs', (n, name_port po), b'))"
    using assms(1,2,4) u by (simp add: http_readRequest_def hs1_def Let_def)
  moreover have "body_all hs2 b1 = (hs', b')" using rb assms(1) by (simp add: readBody_def hs2_def hs1_def)
  moreover from this have "rsrc b' = rsrc b1 \<and> rerr b' = rerr b1"
    by (auto simp: body_all_def dest: UnreadBuf_rsrc UnreadBuf_rerr split: prod.splits)
  ultimately show ?thesis
    using readBody_stream [OF rb] body_all_spec [OF assms(5)] assms(1) by (simp add: hs2_def hs1_def)
qed

lemma header_wire_Nil [simp]: "header_wire [] = []" and wire_fields_Nil [simp]: "wire_fields [] = []"
  by (simp_all add: header_wire_fields wire_fields_def sortedKeyValues_def)

text \<open>A header block without fields.\<close>

lemma ReadHeader_blank:
  assumes "delivers b (crlf @ rest)"
  shows "\<exists>b'. ReadHeader b = Some ([], None, b') \<and> delivers b' rest"
  using live_source.ReadHeader_wire [of "[]" b rest] assms by simp

lemma ReadHeader_empty: "\<exists>b'. ReadHeader (NewReader [(crlf, None)]) = Some ([], None, b') \<and> reader_inv b'"
proof -
  have "delivers (NewReader [(crlf, None)]) (crlf @ '''')"
    using live_NewReader [of "[(crlf, None)]"]
    by (simp add: delivers_def pending_NewReader conn_bytes_def clean_def crlf_def)
  from ReadHeader_blank [OF this] show ?thesis by (auto simp: delivers_def live_def roomy_def)
qed

lemma fmt_plain_no_percent: "CHR ''%'' \<notin> set s \<Longrightarrow> length s \<le> n \<Longrightarrow> fmt_plain n s = s"
proof (induction s arbitrary: n)
  case Nil
  then show ?case by (cases n) auto
next
  case (Cons c s)
  then show ?case by (cases n) auto
qed

lemma base64_no_percent: "CHR ''%'' \<notin> set (base64_encode s)"
proof -
  have "CHR ''%'' \<notin> set b64_alphabet" by code_simp
  then show ?thesis using base64_set [of s] by auto
qed

lemma base64_not_Nil: "s \<noteq> [] \<Longrightarrow> base64_encode s \<noteq> []"
  by (cases s rule: base64_encode.cases) (auto simp: Let_def)

text \<open>
  The tunnel protocol: when client and server have the same 16-byte token, the CONNECT
  request the client writes is one line and an empty line, and reading that line as a
  server yields the address the client asked for, whatever bytes it is made of.
\<close>

theorem tunnel_connect_round_trip:
  assumes "block_cipher E D" and "length (getToken r) = 16"
  shows "\<exists>uri s. connect_string E r target True = Returns (s, None)
    \<and> Fprintf_plain s = ''CONNECT '' @ uri @ '' HTTP/1.1'' @ crlf @ crlf
    \<and> parseRequestLine (''CONNECT '' @ uri @ '' HTTP/1.1'') = (uri, ''HTTP/1.1'', True)
    \<and> request_uri D r ''CONNECT'' ''server'' uri = Returns (Inr target)"
proof -
  obtain x1 where x1: "EncryptAES E target (getToken r) = Returns (x1, None)"
    "length x1 = (length target div 16 + 1) * 16" "DecryptAES D x1 (getToken r) = Returns (target, None)"
    using aes_round_trip [OF assms] by blast
  let ?uri = "base64_encode x1"
  let ?s = "''CONNECT '' @ ?uri @ '' HTTP/1.1'' @ crlf @ crlf"
  have "CHR ''%'' \<notin> set ?s" using base64_no_percent [of x1] by (simp add: crlf_def)
  then have "Fprintf_plain ?s = ?s" unfolding Fprintf_plain_def by (rule fmt_plain_no_percent) simp
  moreover have "parseRequestLine (''CONNECT'' @ '' '' @ ?uri @ '' '' @ ''HTTP/1.1'') = (?uri, ''HTTP/1.1'', True)"
    by (rule parseRequestLine_words) (simp_all add: base64_no_space)
  moreover have "x1 \<noteq> []" using x1(2) by auto
  then have "request_uri D r ''CONNECT'' ''server'' ?uri = Returns (Inr target)"
    using x1(3) by (simp add: request_uri_def base64_round_trip)
  moreover have "connect_string E r target True = Returns (?s, None)"
    using x1(1) by (simp add: connect_string_def)
  ultimately show ?thesis by fastforce
qed

theorem tunnel_connect_round_trip_witness:
  "\<exists>uri s. connect_string xor_cipher empty_router ''example.org:443'' True = Returns (s, None)
    \<and> request_uri xor_cipher empty_router ''CONNECT'' ''server'' uri = Returns (Inr ''example.org:443'')"
  using tunnel_connect_round_trip [OF block_cipher_xor, of empty_router "''example.org:443''"]
  by (auto simp: getToken_def empty_router_def)

text \<open>
  A CONNECT request without an address and without a Host header makes the reading
  panic: the URL prints as \<open>http:\<close>, which is shorter than the prefix cut off.
\<close>

lemma readRequest_empty_connect_panics:
  assumes "hs_Method hs = ''CONNECT''" and "hs_RequestURI hs = ''''" and "from \<noteq> ''server''"
    and "ReadHeader b = Some (h, None, b1)" and "Header_Get h ''Host'' = ''''"
  shows "http_readRequest D r from hs dst b = Some Panics"
proof -
  let ?u = "empty_url\<lparr>u_Scheme := ''http''\<rparr>"
  have u: "ParseRequestURI ''http://'' = Some ?u"
    by (simp add: ParseRequestURI_def is_alnum_def is_digit_def is_ctl_def split_query_def lower_string_def
        parseAuthority_def parseHost_def setPath_def escape_def Let_def empty_url_def HasPrefix_def)
  have "url_String ?u = ''http:''"
    by (simp add: url_String_def url_prefix_def EscapedPath_def escape_def Let_def)
  moreover have "fix_host ?u h = ('''', ?u)"
    using assms(5) by (simp add: fix_host_def Let_def empty_url_def)
  ultimately have "readRequest_body r True (hs\<lparr>hs_URL := ?u, hs_Header := h\<rparr>) dst b1 = Panics"
    by (simp add: readRequest_body_def first_line_def)
  then show ?thesis
    using assms u by (simp add: http_readRequest_def request_uri_def HasPrefix_def)
qed

text \<open>
  C0: a port with a leading zero is read as octal, as base 0 of \<open>ParseUint\<close> means: \<open>h:0443\<close>
  is taken for port 291 instead of 443.
\<close>

theorem leading_zero_port_octal:
  assumes "plain_name n"
  shows "getNameIPPort (n @ '':0443'') u = (n, 291)"
proof -
  have "ParseUint ''0443'' 0 16 = (291, None)"
    by (simp add: ParseUint_def base_prefix_def lower_nat_def digit_val_def)
  moreover have "Split (n @ '':0443'') '':'' = [n, ''0443'']"
    using plain_name_no_colon [OF assms] by (simp add: Split_byte)
  ultimately show ?thesis by (simp add: getNameIPPort_def Let_def uint16_def)
qed

theorem leading_zero_port_octal_witness: "getNameIPPort (''h'' @ '':0443'') empty_url = (''h'', 291)"
  by (rule leading_zero_port_octal) (simp add: plain_name_def host_char_def is_alnum_def)

end
