(* ===== verification/Socks5.thy ===== *)
theory Socks5
  imports Tcp_Reader Net_Addr
begin

section \<open>SOCKS5 requests\<close>

text \<open>
  \<open>proto/socks5.go\<close> without its response: recognising a SOCKS5 greeting and reading the
  request. The destination is the triple of name, address and port that the code stores in
  the request.
\<close>

type_synonym dst = "string \<times> string \<times> 16 word"

definition socks_validHead :: "tcp_reader \<Rightarrow> bool \<times> tcp_reader" where
  "socks_validHead b =
     (if Buffered b < 2 then (False, b)
      else case Peek 2 b of (tmpBuf, err, b) \<Rightarrow>
        if err \<noteq> None then (False, b)
        else let isSocks5 = (2 \<le> length tmpBuf \<and> tmpBuf ! 0 = CHR 0x05)
             in if isSocks5 then (True, snd (UnreadBuf (-1) b)) else (False, b))"

definition socks_buffer :: "string \<Rightarrow> string" where
  "socks_buffer d = d @ replicate (1024 - length d) (char_of (0 :: nat))"

definition byte_nat :: "char \<Rightarrow> nat" where
  "byte_nat c = of_char c"

text \<open>The switch on the address type; other types leave the destination empty.\<close>

definition socks_address :: "string \<Rightarrow> dst \<Rightarrow> dst" where
  "socks_address buffer dst =
     (case dst of (name, ip, port) \<Rightarrow>
        if buffer ! 3 = CHR 0x01 then (name, IP_String (take 4 (drop 4 buffer)), port)
        else if buffer ! 3 = CHR 0x04 then (name, IP_String (take 16 (drop 4 buffer)), port)
        else if buffer ! 3 = CHR 0x03 then (take (byte_nat (buffer ! 4)) (drop 5 buffer), ip, port)
        else (name, ip, port))"

text \<open>
  \<open>ParseHeader\<close>: \<open>werr\<close> is the outcome of writing the method selection. The port is the last
  two bytes that were read.
\<close>

definition ParseHeader :: "go_err option \<Rightarrow> dst \<Rightarrow> tcp_reader \<Rightarrow> go_err option \<times> dst \<times> tcp_reader" where
  "ParseHeader werr dst b =
     (if werr \<noteq> None then (werr, dst, b)
      else case Reader_Read 1024 b of (d, err, b) \<Rightarrow>
        if err \<noteq> None then (err, dst, b)
        else
          let n = length d; buffer = socks_buffer d
          in if n < 6 then (Some (ErrMsg ''not a socks protocol''), dst, b)
             else
               let dst = socks_address buffer dst;
                   hi = byte_nat (buffer ! (n - 2)); lo = byte_nat (buffer ! (n - 1));
                   portStr = Itoa (int (push_bit 8 hi OR lo));
                   (c, err) = ParseUint portStr 0 16
               in if err \<noteq> None then (err, dst, b)
                  else (None, (case dst of (name, ip, _) \<Rightarrow> (name, ip, uint16 (int c))), b))"

definition socks_readRequest :: "go_err option \<Rightarrow> dst \<Rightarrow> tcp_reader \<Rightarrow> bool \<times> go_err option \<times> dst \<times> tcp_reader" where
  "socks_readRequest werr dst b =
     (case ParseHeader werr dst b of (err, dst, b) \<Rightarrow> (err = None, err, dst, b))"

text \<open>The answer the stream gives before it connects: always success.\<close>

definition socks_reply :: string where
  "socks_reply = map char_of [5, 0, 0, 1, 0, 0, 0, 0, 0, 0 :: nat]"

subsection \<open>Requests\<close>

datatype socks_target = TargetV4 IP | TargetV6 IP | TargetName string

fun target_ok :: "socks_target \<Rightarrow> bool" where
  "target_ok (TargetV4 ip) = (length ip = 4)"
| "target_ok (TargetV6 ip) = (length ip = 16)"
| "target_ok (TargetName s) = (length s < 256)"

definition port_bytes :: "16 word \<Rightarrow> string" where
  "port_bytes p = [char_of (unat p div 256), char_of (unat p mod 256)]"

fun target_bytes :: "socks_target \<Rightarrow> string" where
  "target_bytes (TargetV4 ip) = CHR 0x01 # ip"
| "target_bytes (TargetV6 ip) = CHR 0x04 # ip"
| "target_bytes (TargetName s) = CHR 0x03 # char_of (length s) # s"

definition socks_request :: "string \<Rightarrow> socks_target \<Rightarrow> 16 word \<Rightarrow> string" where
  "socks_request head3 t p = head3 @ target_bytes t @ port_bytes p"

fun target_dst :: "socks_target \<Rightarrow> 16 word \<Rightarrow> dst" where
  "target_dst (TargetV4 ip) p = ('''', IP_String ip, p)"
| "target_dst (TargetV6 ip) p = ('''', IP_String ip, p)"
| "target_dst (TargetName s) p = (s, '''', p)"

subsection \<open>Lemmas\<close>

text \<open>The empty reader state in which the request arrives with one read.\<close>

definition drained :: "tcp_reader \<Rightarrow> bool" where
  "drained b \<longleftrightarrow> rpos b = wpos b \<and> rerr b = None \<and> 1024 < length (rbuf b)"

lemma Reader_Read_one:
  assumes "drained b" and "rsrc b = (d, None) # rest" and "d \<noteq> []" and "length d \<le> 1024"
  shows "\<exists>b'. Reader_Read 1024 b = (d, None, b') \<and> drained b' \<and> rsrc b' = rest"
  using assms
  by (simp add: Reader_Read_def drained_def Let_def read_copy_def store_bytes_def min_absorb2)

lemma UnreadBuf_drains:
  assumes "rerr b = None" and "1024 < length (rbuf b)"
  shows "drained (snd (UnreadBuf (-1) b)) \<and> rsrc (snd (UnreadBuf (-1) b)) = rsrc b"
  using assms by (auto simp: UnreadBuf_def drained_def Let_def set_lastByte_def)

lemma or_low_byte: "lo < 256 \<Longrightarrow> push_bit 8 hi OR lo = hi * 256 + (lo :: nat)"
proof -
  assume lo: "lo < 256"
  have "take_bit 8 lo = lo" using lo by (simp add: take_bit_nat_eq_self)
  then have "push_bit 8 hi AND lo = 0"
    by (auto simp: bit_eq_iff bit_and_iff bit_push_bit_iff) (metis bit_take_bit_iff not_less)
  then have "push_bit 8 hi OR lo = push_bit 8 hi + lo" by (simp add: disjunctive_add_eq_or)
  then show ?thesis by (simp add: push_bit_eq_mult)
qed

lemma ParseUint_port: "n < 65536 \<Longrightarrow> ParseUint (Itoa (int n)) 0 16 = (n, None)"
  using ParseUint_Itoa [of n 16] by simp

lemma byte_nat_bound: "byte_nat c < 256"
  by (simp add: byte_nat_def)

text \<open>\<open>ParseHeader\<close> on a request that arrives in one read.\<close>

lemma ParseHeader_read:
  assumes "drained b" and "rsrc b = (d, None) # rest" and "6 \<le> length d" and "length d \<le> 1024"
  shows "\<exists>b'. ParseHeader None dst b =
    (None, (case socks_address (socks_buffer d) dst of (name, ip, _) \<Rightarrow>
        (name, ip, uint16 (int (byte_nat (d ! (length d - 2)) * 256 + byte_nat (d ! (length d - 1)))))), b')
    \<and> drained b' \<and> rsrc b' = rest"
proof -
  have "d \<noteq> []" using assms(3) by auto
  from Reader_Read_one [OF assms(1,2) this assms(4)] obtain b' where
    b': "Reader_Read 1024 b = (d, None, b')" "drained b'" "rsrc b' = rest" by blast
  have nth: "socks_buffer d ! (length d - 2) = d ! (length d - 2)" "socks_buffer d ! (length d - 1) = d ! (length d - 1)"
    using assms(3) by (auto simp: socks_buffer_def nth_append)
  let ?hi = "byte_nat (d ! (length d - 2))" and ?lo = "byte_nat (d ! (length d - 1))"
  have "?hi * 256 + ?lo < 65536"
    using byte_nat_bound [of "d ! (length d - 2)"] byte_nat_bound [of "d ! (length d - 1)"] by simp
  then have "ParseUint (Itoa (int (push_bit 8 ?hi OR ?lo))) 0 16 = (?hi * 256 + ?lo, None)"
    using ParseUint_port or_low_byte [OF byte_nat_bound] by metis
  then have "ParseHeader None dst b =
    (None, (case socks_address (socks_buffer d) dst of (name, ip, _) \<Rightarrow> (name, ip, uint16 (int (?hi * 256 + ?lo)))), b')"
    using b'(1) assms(3) unfolding ParseHeader_def by (simp add: Let_def nth nth [simplified])
  with b' show ?thesis by blast
qed

lemma port_bytes_value:
  "uint16 (int (byte_nat (char_of (unat p div 256)) * 256 + byte_nat (char_of (unat p mod 256)))) = p"
proof -
  have "unat p < 65536" using unsigned_less [of p] by simp
  then have "unat p div 256 < 256" by simp
  then have "byte_nat (char_of (unat p div 256)) * 256 + byte_nat (char_of (unat p mod 256)) = unat p"
    by (simp add: byte_nat_def)
  then show ?thesis by (simp add: uint16_def)
qed

lemma socks_address_target:
  assumes "length head3 = 3" and "target_ok t"
  shows "socks_address (socks_buffer (socks_request head3 t p @ extra)) ('''', '''', q) = target_dst t q"
  using assms by (cases t)
    (auto simp: socks_address_def socks_buffer_def socks_request_def nth_append byte_nat_def)

definition word_of_bytes :: "char \<Rightarrow> char \<Rightarrow> 16 word" where
  "word_of_bytes hi lo = uint16 (int (byte_nat hi * 256 + byte_nat lo))"

lemma word_of_port_bytes: "word_of_bytes (char_of (unat p div 256)) (char_of (unat p mod 256)) = p"
  by (simp only: word_of_bytes_def port_bytes_value)

lemma request_length:
  "length head3 = 3 \<Longrightarrow> target_ok t \<Longrightarrow> 6 \<le> length (socks_request head3 t p) \<and> length (socks_request head3 t p) \<le> 1024"
  by (cases t) (auto simp: socks_request_def port_bytes_def)

lemma ParseHeader_request:
  assumes "drained b" and "rsrc b = (socks_request head3 t p @ extra, None) # rest"
    and "length head3 = 3" and "target_ok t" and "length (socks_request head3 t p @ extra) \<le> 1024"
    and "socks_request head3 t p @ extra = pre @ [hi, lo]"
  shows "\<exists>b'. ParseHeader None ('''', '''', 0) b = (None, target_dst t (word_of_bytes hi lo), b') \<and> rsrc b' = rest"
proof -
  let ?d = "socks_request head3 t p @ extra"
  have "6 \<le> length ?d" using request_length [OF assms(3,4), of p] by simp
  from ParseHeader_read [OF assms(1,2) this assms(5), of "('''', '''', 0)"] obtain b' where
    b': "ParseHeader None ('''', '''', 0) b = (None, (case socks_address (socks_buffer ?d) ('''', '''', 0) of (name, ip, _) \<Rightarrow>
        (name, ip, word_of_bytes (?d ! (length ?d - 2)) (?d ! (length ?d - 1)))), b')"
    "rsrc b' = rest" unfolding word_of_bytes_def by blast
  have "?d ! (length ?d - 2) = hi" "?d ! (length ?d - 1) = lo"
    unfolding assms(6) by (simp_all add: nth_append)
  with b' show ?thesis
    using socks_address_target [OF assms(3,4), of p extra 0] by (cases t) simp_all
qed

subsection \<open>Properties\<close>

text \<open>
  A SOCKS5 request that arrives with one read is understood: for an IPv4, IPv6 or
  domain destination and any port, in network byte order, the destination is the one
  encoded. The version, command and reserved bytes are not looked at.
\<close>

lemma ParseHeader_round_trip:
  assumes "drained b" and "rsrc b = (socks_request head3 t p, None) # rest"
    and "length head3 = 3" and "target_ok t"
  shows "\<exists>b'. ParseHeader None ('''', '''', 0) b = (None, target_dst t p, b') \<and> rsrc b' = rest"
  using ParseHeader_request [of b head3 t p "''''" rest "head3 @ target_bytes t" "char_of (unat p div 256)" "char_of (unat p mod 256)"]
    assms request_length [OF assms(3,4), of p]
  by (simp add: socks_request_def port_bytes_def word_of_port_bytes [simplified])

text \<open>
  The port is taken from the end of what was read, not from the end of the request: when
  the client sends more bytes in the same segment, the last two of them become the port.
\<close>

theorem ParseHeader_trailing_bytes:
  assumes "drained b" and "rsrc b = (socks_request head3 t p @ extra @ [hi, lo], None) # rest"
    and "length head3 = 3" and "target_ok t" and "length extra \<le> 512"
  shows "\<exists>b'. ParseHeader None ('''', '''', 0) b = (None, target_dst t (word_of_bytes hi lo), b') \<and> rsrc b' = rest"
proof (rule ParseHeader_request [OF assms(1) assms(2) assms(3,4)])
  show "length (socks_request head3 t p @ extra @ [hi, lo]) \<le> 1024"
    using assms(3,4,5) by (cases t) (auto simp: socks_request_def port_bytes_def)
  show "socks_request head3 t p @ extra @ [hi, lo] = (socks_request head3 t p @ extra) @ [hi, lo]" by simp
qed

theorem ParseHeader_trailing_bytes_witness:
  "\<exists>b'. ParseHeader None ('''', '''', 0)
      (NewReader [(socks_request [CHR 0x05, CHR 0x01, CHR 0x00] (TargetName ''a.b'') 443 @ ''GET'' @ [CHR 0x00, CHR 0x50], None)])
    = (None, (''a.b'', '''', 80), b')"
proof -
  have d: "drained (NewReader [(x, None)])" for x
    by (simp add: drained_def NewReader_def NewReaderSize_def Reader_reset_def defaultBufSize_def minReadBufferSize_def)
  have r: "rsrc (NewReader c) = c" for c by (simp add: NewReader_def NewReaderSize_def Reader_reset_def)
  have "word_of_bytes CHR 0x00 CHR 0x50 = 80" by (simp add: word_of_bytes_def byte_nat_def uint16_def)
  then show ?thesis
    using ParseHeader_trailing_bytes [OF d r, of "[CHR 0x05, CHR 0x01, CHR 0x00]" "TargetName ''a.b''" "''GET''"
        443 "CHR 0x00" "CHR 0x50"] by auto
qed

end
