(* ===== verification/Dispatch.thy ===== *)
theory Dispatch
  imports Http_Stream Socks5
begin

section \<open>Recognising the protocol\<close>

text \<open>
  \<open>proto/request.go\<close>, the readers of \<open>proto/stream.go\<close> and \<open>proto/tcpcopy.go\<close>, and the
  probe of \<open>proto/keep.go\<close>: a request is read as HTTP, as SOCKS5 or as a plain TCP
  connection. What the reading writes to the client, the method selection of SOCKS5, is
  kept in the request. Results are wrapped as in the theory of HTTP requests: \<open>None\<close> is a
  reading that does not return, \<open>Some Panics\<close> one that panics.
\<close>

subsection \<open>The request\<close>

datatype stream = NoStream | HttpStream http_stream | Socks5Stream | TcpStream | TcpCopyStream

record request =
  rq_reader :: tcp_reader
  rq_Proto :: string
  rq_Stream :: stream
  rq_dst :: dst
  rq_written :: string

definition NewRequest :: "conn_in \<Rightarrow> request" where
  "NewRequest conn =
     \<lparr>rq_reader = NewReader conn, rq_Proto = '''', rq_Stream = NoStream, rq_dst = ('''', '''', 0), rq_written = ''''\<rparr>"

definition NewRequestWithBuf :: "conn_in \<Rightarrow> string \<Rightarrow> request" where
  "NewRequestWithBuf conn buf =
     \<lparr>rq_reader = NewReaderWithBuf conn buf, rq_Proto = '''', rq_Stream = NoStream, rq_dst = ('''', '''', 0), rq_written = ''''\<rparr>"

subsection \<open>Reading\<close>

text \<open>The two streams that have nothing to read.\<close>

definition tcp_readRequest :: "request \<Rightarrow> bool \<times> go_err option \<times> request" where
  "tcp_readRequest rq = (True, None, rq)"

definition tcpcopy_readRequest :: "request \<Rightarrow> bool \<times> go_err option \<times> request" where
  "tcpcopy_readRequest rq = (True, None, rq)"

text \<open>The bytes of the method selection, no authentication; they are written in \<open>ParseHeader\<close>.\<close>

definition socks_selection :: string where
  "socks_selection = [CHR 0x05, CHR 0x00]"

definition http_stage ::
  "block_fun \<Rightarrow> router \<Rightarrow> string \<Rightarrow> http_stream \<Rightarrow> request \<Rightarrow> (bool \<times> go_err option \<times> request) run" where
  "http_stage D r from hs rq =
     (let (name, ip, port) = rq_dst rq
      in case http_readRequest D r from hs (name, port) (rq_reader rq) of
           None \<Rightarrow> None
         | Some Panics \<Rightarrow> Some Panics
         | Some (Returns (ok, err, hs, (name, port), b)) \<Rightarrow>
             Some (Returns (ok, err,
               rq\<lparr>rq_reader := b, rq_Proto := ''http'', rq_Stream := HttpStream hs, rq_dst := (name, ip, port)\<rparr>)))"

definition socks_stage :: "go_err option \<Rightarrow> request \<Rightarrow> bool \<times> go_err option \<times> request" where
  "socks_stage werr rq =
     (case socks_readRequest werr (rq_dst rq) (rq_reader rq) of
        (ok, err, dst, b) \<Rightarrow>
          (ok, err, rq\<lparr>rq_reader := b, rq_Proto := ''socks5'', rq_Stream := Socks5Stream, rq_dst := dst,
                       rq_written := rq_written rq @ (if werr = None then socks_selection else '''')\<rparr>))"

definition tcpcopy_on :: "router \<Rightarrow> bool" where
  "tcpcopy_on r \<longleftrightarrow> tc_Enable (r_TcpCopy r) \<and> tc_IP (r_TcpCopy r) \<noteq> '''' \<and> tc_Port (r_TcpCopy r) > 0"

text \<open>\<open>werr\<close> is the outcome of writing to the client.\<close>

definition ReadRequest ::
  "block_fun \<Rightarrow> router \<Rightarrow> go_err option \<Rightarrow> string \<Rightarrow> request \<Rightarrow> (bool \<times> go_err option \<times> request) run" where
  "ReadRequest D r werr from rq =
     (if tcpcopy_on r then
        Some (Returns (tcpcopy_readRequest (rq\<lparr>rq_Proto := ''tcp'', rq_Stream := TcpCopyStream\<rparr>)))
      else case Peek 1 (rq_reader rq) of (_, err, b) \<Rightarrow>
        if err \<noteq> None then Some (Returns (False, err, rq\<lparr>rq_reader := b\<rparr>))
        else Option.bind (http_validHead newHTTPStream b) (\<lambda>(isHTTP, hs, b).
          if isHTTP then http_stage D r from hs (rq\<lparr>rq_reader := b\<rparr>)
          else case socks_validHead b of (isSocks5, b) \<Rightarrow>
            if isSocks5 then Some (Returns (socks_stage werr (rq\<lparr>rq_reader := b\<rparr>)))
            else Some (Returns (tcp_readRequest (rq\<lparr>rq_reader := b, rq_Proto := ''tcp'', rq_Stream := TcpStream\<rparr>)))))"

text \<open>
  The probe of a connection that is kept alive: the request is read for its protocol alone,
  from the chunk and then from the connection. The second component is the connection
  afterwards, the third what the reading wrote to the client.
\<close>

definition isKeepAliveHttp ::
  "block_fun \<Rightarrow> router \<Rightarrow> go_err option \<Rightarrow> conn_in \<Rightarrow> string \<Rightarrow> (bool \<times> conn_in \<times> string) run" where
  "isKeepAliveHttp D r werr conn buf =
     (case ReadRequest D r werr ''client'' (NewRequestWithBuf conn buf) of
        None \<Rightarrow> None
      | Some Panics \<Rightarrow> Some Panics
      | Some (Returns (_, _, rq)) \<Rightarrow>
          Some (Returns (rq_Proto rq = ''http'', rsrc (rq_reader rq), rq_written rq)))"

subsection \<open>What reading consumes\<close>

lemma readFistLine_spec:
  assumes "roomy b"
  shows "\<exists>ok hs' b' x. readFistLine hs b = Some (ok, hs', b') \<and> consumes b x b' \<and> hs_Method hs' = hs_Method hs
    \<and> (hs_FirstLine hs' \<noteq> '''' \<longrightarrow> (\<exists>br. x = hs_FirstLine hs' @ br \<and> is_break br))"
proof -
  obtain line err c x where r: "readLineSlice True b = Some (line, err, c)" "consumes b x c"
    "err = None \<longrightarrow> (\<exists>br. x = line @ br \<and> is_break br)" "err \<noteq> None \<longrightarrow> line = []"
    using readLineSlice_returns [OF assms, of True] by blast
  obtain uri pr ok where p: "parseRequestLine line = (uri, pr, ok)" by (metis prod_cases3)
  show ?thesis
  proof (cases err)
    case None
    with r p show ?thesis by (auto simp: readFistLine_def Text_ReadLine_def Let_def)
  next
    case (Some e)
    with r p show ?thesis by (auto simp: readFistLine_def Text_ReadLine_def Let_def)
  qed
qed

text \<open>The first bytes that are taken for an HTTP method.\<close>

definition http_start :: "string \<Rightarrow> bool" where
  "http_start s =
     (case find_byte CHR '' '' (take 8 s) of
        None \<Rightarrow> False
      | Some i \<Rightarrow> ToUpper (take i (take 8 s)) \<in> set allMethods)"

lemma roomy_buffered: "reader_inv b \<Longrightarrow> 8 \<le> Buffered b \<Longrightarrow> roomy b"
  by (auto simp: roomy_def reader_inv_def Buffered_def)

lemma pending_prefix: "unread b = d @ x \<Longrightarrow> length d = n \<Longrightarrow> take n (pending b) = d"
  by (simp add: pending_def)

lemma http_validHead_spec:
  assumes "reader_inv b"
  shows "\<exists>ok hs' b' x. http_validHead hs b = Some (ok, hs', b') \<and> consumes b x b'
    \<and> (x \<noteq> [] \<or> ok \<longrightarrow> http_start (pending b) \<and> 8 \<le> Buffered b)"
proof (cases "Buffered b < 8")
  case True
  then show ?thesis using consumes_refl [OF assms] by (auto simp: http_validHead_def)
next
  case False
  then have roomy: "roomy b" using roomy_buffered [OF assms] by simp
  obtain tmp err c where p: "Peek 8 b = (tmp, err, c)" by (metis prod_cases3)
  note s = Peek_spec [OF assms p]
  then have c: "consumes b [] c" "roomy c" using roomy_consumes [OF roomy] by auto
  show ?thesis
  proof (cases "err = None \<and> (\<exists>i. find_byte CHR '' '' tmp = Some i \<and> ToUpper (take i tmp) \<in> set allMethods)")
    case True
    then obtain i where i: "err = None" "find_byte CHR '' '' tmp = Some i" "ToUpper (take i tmp) \<in> set allMethods"
      by blast
    obtain ok hs' b' x where r: "readFistLine (hs\<lparr>hs_Method := ToUpper (take i tmp)\<rparr>) c = Some (ok, hs', b')"
      "consumes c x b'" using readFistLine_spec [OF c(2)] by blast
    have t: "take 8 (pending b) = tmp"
      using s i(1) c(1) pending_prefix [of c tmp _ 8] by (auto simp: consumes_def)
    have "http_start (pending b)"
      unfolding http_start_def t using i(2,3) by simp
    moreover have "http_validHead hs b = Some (ok, hs', b')"
      using r(1) i p False by (simp add: http_validHead_def)
    ultimately show ?thesis
      using consumes_trans0 [OF c(1) r(2)] False by auto
  next
    case no: False
    then show ?thesis
      using p c(1) False by (auto simp: http_validHead_def Let_def split: option.splits)
  qed
qed

lemma ReadHeader_consumes:
  "roomy b \<Longrightarrow> \<exists>m err b' x. ReadHeader b = Some (m, err, b') \<and> consumes b x b'"
  using ReadHeader_always_returns by blast

lemma readBody_consumes: "reader_inv b \<Longrightarrow> readBody hs b = (hs', b') \<Longrightarrow> \<exists>x. consumes b x b'"
proof -
  assume inv: "reader_inv b" and r: "readBody hs b = (hs', b')"
  have "b' = b \<or> (\<exists>n. b' = snd (UnreadBuf n b))"
    using r by (auto simp: readBody_def body_all_def Let_def split: if_splits prod.splits option.splits) (metis snd_conv)+
  then show ?thesis
    using consumes_refl [OF inv] UnreadBuf_spec [OF inv] by (metis prod.collapse)
qed

lemma readRequest_body_consumes:
  assumes "reader_inv b" and "readRequest_body r a hs dst b = Returns (ok, err, hs', d, b')"
  shows "\<exists>x. consumes b x b'"
  using assms(2) readBody_consumes [OF assms(1)]
  by (auto simp: readRequest_body_def Let_def split: prod.splits outcome.splits)

lemma http_readRequest_returns:
  assumes "roomy b"
  shows "\<exists>res. http_readRequest D r from hs dst b = Some res
    \<and> (\<forall>ok err hs' d b'. res = Returns (ok, err, hs', d, b') \<longrightarrow> (\<exists>x. consumes b x b'))"
proof -
  obtain h err c x where h: "ReadHeader b = Some (h, err, c)" "consumes b x c"
    using ReadHeader_consumes [OF assms] by blast
  have inv: "reader_inv b" using assms by (simp add: roomy_def)
  have step: "\<exists>y. consumes b y b'" if "readRequest_body r a s d c = Returns (ok, e, hs', d', b')" for a s d ok e hs' d' b'
    using readRequest_body_consumes [OF consumes_inv [OF h(2)] that] consumes_trans [OF h(2)] by blast
  show ?thesis
    using h consumes_refl [OF inv] step
    by (auto simp: http_readRequest_def Let_def split: outcome.splits sum.splits option.splits)
qed

lemma socks_validHead_spec:
  assumes "reader_inv b" and "socks_validHead b = (ok, b')"
  shows "\<exists>x. consumes b x b' \<and> (\<not> ok \<longrightarrow> x = []) \<and> (ok \<longrightarrow> (\<exists>rest. pending b = CHR 0x05 # rest))"
proof (cases "Buffered b < 2")
  case True
  then show ?thesis using assms consumes_refl [OF assms(1)] by (auto simp: socks_validHead_def)
next
  case False
  obtain tmp err c where p: "Peek 2 b = (tmp, err, c)" by (metis prod_cases3)
  note s = Peek_spec [OF assms(1) p]
  obtain d b1 where u: "UnreadBuf (-1) c = (d, b1)" by (metis surj_pair)
  have c: "consumes b [] c" using s by auto
  note us = UnreadBuf_spec [OF consumes_inv [OF c] u]
  have "tmp ! 0 = CHR 0x05 \<Longrightarrow> 2 \<le> length tmp \<Longrightarrow> \<exists>rest. pending b = CHR 0x05 # rest"
    using s c by (cases tmp) (auto simp: consumes_def pending_def)
  with False assms(2) p u us c show ?thesis
    by (auto simp: socks_validHead_def Let_def split: if_splits intro: consumes_trans0)
qed

lemma socks_stage_consumes:
  assumes "reader_inv (rq_reader rq)" and "socks_stage werr rq = (ok, err, rq')"
  shows "\<exists>x. consumes (rq_reader rq) x (rq_reader rq')"
proof -
  obtain d e b where r: "Reader_Read 1024 (rq_reader rq) = (d, e, b)" by (metis prod_cases3)
  show ?thesis
    using assms(2) r Reader_Read_spec [OF assms(1) r] consumes_refl [OF assms(1)]
    by (auto simp: socks_stage_def socks_readRequest_def ParseHeader_def Let_def split: prod.splits if_splits)
qed

text \<open>
  The cases of a reading without a copy destination: how the bytes are taken, by stream.
\<close>

lemma ReadRequest_cases:
  assumes "reader_inv (rq_reader rq)" and "\<not> tcpcopy_on r"
  shows "\<exists>res. ReadRequest D r werr from rq = Some res \<and>
    (\<forall>ok err rq'. res = Returns (ok, err, rq') \<longrightarrow>
       (\<exists>x. consumes (rq_reader rq) x (rq_reader rq') \<and>
         (rq_Stream rq' = TcpStream \<longrightarrow> rq_Stream rq \<noteq> TcpStream \<longrightarrow>
            rq_written rq' = rq_written rq \<and> (x = [] \<or> http_start (pending (rq_reader rq))))))"
proof -
  obtain d e b1 where p: "Peek 1 (rq_reader rq) = (d, e, b1)" by (metis prod_cases3)
  then have b1: "consumes (rq_reader rq) [] b1" using Peek_spec [OF assms(1) p] by simp
  show ?thesis
  proof (cases e)
    case (Some err)
    with p b1 assms(2) show ?thesis by (auto simp: ReadRequest_def)
  next
    case None
    obtain ok hs b2 x where v: "http_validHead newHTTPStream b1 = Some (ok, hs, b2)" "consumes b1 x b2"
      "x \<noteq> [] \<or> ok \<longrightarrow> http_start (pending b1) \<and> 8 \<le> Buffered b1"
      using http_validHead_spec [OF consumes_inv [OF b1]] by blast
    have pend: "pending b1 = pending (rq_reader rq)" using b1 by (simp add: consumes_def)
    have b2: "consumes (rq_reader rq) x b2" using v(2) b1 by (blast intro: consumes_trans0)
    show ?thesis
    proof (cases ok)
      case True
      then have "roomy b2"
        using v roomy_buffered [OF consumes_inv [OF b1]] roomy_consumes by blast
      from http_readRequest_returns [OF this] obtain res where
        res: "http_readRequest D r from hs (fst (rq_dst rq), snd (snd (rq_dst rq))) b2 = Some res"
        "\<And>ok err hs' d b'. res = Returns (ok, err, hs', d, b') \<Longrightarrow> \<exists>y. consumes b2 y b'" by blast
      have st: "\<exists>y. consumes (rq_reader rq) y b'" if "res = Returns (ok, err, hs', d, b')" for ok err hs' d b'
        using res(2) [OF that] consumes_trans [OF b2] by blast
      with p None v(1) True res(1) assms(2) show ?thesis
        by (cases "rq_dst rq") (auto simp: ReadRequest_def http_stage_def Let_def split: outcome.splits)
    next
      case False
      obtain s b3 where s: "socks_validHead b2 = (s, b3)" by (metis surj_pair)
      obtain y where y: "consumes b2 y b3" "\<not> s \<longrightarrow> y = []"
        using socks_validHead_spec [OF consumes_inv [OF b2] s] by blast
      have b3: "consumes (rq_reader rq) (x @ y) b3" by (rule consumes_trans [OF b2 y(1)])
      show ?thesis
      proof (cases s)
        case True
        obtain ok' err' rq' where st: "socks_stage werr (rq\<lparr>rq_reader := b3\<rparr>) = (ok', err', rq')"
          by (metis prod_cases3)
        obtain z where "consumes b3 z (rq_reader rq')"
          using socks_stage_consumes [OF _ st] consumes_inv [OF b3] by auto
        then have "consumes (rq_reader rq) ((x @ y) @ z) (rq_reader rq')" by (rule consumes_trans [OF b3])
        moreover have "rq_Stream rq' = Socks5Stream" using st by (auto simp: socks_stage_def split: prod.splits)
        ultimately show ?thesis using p None v(1) False s True st assms(2) by (auto simp: ReadRequest_def)
      next
        case ns: False
        then show ?thesis
          using p None v False s y b3 assms(2) pend by (auto simp: ReadRequest_def tcp_readRequest_def)
      qed
    qed
  qed
qed

subsection \<open>The first read\<close>

text \<open>A fresh reader takes the first segment of the connection as a whole.\<close>

lemma fill_first:
  assumes "rpos b = 0" and "wpos b = 0" and "rsrc b = (d, None) # nxt" and "d \<noteq> []" and "length d \<le> length (rbuf b)"
  shows "fill b = b\<lparr>rsrc := nxt, rbuf := store_bytes (rbuf b) 0 d, wpos := length d\<rparr>"
proof -
  have m: "maxConsecutiveEmptyReads = Suc 99" by (simp add: maxConsecutiveEmptyReads_def)
  show ?thesis using assms unfolding fill_def m by (simp only: fill_loop.simps) (simp add: slide_def)
qed

lemma Peek_first:
  assumes "d \<noteq> []" and "length d \<le> 4096"
  shows "\<exists>b. Peek 1 (NewReader ((d, None) # nxt)) = ([hd d], None, b)
    \<and> unread b = d \<and> rsrc b = nxt \<and> rerr b = None \<and> length (rbuf b) = 4096 \<and> reader_inv b \<and> Buffered b = length d"
proof -
  define b where "b = (NewReader ((d, None) # nxt))\<lparr>lastByte := -1\<rparr>"
  have f: "length (rbuf b) = 4096" "rpos b = 0" "wpos b = 0" "rerr b = None" "rsrc b = (d, None) # nxt"
    by (simp_all add: b_def NewReader_def NewReaderSize_def Reader_reset_def defaultBufSize_def minReadBufferSize_def)
  define c where "c = fill b"
  have "c = b\<lparr>rsrc := nxt, rbuf := store_bytes (rbuf b) 0 d, wpos := length d\<rparr>"
    unfolding c_def by (rule fill_first) (use f assms in simp_all)
  then have c: "unread c = d" "rsrc c = nxt" "rerr c = None" "length (rbuf c) = 4096" "wpos c = length d" "rpos c = 0"
    using f assms by (simp_all add: unread_def store_bytes_def)
  have "Peek_loop 1 b = Peek_loop 1 c"
    by (subst Peek_loop.simps) (simp add: c_def f)
  also have "\<dots> = c" using assms c by (subst Peek_loop.simps) (auto simp: Suc_le_eq)
  finally have "Peek_loop (nat 1) b = c" by simp
  moreover have "take (nat 1) (drop (rpos c) (rbuf c)) = [hd d]"
    using c assms by (cases "rbuf c"; cases d) (auto simp: unread_def)
  moreover have "d \<noteq> []" "rbuf c \<noteq> []" using assms(1) c by auto
  ultimately show ?thesis
    using c assms(2) unfolding Peek_def b_def [symmetric]
    by (simp add: Let_def Buffered_def reader_inv_def)
qed

lemma first_segment:
  assumes "clean ((d, None) # nxt)" and "length d \<le> 4096"
  shows "\<exists>b. Peek 1 (NewReader ((d, None) # nxt)) = ([hd d], None, b)
    \<and> delivers b (d @ conn_bytes nxt) \<and> Buffered b = length d"
proof -
  have d: "d \<noteq> []" "clean nxt" using assms(1) by (simp_all add: clean_def)
  from Peek_first [OF d(1) assms(2), of nxt] obtain b where
    b: "Peek 1 (NewReader ((d, None) # nxt)) = ([hd d], None, b)" "unread b = d" "rsrc b = nxt"
    "rerr b = None" "length (rbuf b) = 4096" "reader_inv b" "Buffered b = length d" by blast
  then have "delivers b (d @ conn_bytes nxt)" using d by (simp add: delivers_def live_def roomy_def pending_def)
  with b show ?thesis by blast
qed

subsection \<open>Recognising HTTP\<close>

text \<open>A source of lines whose first eight bytes can be looked at when they are buffered.\<close>

locale head_source = line_source +
  assumes head: "feeds b s \<Longrightarrow> 8 \<le> Buffered b \<Longrightarrow> \<exists>b'. Peek 8 b = (take 8 s, None, b') \<and> feeds b' s"
begin

lemma validHead_line:
  assumes "feeds b (l @ CHR 0x0A # rest)" and "CHR 0x0A \<notin> set l" and "8 \<le> Buffered b"
    and "find_byte CHR '' '' (take 8 (l @ CHR 0x0A # rest)) = Some i"
    and "ToUpper (take i (take 8 (l @ CHR 0x0A # rest))) = m" and "m \<in> set allMethods"
    and "parseRequestLine (drop_break (l @ [CHR 0x0A])) = (uri, pr, ok)"
  shows "\<exists>b'. http_validHead hs b
      = Some (ok \<and> (pr = ''HTTP/1.0'' \<or> pr = ''HTTP/1.1''),
          hs\<lparr>hs_Method := m, hs_RequestURI := uri, hs_Proto := pr, hs_FirstLine := drop_break (l @ [CHR 0x0A])\<rparr>, b')
    \<and> feeds b' rest"
proof -
  let ?s = "l @ CHR 0x0A # rest"
  obtain c where c: "Peek 8 b = (take 8 ?s, None, c)" "feeds c ?s" using head [OF assms(1,3)] by blast
  obtain b' where b': "readLineSlice True c = Some (drop_break (l @ [CHR 0x0A]), None, b')" "feeds b' rest"
    using line [OF c(2) assms(2), of True] by auto
  have "http_validHead hs b = readFistLine (hs\<lparr>hs_Method := m\<rparr>) c"
    unfolding http_validHead_def c(1) using assms(3-6) by simp
  also have "\<dots> = Some (ok \<and> (pr = ''HTTP/1.0'' \<or> pr = ''HTTP/1.1''),
      hs\<lparr>hs_Method := m, hs_RequestURI := uri, hs_Proto := pr, hs_FirstLine := drop_break (l @ [CHR 0x0A])\<rparr>, b')"
    unfolding readFistLine_def Text_ReadLine_def b'(1) using assms(7) by (simp add: Let_def)
  finally show ?thesis using b'(2) by blast
qed

end

definition request_head :: "string \<Rightarrow> string \<Rightarrow> string \<Rightarrow> http_stream" where
  "request_head m uri pr = newHTTPStream\<lparr>hs_Method := m, hs_RequestURI := uri, hs_Proto := pr,
     hs_FirstLine := m @ '' '' @ uri @ '' '' @ pr\<rparr>"

lemma method_facts:
  "m \<in> set allMethods \<Longrightarrow> length m < 8 \<and> CHR '' '' \<notin> set m \<and> CHR 0x0A \<notin> set m \<and> ToUpper m = m"
proof -
  have "list_all (\<lambda>m. length m < 8 \<and> CHR '' '' \<notin> set m \<and> CHR 0x0A \<notin> set m \<and> ToUpper m = m) allMethods"
    by code_simp
  then show "m \<in> set allMethods \<Longrightarrow> ?thesis" by (auto simp: list_all_iff)
qed

lemma method_space:
  "m \<in> set allMethods \<Longrightarrow> find_byte CHR '' '' (take 8 (m @ CHR '' '' # x)) = Some (length m)"
  using method_facts [of m] find_byte_append_notin [of "CHR '' ''" m "take (7 - length m) x"]
  by (simp add: take_Cons' numeral_eq_Suc)

context head_source
begin

lemma validHead_request:
  assumes "feeds b (m @ '' '' @ uri @ '' '' @ pr @ crlf @ rest)" and "8 \<le> Buffered b"
    and "m \<in> set allMethods" and "CHR '' '' \<notin> set uri" and "CHR 0x0A \<notin> set uri"
    and "pr = ''HTTP/1.0'' \<or> pr = ''HTTP/1.1''"
  shows "\<exists>b'. http_validHead newHTTPStream b = Some (True, request_head m uri pr, b') \<and> feeds b' rest"
proof -
  let ?line = "m @ '' '' @ uri @ '' '' @ pr"
  note m = method_facts [OF assms(3)]
  have f: "feeds b ((?line @ [CHR 0x0D]) @ CHR 0x0A # rest)" using assms(1) by (simp add: crlf_def)
  have l: "CHR 0x0A \<notin> set (?line @ [CHR 0x0D])" using m assms(5,6) by auto
  have s: "find_byte CHR '' '' (take 8 ((?line @ [CHR 0x0D]) @ CHR 0x0A # rest)) = Some (length m)"
    using method_space [OF assms(3)] by simp
  have u: "ToUpper (take (length m) (take 8 ((?line @ [CHR 0x0D]) @ CHR 0x0A # rest))) = m"
    using m by (simp add: min_absorb1)
  have d: "drop_break ((?line @ [CHR 0x0D]) @ [CHR 0x0A]) = ?line"
    using drop_break_crlf [of ?line] by (simp add: crlf_def)
  have p: "parseRequestLine ?line = (uri, pr, True)" using parseRequestLine_words m assms(4) by simp
  from validHead_line [OF f l assms(2) s u assms(3), of uri pr True newHTTPStream] show ?thesis
    unfolding d using p assms(6) by (auto simp: request_head_def)
qed

end

interpretation live_head: head_source delivers
proof
  fix b s
  assume b: "delivers b s" "8 \<le> Buffered b"
  then have "8 \<le> length (pending b)" "8 \<le> length (rbuf b)"
    using live_buffered [of b] by (auto simp: delivers_def)
  then show "\<exists>b'. Peek 8 b = (take 8 s, None, b') \<and> delivers b' s"
    using b Peek_live [of b 8] by (auto simp: delivers_def)
qed

interpretation buffer_head: head_source "buffered src" for src
proof
  fix b s
  assume b: "buffered src b s" "8 \<le> Buffered b"
  then show "\<exists>b'. Peek 8 b = (take 8 s, None, b') \<and> buffered src b' s"
    using Peek_buffered [of 8 b] by (auto simp: buffered_def)
qed

subsection \<open>Requests that arrive\<close>

lemma request_head_simps [simp]:
  "hs_Method (request_head m uri pr) = m" "hs_RequestURI (request_head m uri pr) = uri"
  "hs_Proto (request_head m uri pr) = pr" "hs_BodyBuf (request_head m uri pr) = ''''"
  by (simp_all add: request_head_def newHTTPStream_def)

lemma delivers_inv: "delivers b s \<Longrightarrow> reader_inv b"
  by (simp add: delivers_def live_def roomy_def)

lemma delivers_consumes: "delivers b (x @ s) \<Longrightarrow> consumes b x b' \<Longrightarrow> pending b' = s"
  by (auto simp: delivers_def consumes_def)

text \<open>
  A request line that arrives in a first segment of at least eight bytes is recognised; the
  rest of the stream is left to the reading of the header.
\<close>

lemma ReadRequest_http:
  assumes "\<not> tcpcopy_on r" and "clean ((d, None) # nxt)" and "8 \<le> length d" and "length d \<le> 4096"
    and "d @ conn_bytes nxt = m @ '' '' @ uri @ '' '' @ pr @ crlf @ rest"
    and "m \<in> set allMethods" and "CHR '' '' \<notin> set uri" and "CHR 0x0A \<notin> set uri"
    and "pr = ''HTTP/1.0'' \<or> pr = ''HTTP/1.1''"
  shows "\<exists>b. delivers b rest \<and> ReadRequest D r werr from (NewRequest ((d, None) # nxt))
    = http_stage D r from (request_head m uri pr) ((NewRequest ((d, None) # nxt))\<lparr>rq_reader := b\<rparr>)"
proof -
  from first_segment [OF assms(2,4)] obtain b1 where
    b1: "Peek 1 (NewReader ((d, None) # nxt)) = ([hd d], None, b1)" "delivers b1 (d @ conn_bytes nxt)"
    "8 \<le> Buffered b1" using assms(3) by auto
  from live_head.validHead_request [OF b1(2) [unfolded assms(5)] b1(3) assms(6-9)] obtain b where
    "http_validHead newHTTPStream b1 = Some (True, request_head m uri pr, b)" "delivers b rest" by blast
  then show ?thesis using b1(1) assms(1) by (auto simp: ReadRequest_def NewRequest_def)
qed

lemma http_stage_eq:
  assumes "http_readRequest D r from hs ('''', 0) (rq_reader rq) = Some (Returns (ok, err, hs', (n, p), b'))"
    and "rq_dst rq = ('''', '''', 0)"
  shows "http_stage D r from hs rq = Some (Returns (ok, err,
    rq\<lparr>rq_reader := b', rq_Proto := ''http'', rq_Stream := HttpStream hs', rq_dst := (n, '''', p)\<rparr>))"
  using assms by (simp add: http_stage_def)

lemma canonical_Host [simp]: "CanonicalMIMEHeaderKey ''Host'' = ''Host''"
  by code_simp

lemma plain_no_space:
  assumes "plain_path p" and "plain_query q" and "CHR '' '' \<notin> set q"
  shows "CHR '' '' \<notin> set (p @ q) \<and> CHR 0x0A \<notin> set (p @ q)"
proof -
  have "\<not> path_char CHR '' ''" "\<not> path_char CHR 0x0A" "is_ctl CHR 0x0A" by code_simp+
  then show ?thesis using assms by (auto simp: plain_path_def plain_query_def list_all_iff list_ex_iff)
qed

lemma hostport_no_space: "plain_name n \<Longrightarrow> CHR '' '' \<notin> set (hostport n po) \<and> CHR 0x0A \<notin> set (hostport n po)"
proof -
  have "\<not> host_char CHR '' ''" "\<not> host_char CHR 0x0A" by code_simp+
  then show "plain_name n \<Longrightarrow> ?thesis"
    using plain_host_chars [OF plain_hostport [of n po], of "CHR '' ''"] plain_host_chars [OF plain_hostport [of n po], of "CHR 0x0A"]
    by auto
qed

text \<open>
  A CONNECT request whose header ends in the first segment: the rest of the segment is its
  body. The URI may be an encrypted one.
\<close>

lemma ReadRequest_connect_segment:
  assumes "\<not> tcpcopy_on r" and "d = ''CONNECT '' @ uri @ '' HTTP/1.1'' @ crlf @ crlf @ early"
    and "length d \<le> 4096" and "plain_name n" and "CHR '' '' \<notin> set uri" and "CHR 0x0A \<notin> set uri"
    and "request_uri D r ''CONNECT'' from uri = Returns (Inr (hostport n po))"
  shows "\<exists>hs rq. ReadRequest D r werr from (NewRequest ((d, None) # nxt)) = Some (Returns (True, None, rq))
    \<and> rq_Proto rq = ''http'' \<and> rq_Stream rq = HttpStream hs \<and> hs_Method hs = ''CONNECT'' \<and> rq_dst rq = (n, '''', name_port po)
    \<and> hs_Header hs = [] \<and> rq_written rq = '''' \<and> hs_BodyBuf hs = early \<and> pending (rq_reader rq) = conn_bytes nxt
    \<and> rsrc (rq_reader rq) = nxt \<and> rerr (rq_reader rq) = None"
proof -
  have m: "''CONNECT'' \<in> set allMethods" by (simp add: allMethods_def)
  have d: "d = ''CONNECT'' @ '' '' @ uri @ '' '' @ ''HTTP/1.1'' @ crlf @ crlf @ early" using assms(2) by simp
  then have "d \<noteq> []" by simp
  from Peek_first [OF this assms(3), of nxt] obtain b0 where
    b0: "Peek 1 (NewReader ((d, None) # nxt)) = ([hd d], None, b0)" "buffered nxt b0 d" "Buffered b0 = length d"
    by (auto simp: buffered_def)
  have "8 \<le> Buffered b0" using b0(3) d by simp
  from buffer_head.validHead_request [OF b0(2) [unfolded d] this m assms(5,6)] obtain b where
    b: "http_validHead newHTTPStream b0 = Some (True, request_head ''CONNECT'' uri ''HTTP/1.1'', b)"
    "buffered nxt b (crlf @ early)" by blast
  from buffer_source.ReadHeader_wire [of "[]" nxt b early] b(2) obtain b1 where
    b1: "ReadHeader b = Some ([], None, b1)" "buffered nxt b1 early" by auto
  have "Header_Get [] ''Host'' = ''''" by (simp add: Header_Get_def header_vals_def)
  moreover have "reader_inv b1" using b1(2) by (simp add: buffered_def)
  ultimately obtain hs b' where hs: "http_readRequest D r from (request_head ''CONNECT'' uri ''HTTP/1.1'') ('''', 0) b
      = Some (Returns (True, None, hs, (n, name_port po), b'))"
    "hs_Method hs = ''CONNECT''" "hs_BodyBuf hs = unread b1" "consumes b1 (hs_BodyBuf hs) b'" "hs_Header hs = []"
    "rsrc b' = nxt" "rerr b' = None"
    using b1(2) [unfolded buffered_def] readRequest_connect [OF _ _ assms(4) b1(1),
        of "request_head ''CONNECT'' uri ''HTTP/1.1''" D r "from" po] assms(7) by fastforce
  have "pending b' = conn_bytes nxt" "hs_BodyBuf hs = early"
    using hs(3,4) b1(2) by (simp_all add: consumes_def buffered_def pending_def)
  moreover have "ReadRequest D r werr from (NewRequest ((d, None) # nxt))
      = http_stage D r from (request_head ''CONNECT'' uri ''HTTP/1.1'')
          ((NewRequest ((d, None) # nxt))\<lparr>rq_reader := b\<rparr>)"
    using b(1) b0(1) assms(1) by (simp add: ReadRequest_def NewRequest_def)
  ultimately show ?thesis
    using http_stage_eq [of D r "from" "request_head ''CONNECT'' uri ''HTTP/1.1''"
        "(NewRequest ((d, None) # nxt))\<lparr>rq_reader := b\<rparr>"] hs
    by (auto simp: NewRequest_def)
qed

lemma ReadRequest_connect_early:
  assumes "\<not> tcpcopy_on r" and "d = ''CONNECT '' @ hostport n po @ '' HTTP/1.1'' @ crlf @ crlf @ early"
    and "length d \<le> 4096" and "plain_name n"
  shows "\<exists>hs rq. ReadRequest D r werr ''client'' (NewRequest ((d, None) # nxt)) = Some (Returns (True, None, rq))
    \<and> rq_Stream rq = HttpStream hs \<and> hs_Method hs = ''CONNECT'' \<and> rq_dst rq = (n, '''', name_port po)
    \<and> hs_Header hs = [] \<and> rq_written rq = '''' \<and> hs_BodyBuf hs = early \<and> pending (rq_reader rq) = conn_bytes nxt"
  using ReadRequest_connect_segment [OF assms, of D "''client''" po] hostport_no_space [OF assms(4), of po]
  by (fastforce simp: request_uri_def)

lemma ReadRequest_origin_head:
  assumes "\<not> tcpcopy_on r" and "clean ((d, None) # nxt)" and "8 \<le> length d" and "length d \<le> 4096"
    and "d @ conn_bytes nxt = m @ '' '' @ (p @ q) @ '' '' @ pr @ crlf @ header_wire h @ crlf @ body"
    and "m \<in> set allMethods" and "m \<noteq> ''CONNECT''" and "plain_path p" and "plain_query q" and "CHR '' '' \<notin> set q"
    and "pr = ''HTTP/1.0'' \<or> pr = ''HTTP/1.1''"
    and "header_ok h" and "\<forall>(k, vs) \<in> set h. name_ok k"
    and "map wire_value (header_vals h ''Host'') = [hostport n po]" and "plain_name n"
  shows "\<exists>hs rq. ReadRequest D r werr from (NewRequest ((d, None) # nxt)) = Some (Returns (True, None, rq))
    \<and> rq_Proto rq = ''http'' \<and> rq_Stream rq = HttpStream hs \<and> rq_dst rq = (n, '''', name_port po)
    \<and> hs_FirstLine hs = m @ '' '' @
        (if firstLineHost r (hostport n po) = ''off'' then '''' else ''http://'' @ hostport n po) @ p @ q @ '' '' @ pr
    \<and> body = hs_BodyBuf hs @ pending (rq_reader rq) \<and> hs_Method hs = m \<and> hs_RequestURI hs \<noteq> ''''
    \<and> hs_Header hs = fold add_field (wire_fields h) [] \<and> rq_written rq = ''''"
proof -
  note ns = plain_no_space [OF assms(8-10)]
  obtain b where b: "delivers b (header_wire h @ crlf @ body)"
    "ReadRequest D r werr from (NewRequest ((d, None) # nxt))
      = http_stage D r from (request_head m (p @ q) pr) ((NewRequest ((d, None) # nxt))\<lparr>rq_reader := b\<rparr>)"
    using ReadRequest_http [OF assms(1-6) _ _ assms(11)] ns by blast
  from live_source.ReadHeader_wire [OF assms(13) b(1)] obtain b1 where
    b1: "ReadHeader b = Some (fold add_field (wire_fields h) [], None, b1)" "delivers b1 body" by blast
  have "Header_Get (fold add_field (wire_fields h) []) ''Host'' = hostport n po"
    using header_vals_wire [OF assms(12), of "''Host''"] assms(14) canonical_Host by (simp add: Header_Get_def)
  from readRequest_origin [OF _ _ assms(8,9) b1(1) this assms(15), of "request_head m (p @ q) pr"] assms(7) delivers_inv [OF b1(2)]
  obtain hs b' where hs: "http_readRequest D r from (request_head m (p @ q) pr) ('''', 0) b
      = Some (Returns (True, None, hs, (n, name_port po), b'))"
    "hs_FirstLine hs = m @ '' '' @
        (if firstLineHost r (hostport n po) = ''off'' then '''' else ''http://'' @ hostport n po) @ p @ q @ '' '' @ pr"
    "consumes b1 (hs_BodyBuf hs) b'" "hs_Method hs = m" "hs_RequestURI hs \<noteq> ''''"
    "hs_Header hs = fold add_field (wire_fields h) []" by fastforce
  have "body = hs_BodyBuf hs @ pending b'" using b1(2) hs(3) by (simp add: delivers_def consumes_def)
  then show ?thesis
    using http_stage_eq [of D r "from" "request_head m (p @ q) pr" "(NewRequest ((d, None) # nxt))\<lparr>rq_reader := b\<rparr>"] hs b(2)
    by (auto simp: NewRequest_def)
qed

subsection \<open>Properties\<close>


lemma host_port_8080: "hostport ''h.b'' (Some 8080) = ''h.b:8080''"
  by (simp add: hostport_def port_str_def Itoa_def dec_digits.simps digit_char_def char_of_eq_iff take_bit_eq_mod)


text \<open>
  A CONNECT request without header fields, from the bytes of the connection: for every
  cutting of the stream the connection is taken for HTTP, the destination is the host
  and port of the request line, and nothing after the empty line is lost.
\<close>

theorem ReadRequest_connect:
  assumes "\<not> tcpcopy_on r" and "clean ((d, None) # nxt)" and "8 \<le> length d" and "length d \<le> 4096"
    and "d @ conn_bytes nxt = ''CONNECT '' @ hostport n po @ '' HTTP/1.1'' @ crlf @ crlf @ rest"
    and "plain_name n"
  shows "\<exists>hs rq. ReadRequest D r werr ''client'' (NewRequest ((d, None) # nxt)) = Some (Returns (True, None, rq))
    \<and> rq_Proto rq = ''http'' \<and> rq_Stream rq = HttpStream hs \<and> hs_Method hs = ''CONNECT''
    \<and> rq_dst rq = (n, '''', name_port po) \<and> hs_clientUnRead hs = -1
    \<and> rest = hs_BodyBuf hs @ pending (rq_reader rq)"
proof -
  note ns = hostport_no_space [OF assms(6), of po]
  have m: "''CONNECT'' \<in> set allMethods" by (simp add: allMethods_def)
  have "d @ conn_bytes nxt = ''CONNECT'' @ '' '' @ hostport n po @ '' '' @ ''HTTP/1.1'' @ crlf @ crlf @ rest"
    using assms(5) by simp
  from ReadRequest_http [OF assms(1-4) this m] ns obtain b where b: "delivers b (crlf @ rest)"
    "ReadRequest D r werr ''client'' (NewRequest ((d, None) # nxt))
      = http_stage D r ''client'' (request_head ''CONNECT'' (hostport n po) ''HTTP/1.1'')
          ((NewRequest ((d, None) # nxt))\<lparr>rq_reader := b\<rparr>)" by blast
  from ReadHeader_blank [OF b(1)] obtain b1 where b1: "ReadHeader b = Some ([], None, b1)" "delivers b1 rest" by blast
  have "Header_Get [] ''Host'' = ''''" by (simp add: Header_Get_def header_vals_def)
  moreover have "request_uri D r ''CONNECT'' ''client'' (hostport n po) = Returns (Inr (hostport n po))"
    by (simp add: request_uri_def)
  ultimately obtain hs b' where hs: "http_readRequest D r ''client'' (request_head ''CONNECT'' (hostport n po) ''HTTP/1.1'') ('''', 0) b
      = Some (Returns (True, None, hs, (n, name_port po), b'))"
    "hs_Method hs = ''CONNECT''" "hs_clientUnRead hs = -1" "consumes b1 (hs_BodyBuf hs) b'"
    using readRequest_connect [OF _ _ assms(6) b1(1) delivers_inv [OF b1(2)],
        of "request_head ''CONNECT'' (hostport n po) ''HTTP/1.1''" D r "''client''" po] by fastforce
  have "rest = hs_BodyBuf hs @ pending b'" using b1(2) hs(4) by (simp add: delivers_def consumes_def)
  then show ?thesis
    using http_stage_eq [of D r "''client''" "request_head ''CONNECT'' (hostport n po) ''HTTP/1.1''"
        "(NewRequest ((d, None) # nxt))\<lparr>rq_reader := b\<rparr>"] hs b(2)
    by (auto simp: NewRequest_def)
qed

theorem ReadRequest_connect_witness:
  "\<exists>hs rq. ReadRequest xor_cipher empty_router None ''client''
      (NewRequest [(''CONNECT h.b:80'', None), (''80 HTTP/1.1'' @ crlf @ crlf @ ''xyz'', None)]) = Some (Returns (True, None, rq))
    \<and> rq_Stream rq = HttpStream hs \<and> rq_dst rq = (''h.b'', '''', 8080) \<and> ''xyz'' = hs_BodyBuf hs @ pending (rq_reader rq)"
proof -
  let ?d = "''CONNECT h.b:80''" and ?n = "[(''80 HTTP/1.1'' @ crlf @ crlf @ ''xyz'', None)]"
  have c: "\<not> tcpcopy_on empty_router" "clean ((?d, None) # ?n)" "plain_name ''h.b''"
    by (simp_all add: tcpcopy_on_def empty_router_def clean_def plain_name_def host_char_def is_alnum_def)
  have e: "?d @ conn_bytes ?n = ''CONNECT '' @ hostport ''h.b'' (Some 8080) @ '' HTTP/1.1'' @ crlf @ crlf @ ''xyz''"
    by (simp add: conn_bytes_def host_port_8080)
  show ?thesis
    using ReadRequest_connect [OF c(1,2) _ _ e c(3), of xor_cipher None] by (auto simp: name_port_def)
qed


text \<open>
  C18: a connection that is handed on as plain TCP has written nothing to the client, and
  what it has lost of the client's bytes is nothing at all unless the first eight bytes
  begin with an HTTP method and a space.
\<close>

theorem tcp_fallback:
  assumes "ReadRequest D r werr from (NewRequest conn) = Some (Returns (ok, err, rq))"
    and "rq_Stream rq = TcpStream"
  shows "rq_written rq = '''' \<and> (\<exists>lost. conn_bytes conn = lost @ pending (rq_reader rq)
    \<and> (lost = '''' \<or> http_start (conn_bytes conn)))"
proof -
  have "\<not> tcpcopy_on r"
    using assms by (auto simp: ReadRequest_def tcpcopy_readRequest_def split: if_splits)
  moreover have "reader_inv (rq_reader (NewRequest conn))" by (simp add: NewRequest_def NewReader_inv)
  ultimately show ?thesis
    using ReadRequest_cases [of "NewRequest conn" r D werr "from"] assms
    by (fastforce simp: NewRequest_def consumes_def pending_NewReader)
qed

theorem tcp_fallback_witness:
  "\<exists>rq. ReadRequest xor_cipher empty_router None ''client'' (NewRequest [(''SSH-2.0'', None), (''-x'' @ crlf, None)])
      = Some (Returns (True, None, rq)) \<and> rq_written rq = ''''"
proof -
  let ?rq = "NewRequest [(''SSH-2.0'', None), (''-x'' @ crlf, None)]"
  obtain b where b: "Peek 1 (rq_reader ?rq) = (''S'', None, b)" "Buffered b = 7" "unread b = ''SSH-2.0''" "reader_inv b"
    using Peek_first [of "''SSH-2.0''" "[(''-x'' @ crlf, None)]"] by (auto simp: NewRequest_def)
  obtain ok c where s: "socks_validHead b = (ok, c)" by (metis surj_pair)
  then have "\<not> ok" using socks_validHead_spec [OF b(4) s] b(3) by (auto simp: pending_def)
  then have "ReadRequest xor_cipher empty_router None ''client'' ?rq
      = Some (Returns (True, None, ?rq\<lparr>rq_reader := c, rq_Proto := ''tcp'', rq_Stream := TcpStream\<rparr>))"
    using b s by (simp add: ReadRequest_def http_validHead_def tcp_readRequest_def tcpcopy_on_def empty_router_def)
  with tcp_fallback [OF this] show ?thesis by simp
qed

text \<open>
  An HTTP method decides too early: when the first line begins with one but is not an
  HTTP/1.x request line, as in other protocols with such methods, the line is consumed
  before the connection falls back to plain TCP, so the server behind it never sees it.
\<close>

theorem tcp_fallback_loses_line:
  assumes "\<not> tcpcopy_on r" and "clean ((d, None) # nxt)" and "8 \<le> length d" and "length d \<le> 4096"
    and "d @ conn_bytes nxt = l @ crlf @ rest" and "CHR 0x0A \<notin> set l"
    and "http_start (l @ crlf @ rest)"
    and "parseRequestLine l = (uri, pr, ok)" and "\<not> ok \<or> pr \<noteq> ''HTTP/1.0'' \<and> pr \<noteq> ''HTTP/1.1''"
    and "\<not> HasPrefix rest [CHR 0x05]"
  shows "\<exists>rq. ReadRequest D r werr from (NewRequest ((d, None) # nxt)) = Some (Returns (True, None, rq))
    \<and> rq_Stream rq = TcpStream \<and> pending (rq_reader rq) = rest"
proof -
  from first_segment [OF assms(2,4)] obtain b1 where
    b1: "Peek 1 (NewReader ((d, None) # nxt)) = ([hd d], None, b1)" "delivers b1 (d @ conn_bytes nxt)"
    "8 \<le> Buffered b1" using assms(3) by auto
  have s: "d @ conn_bytes nxt = (l @ [CHR 0x0D]) @ CHR 0x0A # rest" using assms(5) by (simp add: crlf_def)
  obtain i m where m: "find_byte CHR '' '' (take 8 ((l @ [CHR 0x0D]) @ CHR 0x0A # rest)) = Some i"
    "ToUpper (take i (take 8 ((l @ [CHR 0x0D]) @ CHR 0x0A # rest))) = m" "m \<in> set allMethods"
    using assms(7) by (auto simp: http_start_def crlf_def split: option.splits)
  have dr: "drop_break ((l @ [CHR 0x0D]) @ [CHR 0x0A]) = l" using drop_break_crlf [of l] by (simp add: crlf_def)
  obtain hs b where b: "http_validHead newHTTPStream b1 = Some (False, hs, b)" "delivers b rest"
    using live_head.validHead_line [OF b1(2) [unfolded s] _ b1(3) m, of uri pr ok newHTTPStream] assms(6,8,9)
    unfolding dr by auto
  obtain sk c where c: "socks_validHead b = (sk, c)" by (metis surj_pair)
  have "\<not> sk" "consumes b [] c"
    using socks_validHead_spec [OF delivers_inv [OF b(2)] c] b(2) assms(10) by (auto simp: delivers_def HasPrefix_def)
  with b b1(1) c assms(1) show ?thesis
    by (auto simp: ReadRequest_def NewRequest_def tcp_readRequest_def delivers_def consumes_def)
qed

theorem tcp_fallback_loses_line_witness:
  "\<exists>rq. ReadRequest xor_cipher empty_router None ''client'' (NewRequest [(''OPTIONS rtsp://h/x RTSP/1.0'' @ crlf @ ''CSeq: 1'' @ crlf, None)])
      = Some (Returns (True, None, rq)) \<and> rq_Stream rq = TcpStream \<and> pending (rq_reader rq) = ''CSeq: 1'' @ crlf"
proof -
  let ?l = "''OPTIONS rtsp://h/x RTSP/1.0''" and ?r = "''CSeq: 1'' @ crlf"
  have p: "parseRequestLine ?l = (''rtsp://h/x'', ''RTSP/1.0'', True)" by code_simp
  have h: "http_start (?l @ crlf @ ?r)" "\<not> HasPrefix ?r [CHR 0x05]" by code_simp+
  have c: "\<not> tcpcopy_on empty_router" "clean [(?l @ crlf @ ?r, None)]"
    by (simp_all add: tcpcopy_on_def empty_router_def clean_def crlf_def)
  show ?thesis
    by (rule tcp_fallback_loses_line [OF c _ _ _ _ h(1) p _ h(2)]) (simp_all add: conn_bytes_def crlf_def)
qed

text \<open>
  The protocol is decided on the first segment alone: when it has fewer than eight
  bytes and is not a SOCKS5 greeting, the connection is taken for plain TCP, even when
  the bytes that follow complete an HTTP request line.
\<close>

theorem short_first_segment:
  assumes "\<not> tcpcopy_on r" and "d \<noteq> []" and "length d < 8" and "hd d \<noteq> CHR 0x05"
  shows "\<exists>rq. ReadRequest D r werr from (NewRequest ((d, None) # nxt)) = Some (Returns (True, None, rq))
    \<and> rq_Stream rq = TcpStream \<and> pending (rq_reader rq) = d @ conn_bytes nxt"
proof -
  obtain b where b: "Peek 1 (NewReader ((d, None) # nxt)) = ([hd d], None, b)"
    "Buffered b = length d" "unread b = d" "rsrc b = nxt" "reader_inv b"
    using Peek_first [OF assms(2), of nxt] assms(3) by auto
  obtain sk c where c: "socks_validHead b = (sk, c)" by (metis surj_pair)
  have "\<not> sk" "consumes b [] c"
    using socks_validHead_spec [OF b(5) c] b(3) assms(2,4) by (cases d; auto simp: pending_def)+
  with b c assms(1,3) show ?thesis
    by (auto simp: ReadRequest_def NewRequest_def http_validHead_def tcp_readRequest_def pending_def consumes_def)
qed

theorem short_first_segment_witness:
  "\<exists>rq. ReadRequest xor_cipher empty_router None ''client'' (NewRequest [(''GET /'', None), ('' HTTP/1.1'' @ crlf @ crlf, None)])
      = Some (Returns (True, None, rq)) \<and> rq_Stream rq = TcpStream"
proof -
  have "\<not> tcpcopy_on empty_router" by (simp add: tcpcopy_on_def empty_router_def)
  from short_first_segment [OF this, of "''GET /''"] show ?thesis by fastforce
qed

subsection \<open>SOCKS5\<close>

lemma greeting_not_http: "\<not> http_start (CHR 0x05 # x)"
proof -
  have "list_all (\<lambda>m. m \<noteq> '''' \<and> hd m \<noteq> CHR 0x05) allMethods" by code_simp
  then have a: "m \<in> set allMethods \<Longrightarrow> m \<noteq> '''' \<and> hd m \<noteq> CHR 0x05" for m by (auto simp: list_all_iff)
  have "hd (ToUpper (CHR 0x05 # y)) = CHR 0x05" for y
    by (cases y) (auto simp: upper_char_def)
  then have "ToUpper (take j (CHR 0x05 # y)) \<notin> set allMethods" for j y
    using a [of "ToUpper (take j (CHR 0x05 # y))"] by (cases j) auto
  then show ?thesis by (auto simp: http_start_def split: option.splits)
qed

lemma http_validHead_not_start:
  assumes "reader_inv b" and "\<not> http_start (unread b)"
  shows "\<exists>hs' b'. http_validHead hs b = Some (False, hs', b') \<and> (b' = b \<or> b' = b\<lparr>lastByte := -1\<rparr>)"
  using assms Peek_buffered [of 8 b]
  by (auto simp: http_validHead_def http_start_def Let_def split: option.splits)

lemma socks_greeting:
  assumes "reader_inv b" and "unread b = CHR 0x05 # x" and "x \<noteq> []" and "rerr b = None" and "length (rbuf b) = 4096"
  shows "\<exists>b'. socks_validHead b = (True, b') \<and> drained b' \<and> rsrc b' = rsrc b"
proof -
  have l: "2 \<le> Buffered b" using assms(1-3) length_unread_inv [of b] by (cases x) (auto simp: Buffered_def)
  from Peek_buffered [OF this assms(1)] have p: "Peek 2 b = (take 2 (unread b), None, b\<lparr>lastByte := -1\<rparr>)" by simp
  have "2 \<le> length (take 2 (unread b))" "take 2 (unread b) ! 0 = CHR 0x05"
    using assms(2,3) by (cases x; simp)+
  then have "socks_validHead b = (True, snd (UnreadBuf (-1) (b\<lparr>lastByte := -1\<rparr>)))"
    using l p by (simp add: socks_validHead_def)
  then show ?thesis using UnreadBuf_drains [of "b\<lparr>lastByte := -1\<rparr>"] assms(4,5) by simp
qed

text \<open>
  C17: a SOCKS5 client: when the greeting and the request arrive as one segment each, the
  connection is taken for SOCKS5, the method selection is the only thing written, and for
  an IPv4, IPv6 or domain destination and any port the destination is the one encoded; what
  follows the request is still to be read. The version, command and reserved bytes are not
  looked at.
\<close>

theorem ReadRequest_socks5:
  assumes "\<not> tcpcopy_on r" and "g = CHR 0x05 # methods" and "methods \<noteq> []" and "length g \<le> 4096"
    and "length head3 = 3" and "target_ok t"
  shows "\<exists>rq. ReadRequest D r None from (NewRequest ((g, None) # (socks_request head3 t p, None) # nxt))
      = Some (Returns (True, None, rq))
    \<and> rq_Proto rq = ''socks5'' \<and> rq_dst rq = target_dst t p \<and> rq_written rq = socks_selection
    \<and> rsrc (rq_reader rq) = nxt"
proof -
  let ?q = "(socks_request head3 t p, None) # nxt"
  obtain b where b: "Peek 1 (NewReader ((g, None) # ?q)) = ([hd g], None, b)"
    "unread b = g" "rsrc b = ?q" "rerr b = None" "length (rbuf b) = 4096" "reader_inv b"
    using Peek_first [of g ?q] assms(2,4) by auto
  obtain hs c where c: "http_validHead newHTTPStream b = Some (False, hs, c)" "c = b \<or> c = b\<lparr>lastByte := -1\<rparr>"
    using http_validHead_not_start [OF b(6), of newHTTPStream] b(2) greeting_not_http [of methods] assms(2) by auto
  then have "reader_inv c" "unread c = CHR 0x05 # methods" "rerr c = None" "length (rbuf c) = 4096" "rsrc c = ?q"
    using b assms(2) by auto
  then obtain e where e: "socks_validHead c = (True, e)" "drained e" "rsrc e = ?q"
    using socks_greeting [of c methods] assms(3) by auto
  from ParseHeader_round_trip [OF e(2,3) assms(5,6)] obtain b' where
    "ParseHeader None ('''', '''', 0) e = (None, target_dst t p, b')" "rsrc b' = nxt" by blast
  with b(1) c(1) e(1) assms(1) show ?thesis
    by (simp add: ReadRequest_def NewRequest_def socks_stage_def socks_readRequest_def)
qed

theorem ReadRequest_socks5_witness:
  "\<exists>rq. ReadRequest xor_cipher empty_router None ''client''
      (NewRequest [([CHR 0x05, CHR 0x01, CHR 0x00], None),
        (socks_request [CHR 0x05, CHR 0x01, CHR 0x00] (TargetName ''a.b'') 443, None), (''hello'', None)])
      = Some (Returns (True, None, rq)) \<and> rq_dst rq = (''a.b'', '''', 443) \<and> rsrc (rq_reader rq) = [(''hello'', None)]"
proof -
  have "\<not> tcpcopy_on empty_router" by (simp add: tcpcopy_on_def empty_router_def)
  from ReadRequest_socks5 [OF this refl, of "[CHR 0x01, CHR 0x00]" "[CHR 0x05, CHR 0x01, CHR 0x00]" "TargetName ''a.b''"
      xor_cipher "''client''" 443 "[(''hello'', None)]"]
  show ?thesis by fastforce
qed

subsection \<open>The probe of a connection that is kept alive\<close>

lemma buffered_WithBuf: "buffered conn (NewReaderWithBuf conn buf) buf"
  using NewReaderWithBuf_inv [of conn buf]
  by (simp add: buffered_def NewReaderWithBuf_def Reader_reset_def unread_def)

lemma buffered_length: "buffered src b s \<Longrightarrow> Buffered b = length s"
  using length_unread_inv [of b] by (simp add: buffered_def Buffered_def)

lemma delivers_WithBuf: "clean conn \<Longrightarrow> 2 \<le> length buf \<Longrightarrow> delivers (NewReaderWithBuf conn buf) (buf @ conn_bytes conn)"
  using NewReaderWithBuf_inv [of conn buf] pending_NewReaderWithBuf [of conn buf]
  by (simp add: delivers_def live_def roomy_def) (simp add: NewReaderWithBuf_def Reader_reset_def)

text \<open>The request line is in the buffer, so looking at it reads nothing.\<close>

lemma ReadRequest_probe:
  assumes "\<not> tcpcopy_on r" and "buf = m @ '' '' @ uri @ '' '' @ pr @ crlf @ body"
    and "m \<in> set allMethods" and "CHR '' '' \<notin> set uri" and "CHR 0x0A \<notin> set uri"
    and "pr = ''HTTP/1.0'' \<or> pr = ''HTTP/1.1''"
  shows "\<exists>b. buffered conn b body \<and> (clean conn \<longrightarrow> delivers b (body @ conn_bytes conn))
    \<and> ReadRequest D r werr from (NewRequestWithBuf conn buf)
      = http_stage D r from (request_head m uri pr) ((NewRequestWithBuf conn buf)\<lparr>rq_reader := b\<rparr>)"
proof -
  let ?b0 = "NewReaderWithBuf conn buf"
  have "buf \<noteq> []" using assms(2) by simp
  then obtain c s where cs: "buf = c # s" by (cases buf) auto
  have l: "8 \<le> length buf" using assms(2,6) by auto
  let ?b1 = "?b0\<lparr>lastByte := -1\<rparr>"
  have b1: "Peek 1 ?b0 = ([c], None, ?b1)" "buffered conn ?b1 buf"
    using Peek_1_buffered [of conn ?b0 c s] buffered_WithBuf [of conn buf] cs by auto
  have B: "8 \<le> Buffered ?b1" using l buffered_length [OF b1(2)] by simp
  from buffer_head.validHead_request [OF b1(2) [unfolded assms(2)] B [unfolded assms(2)] assms(3-6)]
  obtain b where b: "http_validHead newHTTPStream ?b1 = Some (True, request_head m uri pr, b)" "buffered conn b body"
    using assms(2) by auto
  have "delivers b (body @ conn_bytes conn)" if cl: "clean conn"
  proof -
    have "delivers ?b1 (buf @ conn_bytes conn)" using delivers_WithBuf [OF cl, of buf] l by (simp add: delivers_def)
    then have "delivers ?b1 (m @ '' '' @ uri @ '' '' @ pr @ crlf @ body @ conn_bytes conn)" using assms(2) by simp
    from live_head.validHead_request [OF this B assms(3-6)] b(1) show ?thesis by auto
  qed
  then show ?thesis using b b1(1) assms(1) by (auto simp: ReadRequest_def NewRequestWithBuf_def)
qed

lemma isKeepAliveHttp_stage:
  assumes "ReadRequest D r werr ''client'' (NewRequestWithBuf conn buf)
      = http_stage D r ''client'' hs ((NewRequestWithBuf conn buf)\<lparr>rq_reader := b\<rparr>)"
    and "http_readRequest D r ''client'' hs ('''', 0) b = Some (Returns (ok, err, hs', d, b'))"
  shows "isKeepAliveHttp D r werr conn buf = Some (Returns (True, rsrc b', ''''))"
proof (cases d)
  case (Pair n p)
  with assms http_stage_eq [of D r "''client''" hs "(NewRequestWithBuf conn buf)\<lparr>rq_reader := b\<rparr>" ok err hs' n p b']
  show ?thesis by (simp add: isKeepAliveHttp_def NewRequestWithBuf_def)
qed

lemma probe_whole:
  assumes "\<not> tcpcopy_on r" and "buf = m @ '' '' @ (p @ q) @ '' '' @ pr @ crlf @ header_wire h @ crlf @ body"
    and "m \<in> set allMethods" and "m \<noteq> ''CONNECT''" and "plain_path p" and "plain_query q" and "CHR '' '' \<notin> set q"
    and "pr = ''HTTP/1.0'' \<or> pr = ''HTTP/1.1''"
    and "header_ok h" and "\<forall>(k, vs) \<in> set h. name_ok k"
    and "map wire_value (header_vals h ''Host'') = [hostport n po]" and "plain_name n"
  shows "isKeepAliveHttp D r werr conn buf = Some (Returns (True, conn, ''''))"
proof -
  note ns = plain_no_space [OF assms(5-7)]
  from ReadRequest_probe [OF assms(1-3) _ _ assms(8)] ns obtain b where
    b: "buffered conn b (header_wire h @ crlf @ body)" "ReadRequest D r werr ''client'' (NewRequestWithBuf conn buf)
      = http_stage D r ''client'' (request_head m (p @ q) pr) ((NewRequestWithBuf conn buf)\<lparr>rq_reader := b\<rparr>)" by blast
  from buffer_source.ReadHeader_wire [OF assms(10) b(1)] obtain b1 where
    b1: "ReadHeader b = Some (fold add_field (wire_fields h) [], None, b1)" "buffered conn b1 body" by blast
  have "Header_Get (fold add_field (wire_fields h) []) ''Host'' = hostport n po"
    using header_vals_wire [OF assms(9), of "''Host''"] assms(11) by (simp add: Header_Get_def)
  from readRequest_origin [OF _ _ assms(5,6) b1(1) this assms(12), of "request_head m (p @ q) pr"] assms(4)
  obtain hs b' where "http_readRequest D r ''client'' (request_head m (p @ q) pr) ('''', 0) b
      = Some (Returns (True, None, hs, (n, name_port po), b'))" "rsrc b' = rsrc b1"
    using b1(2) by (fastforce simp: buffered_def)
  from isKeepAliveHttp_stage [OF b(2) this(1)] this(2) b1(2) show ?thesis
    by (simp add: buffered_def)
qed

text \<open>A request for the examples.\<close>

definition demo_request :: string where
  "demo_request = ''GET'' @ '' '' @ (''/a'' @ '''') @ '' '' @ ''HTTP/1.1'' @ crlf @ header_wire [(''Host'', [''h.b:8080''])] @ crlf @ ''''"

lemma demo_request_facts:
  "header_ok [(''Host'', [''h.b:8080''])]" "\<forall>(k, vs) \<in> set [(''Host'', [''h.b:8080''])]. name_ok k"
  "map wire_value (header_vals [(''Host'', [''h.b:8080''])] ''Host'') = [hostport ''h.b'' (Some 8080)]"
  "plain_path ''/a''" "plain_query ''''" "plain_name ''h.b''" "''GET'' \<in> set allMethods" "\<not> tcpcopy_on empty_router"
proof -
  show "header_ok [(''Host'', [''h.b:8080''])]" unfolding header_ok_def by code_simp
  show "\<forall>(k, vs) \<in> set [(''Host'', [''h.b:8080''])]. name_ok k" unfolding name_ok_def by code_simp
  show "map wire_value (header_vals [(''Host'', [''h.b:8080''])] ''Host'') = [hostport ''h.b'' (Some 8080)]"
    unfolding host_port_8080 by code_simp
  show "plain_path ''/a''" "plain_query ''''" "plain_name ''h.b''" "''GET'' \<in> set allMethods"
    unfolding plain_path_def plain_query_def plain_name_def by code_simp+
  show "\<not> tcpcopy_on empty_router" by (simp add: tcpcopy_on_def empty_router_def)
qed

lemma demo_probe: "isKeepAliveHttp xor_cipher empty_router None conn demo_request = Some (Returns (True, conn, ''''))"
  by (rule probe_whole [OF demo_request_facts(8) demo_request_def demo_request_facts(7) _ demo_request_facts(4,5) _ _
        demo_request_facts(1-3,6)]) simp_all

text \<open>
  Keep-alive: when a chunk holds a whole request line and header, the probe says HTTP
  and leaves the connection and the client alone, so that the handler which reads the
  chunk again sees the whole request.
\<close>

theorem probe_whole_header:
  assumes "\<not> tcpcopy_on r" and "buf = m @ '' '' @ (p @ q) @ '' '' @ pr @ crlf @ header_wire h @ crlf @ body"
    and "m \<in> set allMethods" and "m \<noteq> ''CONNECT''" and "plain_path p" and "plain_query q" and "CHR '' '' \<notin> set q"
    and "pr = ''HTTP/1.0'' \<or> pr = ''HTTP/1.1''"
    and "header_ok h" and "\<forall>(k, vs) \<in> set h. name_ok k"
    and "map wire_value (header_vals h ''Host'') = [hostport n po]" and "plain_name n"
  shows "isKeepAliveHttp D r werr conn buf = Some (Returns (True, conn, ''''))
    \<and> pending (rq_reader (NewRequestWithBuf conn buf)) = buf @ conn_bytes conn"
  using probe_whole [OF assms] by (simp add: NewRequestWithBuf_def pending_NewReaderWithBuf)

theorem probe_whole_header_witness:
  "isKeepAliveHttp xor_cipher empty_router None [(''zz'', None)] demo_request = Some (Returns (True, [(''zz'', None)], ''''))"
  using probe_whole_header [OF demo_request_facts(8) demo_request_def demo_request_facts(7) _ demo_request_facts(4,5) _ _
        demo_request_facts(1-3,6)] by simp

text \<open>
  When the chunk ends with the request line and the header is still in the
  connection, the probe takes the header out of the connection and throws it away: what
  the handler reads afterwards is the request line followed by bytes of the body.
\<close>

theorem probe_steals_header:
  assumes "\<not> tcpcopy_on r" and "clean conn" and "buf = m @ '' '' @ (p @ q) @ '' '' @ pr @ crlf"
    and "conn_bytes conn = header_wire h @ crlf @ body"
    and "m \<in> set allMethods" and "m \<noteq> ''CONNECT''" and "plain_path p" and "plain_query q" and "CHR '' '' \<notin> set q"
    and "pr = ''HTTP/1.0'' \<or> pr = ''HTTP/1.1''"
    and "header_ok h" and "\<forall>(k, vs) \<in> set h. name_ok k"
    and "map wire_value (header_vals h ''Host'') = [hostport n po]" and "plain_name n"
  shows "\<exists>conn' x. isKeepAliveHttp D r werr conn buf = Some (Returns (True, conn', ''''))
    \<and> body = x @ conn_bytes conn'
    \<and> pending (rq_reader (NewRequestWithBuf conn' buf)) = buf @ conn_bytes conn'"
proof -
  note ns = plain_no_space [OF assms(7-9)]
  have "buf = m @ '' '' @ (p @ q) @ '' '' @ pr @ crlf @ ''''" using assms(3) by simp
  from ReadRequest_probe [OF assms(1) this assms(5) _ _ assms(10), of conn D werr "''client''"] ns assms(2,4) obtain b where
    b: "delivers b (header_wire h @ crlf @ body)" "ReadRequest D r werr ''client'' (NewRequestWithBuf conn buf)
      = http_stage D r ''client'' (request_head m (p @ q) pr) ((NewRequestWithBuf conn buf)\<lparr>rq_reader := b\<rparr>)" by auto
  from live_source.ReadHeader_wire [OF assms(12) b(1)] obtain b1 where
    b1: "ReadHeader b = Some (fold add_field (wire_fields h) [], None, b1)" "delivers b1 body" by blast
  have "Header_Get (fold add_field (wire_fields h) []) ''Host'' = hostport n po"
    using header_vals_wire [OF assms(11), of "''Host''"] assms(13) by (simp add: Header_Get_def)
  from readRequest_origin [OF _ _ assms(7,8) b1(1) this assms(14), of "request_head m (p @ q) pr"] assms(6)
  obtain hs b' where "http_readRequest D r ''client'' (request_head m (p @ q) pr) ('''', 0) b
      = Some (Returns (True, None, hs, (n, name_port po), b'))" "rsrc b' = rsrc b1"
    using delivers_inv [OF b1(2)] by fastforce
  from isKeepAliveHttp_stage [OF b(2) this(1)] this(2) b1(2)
  have "isKeepAliveHttp D r werr conn buf = Some (Returns (True, rsrc b1, ''''))"
    "body = unread b1 @ conn_bytes (rsrc b1)" by (auto simp: delivers_def pending_def)
  then show ?thesis by (auto simp: NewRequestWithBuf_def pending_NewReaderWithBuf)
qed

theorem probe_steals_header_witness:
  "\<exists>conn'. isKeepAliveHttp xor_cipher empty_router None
      [(header_wire [(''Host'', [''h.b:8080''])] @ crlf, None)] (''GET'' @ '' '' @ (''/a'' @ '''') @ '' '' @ ''HTTP/1.1'' @ crlf)
    = Some (Returns (True, conn', '''')) \<and> conn_bytes conn' = ''''"
proof -
  let ?h = "[(''Host'', [''h.b:8080''])]"
  have c: "clean [(header_wire ?h @ crlf, None)]" by (simp add: clean_def crlf_def)
  have b: "conn_bytes [(header_wire ?h @ crlf, None)] = header_wire ?h @ crlf @ ''''" by (simp add: conn_bytes_def)
  from probe_steals_header [OF demo_request_facts(8) c refl b demo_request_facts(7) _ demo_request_facts(4,5) _ _
      demo_request_facts(1-3,6), of "''HTTP/1.1''" xor_cipher None]
  show ?thesis by auto
qed

text \<open>
  The probe runs in the goroutine that copies from the client, where nothing recovers
  from a panic; a kept-alive client that sends \<open>CONNECT\<close> with an empty address makes it panic.
\<close>

theorem probe_panics:
  assumes "\<not> tcpcopy_on r"
  shows "isKeepAliveHttp D r werr conn (''CONNECT  HTTP/1.1'' @ crlf @ crlf) = Some Panics"
proof -
  let ?hs = "request_head ''CONNECT'' '''' ''HTTP/1.1''"
  let ?buf = "''CONNECT  HTTP/1.1'' @ crlf @ crlf"
  have "?buf = ''CONNECT'' @ '' '' @ '''' @ '' '' @ ''HTTP/1.1'' @ crlf @ (header_wire [] @ crlf @ '''')" by simp
  from ReadRequest_probe [OF assms this, of conn D werr "''client''"] obtain b where
    b: "buffered conn b (header_wire [] @ crlf @ '''')" "ReadRequest D r werr ''client'' (NewRequestWithBuf conn ?buf)
      = http_stage D r ''client'' ?hs ((NewRequestWithBuf conn ?buf)\<lparr>rq_reader := b\<rparr>)"
    by (auto simp: allMethods_def)
  from buffer_source.ReadHeader_wire [OF _ b(1)] obtain b1 where
    "ReadHeader b = Some ([], None, b1)" by auto
  then have "http_readRequest D r ''client'' ?hs ('''', 0) b = Some Panics"
    by (intro readRequest_empty_connect_panics [where h = "[]"]) (simp_all add: Header_Get_def header_vals_def)
  then show ?thesis using b(2) by (simp add: isKeepAliveHttp_def http_stage_def NewRequestWithBuf_def)
qed

theorem probe_panics_witness:
  "isKeepAliveHttp xor_cipher empty_router None [] (''CONNECT  HTTP/1.1'' @ crlf @ crlf) = Some Panics"
  by (rule probe_panics) (simp add: tcpcopy_on_def empty_router_def)

end
