(* ===== verification/Copying.thy ===== *)
theory Copying
  imports Dispatch
begin

section \<open>Copying between client and server\<close>

text \<open>
  The second half of \<open>proto/tunnel.go\<close>: \<open>copyBuffer\<close> and \<open>transfer\<close>. Two goroutines run the
  copying loop, one from the client to the server and one back; they share the state of the
  tunnel without a lock. A step of the model is one iteration of a loop, except where the
  other goroutine can observe a difference: the assignments that follow \<open>CloseWrite\<close> are
  steps of their own. The interleaving is arbitrary, and so is the outcome of every write.
\<close>

subsection \<open>State\<close>

text \<open>
  Where the goroutine of the client is: in its loop, after the \<open>CloseWrite\<close> for a kept
  connection with the chunk it read, after it has set the state to idle, after the
  \<open>CloseWrite\<close> at the end of the client's bytes, or returned.
\<close>

datatype req_pc = RLoop | RKeep string | RIdle string | RClosing | RDone

record xfer =
  x_client :: tcp_reader
  x_server :: tcp_reader
  x_curState :: tun_state
  x_clientUnRead :: int
  x_buf :: string
  x_up :: string
  x_down :: string
  x_inCount :: int
  x_outCount :: int
  x_readSize :: int
  x_writeSize :: int
  x_upClosed :: bool
  x_clientClosed :: bool
  x_kept :: "string option"
  x_reqErr :: "go_err option"
  x_srvErr :: "go_err option"
  x_req :: req_pc
  x_srvDone :: bool
  x_panic :: bool
  x_probeOut :: string

text \<open>The state when both goroutines start; \<open>server\<close> is what the server is going to send.\<close>

definition transfer_start :: "tcp_reader \<Rightarrow> conn_in \<Rightarrow> int \<Rightarrow> xfer" where
  "transfer_start client server clientUnRead =
     \<lparr>x_client = client, x_server = NewReader server, x_curState = StActive, x_clientUnRead = clientUnRead,
      x_buf = '''', x_up = '''', x_down = '''', x_inCount = 0, x_outCount = 0, x_readSize = 0, x_writeSize = 0,
      x_upClosed = False, x_clientClosed = False, x_kept = None, x_reqErr = None, x_srvErr = None,
      x_req = RLoop, x_srvDone = False, x_panic = False, x_probeOut = ''''\<rparr>"

subsection \<open>One chunk\<close>

text \<open>A write says how many bytes it has written and whether it failed.\<close>

type_synonym writer = "nat \<Rightarrow> nat \<times> go_err option"

definition writer_ok :: "writer \<Rightarrow> bool" where
  "writer_ok w \<longleftrightarrow> (\<forall>n. fst (w n) \<le> n)"

definition copy_write :: "writer \<Rightarrow> string \<Rightarrow> string \<times> go_err option" where
  "copy_write w d =
     (let (nw, ew) = w (length d)
      in (take nw d, if ew \<noteq> None then ew else if length d \<noteq> nw then Some ErrShortWrite else None))"

definition copy_size :: nat where "copy_size = 4 * 1024"

text \<open>
  The test on a chunk from the client: \<open>True\<close> when it begins a new HTTP request on a
  connection that is kept alive. The probe may itself take bytes from the connection and
  write to the client.
\<close>

definition request_gate ::
  "block_fun \<Rightarrow> router \<Rightarrow> go_err option \<Rightarrow> string \<Rightarrow> xfer \<Rightarrow> (bool \<times> xfer) run" where
  "request_gate D r werr d x =
     (if x_clientUnRead x \<ge> 0 then
        (if x_clientUnRead x = 0 then
           (case isKeepAliveHttp D r werr (rsrc (x_client x)) d of
              None \<Rightarrow> None
            | Some Panics \<Rightarrow> Some Panics
            | Some (Returns (http, conn, out)) \<Rightarrow>
                let x = x\<lparr>x_client := (x_client x)\<lparr>rsrc := conn\<rparr>, x_probeOut := x_probeOut x @ out\<rparr>
                in Some (Returns (http, if http then x else x\<lparr>x_clientUnRead := -1\<rparr>)))
         else Some (Returns (False, x\<lparr>x_clientUnRead := x_clientUnRead x - int (length d)\<rparr>)))
      else Some (Returns (False, x)))"

definition request_write :: "writer \<Rightarrow> string \<Rightarrow> xfer \<Rightarrow> go_err option \<times> xfer" where
  "request_write w d x =
     (let (out, err) = copy_write w d; n = int (length out)
      in (err, x\<lparr>x_up := x_up x @ out, x_inCount := x_inCount x + n, x_readSize := x_readSize x + n\<rparr>))"

definition server_write :: "writer \<Rightarrow> string \<Rightarrow> xfer \<Rightarrow> go_err option \<times> xfer" where
  "server_write w d x =
     (let (out, err) = copy_write w d; n = int (length out)
      in (err, x\<lparr>x_down := x_down x @ out, x_outCount := x_outCount x + n, x_writeSize := x_writeSize x + n\<rparr>))"

text \<open>The end of an iteration, after the chunk is written: the error of the read.\<close>

definition loop_err :: "go_err option \<Rightarrow> go_err option" where
  "loop_err er = (if er = Some EOF then None else er)"

definition request_end :: "go_err option \<Rightarrow> xfer \<Rightarrow> xfer" where
  "request_end er x =
     (if er = None then x else x\<lparr>x_upClosed := True, x_reqErr := loop_err er, x_req := RClosing\<rparr>)"

text \<open>A read from a connection the process has closed itself fails.\<close>

definition closed_conn :: conn_in where
  "closed_conn = [('''', Some (ErrMsg ''use of closed network connection''))]"

text \<open>
  At the end of the server's bytes the kept connection is handed to \<open>KeepHandler\<close> with the
  saved chunk, and otherwise the client's connection is closed unless it ended first.
\<close>

definition server_end :: "go_err option \<Rightarrow> xfer \<Rightarrow> xfer" where
  "server_end er x =
     (if er = None then x
      else if er \<noteq> Some EOF then x\<lparr>x_srvErr := er, x_srvDone := True\<rparr>
      else if x_curState x = StIdle then x\<lparr>x_kept := Some (x_buf x), x_srvDone := True\<rparr>
      else if x_curState x \<noteq> StClosed then
        x\<lparr>x_client := (x_client x)\<lparr>rsrc := closed_conn\<rparr>, x_clientClosed := True, x_srvDone := True\<rparr>
      else x\<lparr>x_srvDone := True\<rparr>)"

subsection \<open>The loops\<close>

definition request_iter ::
  "block_fun \<Rightarrow> router \<Rightarrow> go_err option \<Rightarrow> writer \<Rightarrow> xfer \<Rightarrow> xfer run" where
  "request_iter D r werr w x =
     (case Reader_Read copy_size (x_client x) of (d, er, b) \<Rightarrow>
        let x = x\<lparr>x_client := b\<rparr>
        in if d = [] then Some (Returns (request_end er x))
           else case request_gate D r werr d x of
               None \<Rightarrow> None
             | Some Panics \<Rightarrow> Some Panics
             | Some (Returns (True, x)) \<Rightarrow> Some (Returns (x\<lparr>x_upClosed := True, x_req := RKeep d\<rparr>))
             | Some (Returns (False, x)) \<Rightarrow>
                 (case request_write w d x of
                    (Some err, x) \<Rightarrow> Some (Returns (x\<lparr>x_reqErr := Some err, x_req := RDone\<rparr>))
                  | (None, x) \<Rightarrow> Some (Returns (request_end er x))))"

definition server_iter :: "writer \<Rightarrow> xfer \<Rightarrow> xfer" where
  "server_iter w x =
     (case Reader_Read copy_size (x_server x) of (d, er, b) \<Rightarrow>
        let x = x\<lparr>x_server := b\<rparr>
        in if d = [] then server_end er x
           else case server_write w d x of
               (Some err, x) \<Rightarrow> x\<lparr>x_srvErr := Some err, x_srvDone := True\<rparr>
             | (None, x) \<Rightarrow> server_end er x)"

text \<open>A step of either goroutine. A panic in the client's goroutine ends the process.\<close>

inductive xfer_step :: "block_fun \<Rightarrow> router \<Rightarrow> xfer \<Rightarrow> xfer \<Rightarrow> bool" for D r where
  client_loop: "\<not> x_panic x \<Longrightarrow> x_req x = RLoop \<Longrightarrow> writer_ok w \<Longrightarrow>
     request_iter D r werr w x = Some (Returns x') \<Longrightarrow> xfer_step D r x x'"
| client_panic: "\<not> x_panic x \<Longrightarrow> x_req x = RLoop \<Longrightarrow>
     request_iter D r werr w x = Some Panics \<Longrightarrow> xfer_step D r x (x\<lparr>x_panic := True\<rparr>)"
| client_keep: "\<not> x_panic x \<Longrightarrow> x_req x = RKeep d \<Longrightarrow>
     xfer_step D r x (x\<lparr>x_curState := StIdle, x_req := RIdle d\<rparr>)"
| client_idle: "\<not> x_panic x \<Longrightarrow> x_req x = RIdle d \<Longrightarrow>
     xfer_step D r x (x\<lparr>x_buf := d, x_req := RDone\<rparr>)"
| client_closing: "\<not> x_panic x \<Longrightarrow> x_req x = RClosing \<Longrightarrow>
     xfer_step D r x (x\<lparr>x_curState := StClosed, x_req := RDone\<rparr>)"
| server_loop: "\<not> x_panic x \<Longrightarrow> \<not> x_srvDone x \<Longrightarrow> writer_ok w \<Longrightarrow> xfer_step D r x (server_iter w x)"

inductive_cases xfer_stepE: "xfer_step D r x x'"

text \<open>\<open>transfer\<close> returns when both loops have ended.\<close>

definition xfer_done :: "xfer \<Rightarrow> bool" where
  "xfer_done x \<longleftrightarrow> x_srvDone x \<and> x_req x = RDone"

inductive xfer_run :: "block_fun \<Rightarrow> router \<Rightarrow> xfer \<Rightarrow> xfer \<Rightarrow> bool" for D r where
  run_refl: "xfer_run D r x x"
| run_step: "xfer_run D r x y \<Longrightarrow> xfer_step D r y z \<Longrightarrow> xfer_run D r x z"

subsection \<open>Reads of the loops\<close>

lemma Reader_Read_drains:
  assumes "reader_inv b" and "length (rbuf b) \<le> n" and "0 < n" and "Reader_Read n b = (d, e, b')"
  shows "unread b' = '''' \<and> length (rbuf b') \<le> n"
proof -
  have l: "length (rbuf b') \<le> n" using Reader_Read_spec [OF assms(1,4)] assms(2) by (simp add: consumes_def)
  have "wpos b - rpos b \<le> n" using assms(1,2) unfolding reader_inv_def by linarith
  then have "unread b' = ''''"
    using assms by (auto simp: Reader_Read_def readErr_def read_copy_def unread_def Let_def reader_inv_def min_absorb2
        split: prod.splits if_splits)
  with l show ?thesis by simp
qed

text \<open>What is left to do on a reader; every read without an error makes it less.\<close>

definition reader_work :: "tcp_reader \<Rightarrow> nat" where
  "reader_work b = Buffered b + sum_list (map (\<lambda>(d, e). Suc (length d)) (rsrc b)) + (if rerr b = None then 0 else 1)"

lemma conn_read_work:
  assumes "conn_read n c = (d, e, c')" and "0 < n" and "c \<noteq> []"
  shows "sum_list (map (\<lambda>(d, e). Suc (length d)) c') + length d + (if length d < n \<or> e \<noteq> None then 1 else 0)
    \<le> sum_list (map (\<lambda>(d, e). Suc (length d)) c)"
  using assms by (cases "(n, c)" rule: conn_read.cases) (auto split: if_splits)

lemma Reader_Read_work:
  assumes "reader_inv b" and "length (rbuf b) \<le> n" and "0 < n" and "Reader_Read n b = (d, None, b')"
  shows "reader_work b' < reader_work b"
proof (cases "rpos b = wpos b")
  case False
  then have "Buffered b' < Buffered b" "rsrc b' = rsrc b" "rerr b' = rerr b"
    using assms by (auto simp: Reader_Read_def read_copy_def Let_def Buffered_def reader_inv_def min_def)
  then show ?thesis by (simp add: reader_work_def)
next
  case True
  then have e: "rerr b = None" using assms(3,4) by (auto simp: Reader_Read_def readErr_def split: if_splits)
  obtain d1 e1 c where r: "conn_read n (rsrc b) = (d1, e1, c)" by (metis prod_cases3)
  then have *: "d = d1" "e1 = None" "rsrc b' = c" "rerr b' = None" "Buffered b' = Buffered b"
    using assms True e by (auto simp: Reader_Read_def readErr_def Let_def Buffered_def split: if_splits)
  have "rsrc b \<noteq> []" using r * by auto
  from conn_read_work [OF r assms(3) this] *(2) have
    "sum_list (map (\<lambda>(d, e). Suc (length d)) c) < sum_list (map (\<lambda>(d, e). Suc (length d)) (rsrc b))"
    using assms(3) by (cases "length d1 < n") auto
  then show ?thesis using * e by (simp add: reader_work_def)
qed

lemma NewReader_work_simps:
  "reader_inv (NewReader c)" "length (rbuf (NewReader c)) = copy_size" "rerr (NewReader c) = None" "rsrc (NewReader c) = c"
  using NewReader_inv [of c]
  by (simp_all add: copy_size_def NewReader_def NewReaderSize_def Reader_reset_def defaultBufSize_def minReadBufferSize_def)

lemma copy_size_pos [simp]: "0 < copy_size" "copy_size \<noteq> 0"
  by (simp_all add: copy_size_def)

lemma consumes_conn:
  assumes "consumes b x b'"
  shows "\<exists>l. conn_bytes (rsrc b) = l @ conn_bytes (rsrc b')"
proof -
  have e: "unread b @ conn_bytes (rsrc b) = (x @ unread b') @ conn_bytes (rsrc b')"
    and l: "length (conn_bytes (rsrc b')) \<le> length (conn_bytes (rsrc b))"
    using assms by (auto simp: consumes_def pending_def)
  have "length (unread b) \<le> length (x @ unread b')"
    using arg_cong [OF e, of length] l by simp
  then show ?thesis using e unfolding append_eq_append_conv_if by auto
qed

lemma isKeepAliveHttp_returns:
  "\<exists>res. isKeepAliveHttp D r werr conn buf = Some res \<and>
    (case res of Panics \<Rightarrow> True | Returns (ok, conn', out) \<Rightarrow> \<exists>l. conn_bytes conn = l @ conn_bytes conn')"
proof (cases "tcpcopy_on r")
  case True
  then show ?thesis
    by (auto simp: isKeepAliveHttp_def ReadRequest_def tcpcopy_readRequest_def NewRequestWithBuf_def
        NewReaderWithBuf_def Reader_reset_def)
next
  case False
  have "reader_inv (rq_reader (NewRequestWithBuf conn buf))"
    by (simp add: NewRequestWithBuf_def NewReaderWithBuf_inv)
  from ReadRequest_cases [OF this False, of D werr "''client''"]
  obtain res where res: "ReadRequest D r werr ''client'' (NewRequestWithBuf conn buf) = Some res"
    "\<And>ok err rq'. res = Returns (ok, err, rq') \<Longrightarrow>
       \<exists>x. consumes (rq_reader (NewRequestWithBuf conn buf)) x (rq_reader rq')" by blast
  have c: "rsrc (NewReaderWithBuf conn buf) = conn" by (simp add: NewReaderWithBuf_def Reader_reset_def)
  show ?thesis
  proof (cases res)
    case (Returns p)
    obtain ok err rq where p: "p = (ok, err, rq)" by (metis prod_cases3)
    obtain x where "consumes (NewReaderWithBuf conn buf) x (rq_reader rq)"
      using res(2) Returns p by (auto simp: NewRequestWithBuf_def)
    then obtain l where "conn_bytes conn = l @ conn_bytes (rsrc (rq_reader rq))"
      using consumes_conn c by metis
    with res(1) Returns p show ?thesis by (simp add: isKeepAliveHttp_def)
  qed (use res(1) in \<open>simp add: isKeepAliveHttp_def\<close>)
qed

subsection \<open>Every run ends\<close>

fun pc_rank :: "req_pc \<Rightarrow> nat" where
  "pc_rank RLoop = 3"
| "pc_rank (RKeep d) = 2"
| "pc_rank (RIdle d) = 1"
| "pc_rank RClosing = 1"
| "pc_rank RDone = 0"

definition xfer_ok :: "xfer \<Rightarrow> bool" where
  "xfer_ok x \<longleftrightarrow> reader_inv (x_client x) \<and> length (rbuf (x_client x)) \<le> copy_size
    \<and> reader_inv (x_server x) \<and> length (rbuf (x_server x)) \<le> copy_size"

definition xfer_measure :: "xfer \<Rightarrow> nat \<times> nat \<times> nat \<times> nat \<times> nat \<times> nat" where
  "xfer_measure x =
     (if x_panic x then 0 else 1, if x_srvDone x then 0 else 1, pc_rank (x_req x),
      if x_clientUnRead x \<ge> 0 then 1 else 0, reader_work (x_client x), reader_work (x_server x))"

definition xfer_order :: "(xfer \<times> xfer) set" where
  "xfer_order = inv_image (less_than <*lex*> less_than <*lex*> less_than <*lex*> less_than <*lex*> less_than <*lex*> less_than) xfer_measure"

lemma wf_xfer_order: "wf xfer_order"
  by (simp add: xfer_order_def wf_inv_image wf_lex_prod)

lemma reader_inv_rsrc [simp]: "reader_inv (b\<lparr>rsrc := c\<rparr>) = reader_inv b"
  by (simp add: reader_inv_def)

lemma copy_read:
  assumes "reader_inv b" and "length (rbuf b) \<le> copy_size" and "Reader_Read copy_size b = (d, e, b')"
  shows "reader_inv b' \<and> length (rbuf b') \<le> copy_size \<and> unread b' = '''' \<and> pending b = d @ pending b'
    \<and> (e = None \<longrightarrow> reader_work b' < reader_work b)"
  using Reader_Read_spec [OF assms(1,3)] Reader_Read_drains [OF assms(1,2) _ assms(3)]
    Reader_Read_work [OF assms(1,2)] assms(3)
  by (auto simp: consumes_def)

lemmas iter_defs = request_gate_def request_write_def server_write_def request_end_def server_end_def copy_write_def

lemma request_gate_spec:
  assumes "request_gate D r werr d x = Some (Returns (http, x'))"
  shows "\<exists>conn out k. x' = x\<lparr>x_client := (x_client x)\<lparr>rsrc := conn\<rparr>, x_clientUnRead := k, x_probeOut := x_probeOut x @ out\<rparr>
    \<and> (http \<longrightarrow> x_clientUnRead x = 0 \<and> k = 0 \<and> isKeepAliveHttp D r werr (rsrc (x_client x)) d = Some (Returns (True, conn, out)))
    \<and> (\<not> http \<longrightarrow> conn = rsrc (x_client x) \<and> out = '''' \<and>
          k = (if x_clientUnRead x \<ge> 0 then x_clientUnRead x - int (length d) else x_clientUnRead x) \<and> x_clientUnRead x \<noteq> 0
        \<or> x_clientUnRead x = 0 \<and> k = -1 \<and> isKeepAliveHttp D r werr (rsrc (x_client x)) d = Some (Returns (False, conn, out)))"
  using assms
  by (cases x) (auto simp: request_gate_def Let_def split: if_splits option.splits outcome.splits)

text \<open>What the test leaves of the state when the chunk is to be written.\<close>

definition gate_pass :: "string \<Rightarrow> conn_in \<Rightarrow> int \<Rightarrow> conn_in \<Rightarrow> int \<Rightarrow> bool" where
  "gate_pass d c n conn k \<longleftrightarrow>
     conn = c \<and> n < 0 \<and> k = n \<or> conn = c \<and> 0 < n \<and> k = n - int (length d)
     \<or> n = 0 \<and> k = -1 \<and> (\<exists>l. conn_bytes c = l @ conn_bytes conn)"

lemma request_gate_pass:
  assumes "request_gate D r werr d x = Some (Returns (False, x'))"
  shows "\<exists>conn out k. x' = x\<lparr>x_client := (x_client x)\<lparr>rsrc := conn\<rparr>, x_clientUnRead := k, x_probeOut := x_probeOut x @ out\<rparr>
    \<and> gate_pass d (rsrc (x_client x)) (x_clientUnRead x) conn k"
proof -
  obtain conn out k where x': "x' = x\<lparr>x_client := (x_client x)\<lparr>rsrc := conn\<rparr>, x_clientUnRead := k, x_probeOut := x_probeOut x @ out\<rparr>"
    and c: "conn = rsrc (x_client x) \<and> out = '''' \<and>
          k = (if x_clientUnRead x \<ge> 0 then x_clientUnRead x - int (length d) else x_clientUnRead x) \<and> x_clientUnRead x \<noteq> 0
        \<or> x_clientUnRead x = 0 \<and> k = -1 \<and> isKeepAliveHttp D r werr (rsrc (x_client x)) d = Some (Returns (False, conn, out))"
    using request_gate_spec [OF assms] by blast
  have "isKeepAliveHttp D r werr (rsrc (x_client x)) d = Some (Returns (False, conn, out)) \<Longrightarrow>
      \<exists>l. conn_bytes (rsrc (x_client x)) = l @ conn_bytes conn"
    using isKeepAliveHttp_returns [of D r werr "rsrc (x_client x)" d] by auto
  with c have "gate_pass d (rsrc (x_client x)) (x_clientUnRead x) conn k" by (auto simp: gate_pass_def split: if_splits)
  with x' show ?thesis by blast
qed

lemma copy_write_spec:
  assumes "copy_write w d = (out, err)"
  shows "\<exists>n. out = take n d \<and> (err = None \<longrightarrow> out = d)"
proof -
  obtain nw ew where "w (length d) = (nw, ew)" by (metis surj_pair)
  with assms have "out = take nw d" "err = None \<longrightarrow> out = d"
    by (auto simp: copy_write_def Let_def split: if_splits)
  then show ?thesis by blast
qed

text \<open>The state after a chunk was written.\<close>

definition written :: "string \<Rightarrow> conn_in \<Rightarrow> int \<Rightarrow> string \<Rightarrow> tcp_reader \<Rightarrow> xfer \<Rightarrow> xfer" where
  "written d conn k out b x = x\<lparr>x_client := b\<lparr>rsrc := conn\<rparr>, x_clientUnRead := k, x_probeOut := x_probeOut x @ out,
     x_up := x_up x @ d, x_inCount := x_inCount x + int (length d), x_readSize := x_readSize x + int (length d)\<rparr>"

lemma request_iterE:
  assumes "request_iter D r werr w x = Some (Returns x')"
  obtains (empty) d er b where "Reader_Read copy_size (x_client x) = (d, er, b)" "d = ''''"
      "x' = request_end er (x\<lparr>x_client := b\<rparr>)"
    | (keep) d er b conn out where "Reader_Read copy_size (x_client x) = (d, er, b)" "d \<noteq> ''''"
      "x_clientUnRead x = 0" "isKeepAliveHttp D r werr (rsrc b) d = Some (Returns (True, conn, out))"
      "x' = x\<lparr>x_client := b\<lparr>rsrc := conn\<rparr>, x_clientUnRead := 0, x_upClosed := True, x_req := RKeep d,
         x_probeOut := x_probeOut x @ out\<rparr>"
    | (fail) d er b conn k out n err where "Reader_Read copy_size (x_client x) = (d, er, b)" "d \<noteq> ''''"
      "gate_pass d (rsrc b) (x_clientUnRead x) conn k"
      "x' = (written (take n d) conn k out b x)\<lparr>x_reqErr := Some err, x_req := RDone\<rparr>"
    | (sent) d er b conn k out where "Reader_Read copy_size (x_client x) = (d, er, b)" "d \<noteq> ''''"
      "gate_pass d (rsrc b) (x_clientUnRead x) conn k"
      "x' = request_end er (written d conn k out b x)"
proof -
  obtain d er b where rd: "Reader_Read copy_size (x_client x) = (d, er, b)" by (metis prod_cases3)
  let ?x = "x\<lparr>x_client := b\<rparr>"
  show thesis
  proof (cases "d = ''''")
    case True
    with rd assms show ?thesis by (intro empty) (auto simp: request_iter_def)
  next
    case False
    with rd assms obtain http y where g: "request_gate D r werr d ?x = Some (Returns (http, y))"
      by (auto simp: request_iter_def split: option.splits outcome.splits)
    show ?thesis
    proof (cases http)
      case True
      obtain conn out k where y: "y = ?x\<lparr>x_client := (x_client ?x)\<lparr>rsrc := conn\<rparr>, x_clientUnRead := k, x_probeOut := x_probeOut ?x @ out\<rparr>"
        "http \<longrightarrow> x_clientUnRead ?x = 0 \<and> k = 0
           \<and> isKeepAliveHttp D r werr (rsrc (x_client ?x)) d = Some (Returns (True, conn, out))"
        using request_gate_spec [OF g] by blast
      have k: "x_clientUnRead x = 0" "isKeepAliveHttp D r werr (rsrc b) d = Some (Returns (True, conn, out))" "k = 0"
        using mp [OF y(2) True] by simp_all
      have "x' = y\<lparr>x_upClosed := True, x_req := RKeep d\<rparr>"
        using rd False assms g True by (simp add: request_iter_def)
      then show ?thesis by (intro keep [OF rd False k(1,2)]) (simp only: y(1) k(3), simp)
    next
      case pass: False
      have g': "request_gate D r werr d ?x = Some (Returns (False, y))" using g pass by simp
      obtain conn out k where "y = ?x\<lparr>x_client := (x_client ?x)\<lparr>rsrc := conn\<rparr>, x_clientUnRead := k, x_probeOut := x_probeOut ?x @ out\<rparr>
        \<and> gate_pass d (rsrc (x_client ?x)) (x_clientUnRead ?x) conn k"
        using request_gate_pass [OF g'] by blast
      then have y: "y = ?x\<lparr>x_client := b\<lparr>rsrc := conn\<rparr>, x_clientUnRead := k, x_probeOut := x_probeOut x @ out\<rparr>"
        "gate_pass d (rsrc b) (x_clientUnRead x) conn k" by simp_all
      obtain o1 err where cw: "copy_write w d = (o1, err)" by (metis surj_pair)
      obtain n where n: "o1 = take n d" "err = None \<longrightarrow> o1 = d" using copy_write_spec [OF cw] by blast
      show ?thesis
      proof (cases err)
        case None
        with n(2) have "copy_write w d = (d, None)" using cw by simp
        with rd False assms g pass y have "x' = request_end er (written d conn k out b x)"
          by (simp add: request_iter_def request_write_def written_def Let_def)
        then show ?thesis by (rule sent [OF rd False y(2)])
      next
        case (Some e)
        with rd False assms g pass y cw n
        have "x' = (written (take n d) conn k out b x)\<lparr>x_reqErr := Some e, x_req := RDone\<rparr>"
          by (simp add: request_iter_def request_write_def written_def Let_def)
        then show ?thesis by (rule fail [OF rd False y(2)])
      qed
    qed
  qed
qed

definition received :: "string \<Rightarrow> tcp_reader \<Rightarrow> xfer \<Rightarrow> xfer" where
  "received d b x = x\<lparr>x_server := b, x_down := x_down x @ d,
     x_outCount := x_outCount x + int (length d), x_writeSize := x_writeSize x + int (length d)\<rparr>"

lemma received_Nil: "received '''' b x = x\<lparr>x_server := b\<rparr>"
  by (cases x) (simp add: received_def)

lemma server_iter_cases:
  assumes "Reader_Read copy_size (x_server x) = (d, e, b)"
  shows "server_iter w x = server_end e (received d b x)
    \<or> (\<exists>n err. server_iter w x = (received (take n d) b x)\<lparr>x_srvErr := Some err, x_srvDone := True\<rparr>)"
proof (cases "d = ''''")
  case True
  with assms show ?thesis by (simp add: server_iter_def received_Nil)
next
  case False
  obtain o1 err where cw: "copy_write w d = (o1, err)" by (metis surj_pair)
  obtain n where n: "o1 = take n d" "err = None \<longrightarrow> o1 = d" using copy_write_spec [OF cw] by blast
  show ?thesis
  proof (cases err)
    case None
    then have "copy_write w d = (d, None)" using cw n(2) by simp
    with assms False show ?thesis by (simp add: server_iter_def server_write_def received_def Let_def)
  next
    case (Some er)
    with assms False cw n(1)
    have "server_iter w x = (received (take n d) b x)\<lparr>x_srvErr := Some er, x_srvDone := True\<rparr>"
      by (simp add: server_iter_def server_write_def received_def Let_def)
    then show ?thesis by blast
  qed
qed

lemma server_end_more: "server_end None x = x"
  by (simp add: server_end_def)

lemma server_end_done: "e \<noteq> None \<Longrightarrow> x_srvDone (server_end e x)"
  by (auto simp: server_end_def)

lemma request_end_more: "request_end None x = x"
  by (simp add: request_end_def)

lemma request_end_done: "e \<noteq> None \<Longrightarrow> x_req (request_end e x) = RClosing"
  by (auto simp: request_end_def)

lemma end_readers [simp]:
  "x_client (request_end e x) = x_client x" "x_server (request_end e x) = x_server x"
  "x_server (server_end e x) = x_server x" "x_panic (server_end e x) = x_panic x"
  "x_panic (request_end e x) = x_panic x" "x_srvDone (request_end e x) = x_srvDone x"
  "x_req (server_end e x) = x_req x" "x_clientUnRead (server_end e x) = x_clientUnRead x"
  "x_clientUnRead (request_end e x) = x_clientUnRead x"
  by (simp_all add: request_end_def server_end_def)

lemma written_simps [simp]:
  "x_client (written d conn k out b x) = b\<lparr>rsrc := conn\<rparr>" "x_server (written d conn k out b x) = x_server x"
  "x_panic (written d conn k out b x) = x_panic x" "x_srvDone (written d conn k out b x) = x_srvDone x"
  "x_req (written d conn k out b x) = x_req x" "x_clientUnRead (written d conn k out b x) = k"
  by (simp_all add: written_def)

lemma received_simps [simp]:
  "x_client (received d b x) = x_client x" "x_server (received d b x) = b"
  "x_panic (received d b x) = x_panic x" "x_srvDone (received d b x) = x_srvDone x"
  "x_req (received d b x) = x_req x" "x_clientUnRead (received d b x) = x_clientUnRead x"
  by (simp_all add: received_def)

lemma server_end_client: "x_client (server_end e x) = x_client x \<or> x_client (server_end e x) = (x_client x)\<lparr>rsrc := closed_conn\<rparr>"
  by (simp add: server_end_def)

lemma xfer_step_ok:
  assumes "xfer_step D r x x'" and "xfer_ok x"
  shows "xfer_ok x'"
  using assms(1)
proof cases
  case (client_loop w werr)
  from client_loop(4) show ?thesis
    by (cases rule: request_iterE) (use assms(2) copy_read in \<open>auto simp: xfer_ok_def\<close>)
next
  case (server_loop w)
  obtain d e b where rd: "Reader_Read copy_size (x_server x) = (d, e, b)" by (metis prod_cases3)
  have b: "reader_inv b \<and> length (rbuf b) \<le> copy_size" using copy_read [OF _ _ rd] assms(2) by (simp add: xfer_ok_def)
  from server_iter_cases [OF rd, of w] show ?thesis
  proof
    assume "server_iter w x = server_end e (received d b x)"
    with b assms(2) server_end_client [of e "received d b x"] server_loop(1) show ?thesis by (auto simp: xfer_ok_def)
  next
    assume "\<exists>n err. server_iter w x = (received (take n d) b x)\<lparr>x_srvErr := Some err, x_srvDone := True\<rparr>"
    with b assms(2) server_loop(1) show ?thesis by (auto simp: xfer_ok_def)
  qed
qed (use assms(2) in \<open>auto simp: xfer_ok_def\<close>)

lemma xfer_step_measure:
  assumes "xfer_step D r x x'" and "xfer_ok x"
  shows "(x', x) \<in> xfer_order"
  using assms(1)
proof cases
  case (client_loop w werr)
  from client_loop(4) show ?thesis
  proof (cases rule: request_iterE)
    case (empty d er b)
    with assms(2) copy_read [OF _ _ empty(1)] client_loop show ?thesis
      by (cases er) (auto simp: xfer_ok_def xfer_order_def xfer_measure_def request_end_more request_end_done)
  next
    case (sent d er b conn k out)
    have "er = None \<Longrightarrow> x_clientUnRead x = 0 \<or> conn = rsrc b" using sent(3) by (auto simp: gate_pass_def)
    with sent assms(2) copy_read [OF _ _ sent(1)] client_loop show ?thesis
      by (cases er) (auto simp: xfer_ok_def xfer_order_def xfer_measure_def request_end_more request_end_done gate_pass_def)
  qed (use client_loop in \<open>auto simp: xfer_order_def xfer_measure_def\<close>)
next
  case (server_loop w)
  obtain d e b where rd: "Reader_Read copy_size (x_server x) = (d, e, b)" by (metis prod_cases3)
  from server_iter_cases [OF rd, of w] show ?thesis
  proof
    assume "server_iter w x = server_end e (received d b x)"
    with copy_read [OF _ _ rd] assms(2) server_loop show ?thesis
      by (cases e) (auto simp: xfer_ok_def xfer_order_def xfer_measure_def server_end_more server_end_done)
  next
    assume "\<exists>n err. server_iter w x = (received (take n d) b x)\<lparr>x_srvErr := Some err, x_srvDone := True\<rparr>"
    with server_loop show ?thesis by (auto simp: xfer_order_def xfer_measure_def)
  qed
qed (auto simp: xfer_order_def xfer_measure_def)

lemma xfer_run_ok: "xfer_run D r x y \<Longrightarrow> xfer_ok x \<Longrightarrow> xfer_ok y"
  by (induction rule: xfer_run.induct) (auto intro: xfer_step_ok)

lemma request_iter_returns: "request_iter D r werr w x \<noteq> None"
proof -
  obtain d er b where rd: "Reader_Read copy_size (x_client x) = (d, er, b)" by (metis prod_cases3)
  have k: "isKeepAliveHttp D r werr c d \<noteq> None" for c
    using isKeepAliveHttp_returns [of D r werr c d] by auto
  have "request_gate D r werr d y \<noteq> None" for y
    using k [of "rsrc (x_client y)"]
    by (auto simp: request_gate_def Let_def split: option.splits outcome.splits)
  then obtain res where "request_gate D r werr d (x\<lparr>x_client := b\<rparr>) = Some res" by fast
  with rd show ?thesis
    by (auto simp: request_iter_def Let_def split: option.splits outcome.splits prod.splits bool.splits)
qed

definition full_writer :: writer where
  "full_writer n = (n, None)"

lemma full_writer_ok [simp]: "writer_ok full_writer"
  by (simp add: writer_ok_def full_writer_def)

lemma xfer_progress:
  assumes "\<not> x_panic x" and "\<not> xfer_done x"
  shows "\<exists>x'. xfer_step D r x x'"
proof (cases "x_srvDone x")
  case False
  then show ?thesis using assms(1) by (auto intro: server_loop full_writer_ok)
next
  case True
  with assms(2) have "x_req x \<noteq> RDone" by (simp add: xfer_done_def)
  then show ?thesis
  proof (cases "x_req x")
    case RLoop
    obtain res where res: "request_iter D r None full_writer x = Some res"
      using request_iter_returns [of D r None full_writer x] by blast
    then show ?thesis using assms(1) RLoop
      by (cases res) (auto intro: client_loop client_panic full_writer_ok)
  qed (use assms(1) in \<open>auto intro: xfer_step.intros\<close>)
qed

end
