(* ===== verification/Nat_Tunnel.thy ===== *)
theory Nat_Tunnel
  imports Nat_Auth Copying
begin

section \<open>A request through the websocket\<close>

text \<open>
  The package \<open>nat\<close>, third part: the bridge (\<open>bridge.go\<close>), the read pumps (\<open>client.go\<close>) and
  \<open>wsTunnel\<close> (\<open>proto/websocket.go\<close>). A request that a client has subscribed to is sent
  through the hub of the server to the client's websocket, where a bridge of the client
  writes it to a local connection; the answer comes back through the client's hub to a
  bridge of the server. The encoding of messages (\<open>encoding/gob\<close>) is a pair of functions.
\<close>

subsection \<open>nat/bridge.go\<close>

definition Bridge_Open :: "64 word \<Rightarrow> message" where
  "Bridge_Open i = \<lparr>msg_ID = i, msg_Method = METHOD_CREATE, msg_Body = ''''\<rparr>"

definition Bridge_Write :: "64 word \<Rightarrow> string \<Rightarrow> message" where
  "Bridge_Write i p = \<lparr>msg_ID = i, msg_Method = '''', msg_Body = p\<rparr>"

definition Bridge_CloseWrite :: "64 word \<Rightarrow> message" where
  "Bridge_CloseWrite i = \<lparr>msg_ID = i, msg_Method = METHOD_CLOSE, msg_Body = ''''\<rparr>"

text \<open>A write to a bridge always succeeds.\<close>

definition bridge_writer :: writer where
  "bridge_writer n = (n, None)"

text \<open>
  \<open>CopyBuffer\<close> from any reader: the chunks written, their total, the error and the reader
  afterwards. It loops until the reader fails or a write does.
\<close>

partial_function (option) CopyBuffer ::
  "(nat \<Rightarrow> 's \<Rightarrow> string \<times> go_err option \<times> 's) \<Rightarrow> writer \<Rightarrow> 's \<Rightarrow> (string list \<times> int \<times> go_err option \<times> 's) option" where
  "CopyBuffer rd w s =
     (case rd copy_size s of (d, er, s) \<Rightarrow>
        let (out, ew) = (if d \<noteq> [] then copy_write w d else ('''', None));
            cs = (if out \<noteq> [] then [out] else []);
            nw = int (length out)
        in if ew \<noteq> None then Some (cs, nw, ew, s)
           else if er \<noteq> None then Some (cs, nw, loop_err er, s)
           else Option.bind (CopyBuffer rd w s) (\<lambda>(cs', n, err, s). Some (cs @ cs', nw + n, err, s)))"

text \<open>
  \<open>WritePump\<close>: the messages received from the channel until it is closed, each with the
  outcome of its write; the bytes that reach the connection, \<open>written\<close> and the error.
\<close>

fun WritePump :: "(string \<times> writer) list \<Rightarrow> string \<times> int \<times> go_err option" where
  "WritePump [] = ('''', 0, None)"
| "WritePump ((message, w) # rest) =
     (case w (length message) of (nw, err) \<Rightarrow>
        if err \<noteq> None then (take nw message, 0, err)
        else case WritePump rest of (out, n, err) \<Rightarrow> (take nw message @ out, int nw + n, err))"

subsection \<open>nat/client.go\<close>

text \<open>
  What a read pump does with a frame from the websocket: an event for its bridge hub, or
  nothing when the frame cannot be decoded, which ends the pump. The server hands every
  message on; the client answers a create message by dialling its own proxy port
  (\<open>dialled\<close> says whether that succeeded) and registering a bridge at the pointer \<open>q\<close>. The
  conversion of the connection to a TCP connection panics when there is none.
\<close>

definition serverReadPump :: "(nat \<Rightarrow> nat) \<Rightarrow> message go_ret \<Rightarrow> bridge_event option" where
  "serverReadPump ord res = (case res of (msg, err) \<Rightarrow> if err \<noteq> None then None else Some (BridgeBroadcast ord msg))"

definition localReadPump :: "nat \<Rightarrow> nat \<Rightarrow> bool \<Rightarrow> (nat \<Rightarrow> nat) \<Rightarrow> message go_ret \<Rightarrow> bridge_event option outcome" where
  "localReadPump c q dialled ord res =
     (case res of (msg, err) \<Rightarrow>
        if err \<noteq> None then Returns None
        else if msg_Method msg = METHOD_CREATE then
          (if \<not> dialled then Panics else Returns (Some (BridgeRegister q c (msg_ID msg))))
        else Returns (Some (BridgeBroadcast ord msg)))"

text \<open>The port \<open>dialProxy\<close> dials is the process's own.\<close>

definition dialProxy_addr :: "settings \<Rightarrow> string" where
  "dialProxy_addr cfg = ''127.0.0.1'' @ '':'' @ Itoa (uint (ListenPort cfg))"

text \<open>
  The events of a bridge hub while its read pump works through the frames of a websocket:
  the pump's own, and those of the other goroutines of the bridges.
\<close>

fun bridge_local :: "bridge_event \<Rightarrow> bool" where
  "bridge_local (BridgeUnregister q) = True"
| "bridge_local (BridgePump q) = True"
| "bridge_local _ = False"

inductive local_run :: "(string \<Rightarrow> message go_ret) \<Rightarrow> nat \<Rightarrow> string list \<Rightarrow> bridge_event list \<Rightarrow> bool" for dec c where
  local_stop: "local_run dec c fs []"
| local_frame: "localReadPump c q dialled ord (dec f) = Returns (Some e) \<Longrightarrow> local_run dec c fs bs \<Longrightarrow>
     local_run dec c (f # fs) (e # bs)"
| local_other: "bridge_local e \<Longrightarrow> local_run dec c fs bs \<Longrightarrow> local_run dec c fs (e # bs)"

text \<open>
  On the server the hub is shared by all websockets; \<open>server_run\<close> is what it sees of one of
  them while the others send nothing with the number \<open>i\<close>.
\<close>

fun bridge_msg :: "bridge_event \<Rightarrow> message list" where
  "bridge_msg (BridgeRegister q c j) = [Bridge_Open j]"
| "bridge_msg (BridgeBroadcast ord m) = [m]"
| "bridge_msg _ = []"

inductive server_run :: "(string \<Rightarrow> message go_ret) \<Rightarrow> 64 word \<Rightarrow> string list \<Rightarrow> bridge_event list \<Rightarrow> bool" for dec i where
  server_stop: "server_run dec i fs []"
| server_frame: "serverReadPump ord (dec f) = Some e \<Longrightarrow> server_run dec i fs bs \<Longrightarrow> server_run dec i (f # fs) (e # bs)"
| server_other: "\<forall>m \<in> set (bridge_msg e). msg_ID m \<noteq> i \<Longrightarrow> server_run dec i fs bs \<Longrightarrow> server_run dec i fs (e # bs)"

subsection \<open>proto/websocket.go\<close>

definition ws_getTarget :: "router \<Rightarrow> string \<Rightarrow> bool" where
  "ws_getTarget r dstName =
     (if dstName = '''' then False
      else let host = findHost r dstName dstName;
               confTarget = getString (h_Target host) (d_Target (r_Default r)) ''auto''
           in if confTarget = ''deny'' then False else True)"

text \<open>The messages a bridge sends for a connection: open, one message for each chunk, close.\<close>

definition session_script :: "64 word \<Rightarrow> string list \<Rightarrow> message list" where
  "session_script i chunks = Bridge_Open i # map (Bridge_Write i) chunks @ [Bridge_CloseWrite i]"

text \<open>
  \<open>transfer\<close>: no client, no transfer (\<open>Some None\<close>); otherwise the messages sent to the client,
  the first write being the buffer with the request line, the header and the body read so far.
\<close>

definition ws_transfer ::
  "(nat \<Rightarrow> nat) \<Rightarrow> header \<Rightarrow> hub \<Rightarrow> 64 word \<Rightarrow> string \<Rightarrow> tcp_reader \<Rightarrow> (nat \<times> message list) option option" where
  "ws_transfer ord hs h i buffer reader =
     (case GetClient ord hs h of
        None \<Rightarrow> Some None
      | Some c \<Rightarrow>
          map_option (\<lambda>(chunks, readSize, err, reader). Some (c, session_script i (buffer # chunks)))
            (CopyBuffer Reader_Read bridge_writer reader))"

subsection \<open>Copying ends\<close>

locale finite_source = byte_source rd content ok
  for rd :: "nat \<Rightarrow> 's \<Rightarrow> string \<times> go_err option \<times> 's" and content :: "'s \<Rightarrow> string" and ok :: "'s \<Rightarrow> bool" +
  fixes work :: "'s \<Rightarrow> nat"
  assumes rd_work: "ok s \<Longrightarrow> rd copy_size s = (d, None, s') \<Longrightarrow> work s' < work s"
begin

text \<open>Copying to a bridge returns, and the chunks are what the reader has delivered.\<close>

lemma CopyBuffer_bridge:
  "ok s \<Longrightarrow> \<exists>cs err s'. CopyBuffer rd bridge_writer s = Some (cs, int (length (concat cs)), err, s')
     \<and> ok s' \<and> content s = concat cs @ content s' \<and> [] \<notin> set cs"
proof (induction s rule: measure_induct_rule [where f = work])
  case (less s)
  obtain d er t where r: "rd copy_size s = (d, er, t)" by (metis prod_cases3)
  have t: "ok t" "content s = d @ content t" using rd_ok rd_content less.prems r by blast+
  show ?case
  proof (cases er)
    case (Some e)
    with r t show ?thesis by (subst CopyBuffer.simps) (simp add: copy_write_def bridge_writer_def)
  next
    case None
    with r rd_work less.prems have "work t < work s" by blast
    from less.IH [OF this t(1)] obtain cs err u where
      "CopyBuffer rd bridge_writer t = Some (cs, int (length (concat cs)), err, u)"
      "ok u" "content t = concat cs @ content u" "[] \<notin> set cs" by blast
    with None r t show ?thesis by (subst CopyBuffer.simps) (auto simp: copy_write_def bridge_writer_def)
  qed
qed

end

definition conn_work :: "conn_in \<Rightarrow> nat" where
  "conn_work c = sum_list (map (\<lambda>(d, e). Suc (length d)) c)"

interpretation conn_copy: finite_source conn_read conn_bytes "\<lambda>_. True" conn_work
proof
  show "conn_work s' < conn_work s" if "conn_read copy_size s = (d, None, s')" for s d s'
  proof -
    have "s \<noteq> []" using that by auto
    from conn_read_work [OF that copy_size_pos(1) this] show ?thesis
      by (cases "length d < copy_size") (auto simp: conn_work_def copy_size_def)
  qed
qed

interpretation reader_copy: finite_source Reader_Read pending "\<lambda>b. reader_inv b \<and> length (rbuf b) \<le> copy_size" reader_work
proof
  show "reader_inv s' \<and> length (rbuf s') \<le> copy_size"
    if "reader_inv s \<and> length (rbuf s) \<le> copy_size" "Reader_Read n s = (d, e, s')" for s n d e s'
    using that Reader_Read_spec [of s n d e s'] by (auto simp: consumes_def)
  show "length d \<le> n" if "reader_inv s \<and> length (rbuf s) \<le> copy_size" "Reader_Read n s = (d, e, s')" for s n d e s'
    using reader_source.rd_length that by blast
  show "pending s = d @ pending s'" if "reader_inv s \<and> length (rbuf s) \<le> copy_size" "Reader_Read n s = (d, e, s')" for s n d e s'
    using reader_source.rd_content that by blast
  show "reader_work s' < reader_work s"
    if "reader_inv s \<and> length (rbuf s) \<le> copy_size" "Reader_Read copy_size s = (d, None, s')" for s d s'
    using Reader_Read_work [of s copy_size d s'] that by simp
qed

subsection \<open>From the events of a bridge hub to messages\<close>

definition msgs_for :: "64 word \<Rightarrow> bridge_event list \<Rightarrow> message list" where
  "msgs_for i bs = filter (\<lambda>m. msg_ID m = i) (concat (map bridge_msg bs))"

definition bodies :: "64 word \<Rightarrow> bridge_event list \<Rightarrow> string list" where
  "bodies i bs = map msg_Body (filter (\<lambda>m. msg_Method m \<noteq> METHOD_CLOSE) (msgs_for i bs))"

lemma msgs_for_simps [simp]:
  "msgs_for i [] = []"
  "msgs_for i (e # bs) = filter (\<lambda>m. msg_ID m = i) (bridge_msg e) @ msgs_for i bs"
  "msgs_for i (bs @ bs') = msgs_for i bs @ msgs_for i bs'"
  by (simp_all add: msgs_for_def)

lemma bodies_simps [simp]:
  "bodies i [] = []"
  "bodies i (e # bs) = map msg_Body (filter (\<lambda>m. msg_Method m \<noteq> METHOD_CLOSE \<and> msg_ID m = i) (bridge_msg e)) @ bodies i bs"
  by (simp_all add: bodies_def conj_commute)

text \<open>A create message is acted on without its body.\<close>

definition plain_msg :: "message \<Rightarrow> message" where
  "plain_msg m = (if msg_Method m = METHOD_CREATE then Bridge_Open (msg_ID m) else m)"

lemma msg_simps [simp]:
  "msg_ID (Bridge_Open i) = i" "msg_ID (Bridge_Write i p) = i" "msg_ID (Bridge_CloseWrite i) = i"
  "msg_Method (Bridge_Open i) = METHOD_CREATE" "msg_Method (Bridge_Write i p) = ''''"
  "msg_Method (Bridge_CloseWrite i) = METHOD_CLOSE" "msg_Body (Bridge_Write i p) = p"
  "METHOD_CREATE \<noteq> METHOD_CLOSE" "METHOD_CLOSE \<noteq> METHOD_CREATE" "METHOD_CREATE \<noteq> ''''" "METHOD_CLOSE \<noteq> ''''"
  "'''' \<noteq> METHOD_CREATE" "'''' \<noteq> METHOD_CLOSE"
  by (simp_all add: Bridge_Open_def Bridge_Write_def Bridge_CloseWrite_def METHOD_CREATE_def METHOD_CLOSE_def)

lemma plain_msg_simps [simp]:
  "msg_ID (plain_msg m) = msg_ID m"
  "plain_msg (Bridge_Open i) = Bridge_Open i" "plain_msg (Bridge_Write i p) = Bridge_Write i p"
  "plain_msg (Bridge_CloseWrite i) = Bridge_CloseWrite i"
  by (simp_all add: plain_msg_def)

lemma local_run_msgs:
  assumes "local_run dec c fs bs" and "\<forall>m. dec (enc m) = (m, None)" and "fs = map enc ms"
  shows "prefix (concat (map bridge_msg bs)) (map plain_msg ms)"
  using assms
proof (induction arbitrary: ms rule: local_run.induct)
  case (local_frame q dialled ord f e fs bs)
  then obtain m ms' where "ms = m # ms'" "f = enc m" "fs = map enc ms'" by (cases ms) auto
  with local_frame show ?case
    by (auto simp: localReadPump_def plain_msg_def split: if_splits)
next
  case (local_other e fs bs)
  then show ?case by (cases e) auto
qed simp

lemma server_run_msgs:
  assumes "server_run dec i fs bs" and "\<forall>m. dec (enc m) = (m, None)" and "fs = map enc ms"
  shows "prefix (msgs_for i bs) (filter (\<lambda>m. msg_ID m = i) ms)"
  using assms
proof (induction arbitrary: ms rule: server_run.induct)
  case (server_frame ord f e fs bs)
  then obtain m ms' where "ms = m # ms'" "f = enc m" "fs = map enc ms'" by (cases ms) auto
  with server_frame show ?case
    by (auto simp: serverReadPump_def split: if_splits)
qed (auto simp: filter_empty_conv)

lemma bridge_reqID_step:
  assumes "bridges_live s" and "bridge_run e s = Returns t" and "bridge_joins e \<noteq> Some q"
  shows "br_reqID (bh_heap t q) = br_reqID (bh_heap s q)"
proof (cases e)
  case (BridgeRegister p c i)
  with assms show ?thesis by (auto simp: bridge_register_def)
next
  case (BridgeUnregister p)
  with assms have "bridge_unregister p s = Returns t" by simp
  from assms(1) this show ?thesis by (cases rule: bridge_unregister_cases) auto
next
  case (BridgeBroadcast ord m)
  with assms have "bridge_broadcast ord m s = Returns t" by simp
  from assms(1) this show ?thesis by (cases rule: bridge_broadcast_cases) auto
next
  case (BridgePump p)
  with assms show ?thesis by (auto simp: bridge_pump_eq split: list.splits)
qed

lemma bridge_offers_none:
  "bridges_live s \<Longrightarrow> bridges.run_allowed bs s \<Longrightarrow> \<forall>e \<in> set bs. bridge_joins e \<noteq> Some q \<Longrightarrow> q \<notin> set (bh_bridges s) \<Longrightarrow>
     log_of bridge_run (bridge_offers q) bs s = []"
proof (induction bs arbitrary: s)
  case (Cons e bs)
  obtain t where t: "bridge_run e s = Returns t"
    using bridge_step_live [of s e] Cons.prems(1) by (auto simp: bridges_live_def)
  have "bridges_live t" "bridges.run_allowed bs t"
    using bridge_step_consistent [OF Cons.prems(1) _ t] Cons.prems(2) t by auto
  moreover have "q \<notin> set (bh_bridges t)" using bridge_step_gone [OF Cons.prems(1) t] Cons.prems(3,4) by simp
  moreover have "bridge_offers q e s = []" using Cons.prems(4) by (cases e) auto
  ultimately show ?case using Cons.IH Cons.prems(3) t by simp
qed simp

text \<open>What is addressed to a bridge while it is registered: the bodies with its number.\<close>

lemma bridge_offers_bodies:
  assumes "bridges_live s" and "bridges.run_allowed bs s" and "exec bridge_run bs s = Returns s'"
    and "\<forall>e \<in> set bs. bridge_joins e \<noteq> Some q" and "q \<in> set (bh_bridges s)" and "br_reqID (bh_heap s q) = i"
  shows "prefix (log_of bridge_run (bridge_offers q) bs s) (bodies i bs)
    \<and> (q \<in> set (bh_bridges s') \<longrightarrow> log_of bridge_run (bridge_offers q) bs s = bodies i bs)"
  using assms
proof (induction bs arbitrary: s)
  case (Cons e bs)
  obtain t where t: "bridge_run e s = Returns t"
    using bridge_step_live [of s e] Cons.prems(1) by (auto simp: bridges_live_def)
  have c: "bridges_live t" "bridges.run_allowed bs t" "bridge_allowed e s"
    using bridge_step_consistent [OF Cons.prems(1) _ t] Cons.prems(2) t by auto
  have i: "br_reqID (bh_heap t q) = i" using bridge_reqID_step [OF Cons.prems(1) t, of q] Cons.prems(4,6) by simp
  have x: "exec bridge_run bs t = Returns s'" using Cons.prems(3) t by simp
  have j: "\<forall>e \<in> set bs. bridge_joins e \<noteq> Some q" using Cons.prems(4) by simp
  have o: "bridge_offers q e s = map msg_Body (filter (\<lambda>m. msg_Method m \<noteq> METHOD_CLOSE \<and> msg_ID m = i) (bridge_msg e))"
    using c(3) Cons.prems(4,5,6) by (cases e) auto
  show ?case
  proof (cases "q \<in> set (bh_bridges t)")
    case True
    from Cons.IH [OF c(1,2) x j True i] t o show ?thesis by simp
  next
    case False
    have "q \<notin> set (bh_bridges s')" using bridges.gone_queue [OF c(1,2) x j False] by simp
    with bridge_offers_none [OF c(1,2) j False] t o show ?thesis by simp
  qed
qed simp

lemma exec_append: "exec f (xs @ ys) s = (case exec f xs s of Panics \<Rightarrow> Panics | Returns t \<Rightarrow> exec f ys t)"
  by (induction xs arbitrary: s) (auto split: outcome.splits)

lemma run_allowed_append:
  "bridges.run_allowed (xs @ ys) s \<longleftrightarrow>
     bridges.run_allowed xs s \<and> (\<forall>t. exec bridge_run xs s = Returns t \<longrightarrow> bridges.run_allowed ys t)"
  by (induction xs arbitrary: s) (auto split: outcome.splits)

lemma bridges_live_run:
  "bridges_live s \<Longrightarrow> bridges.run_allowed es s \<Longrightarrow> exec bridge_run es s = Returns s' \<Longrightarrow> bridges_live s'"
proof (induction es arbitrary: s)
  case (Cons e es)
  obtain t where t: "bridge_run e s = Returns t"
    using bridge_step_live [of s e] Cons.prems(1) by (auto simp: bridges_live_def)
  with bridge_step_consistent [OF Cons.prems(1) _ t] Cons show ?case by auto
qed simp

text \<open>A bridge receives a prefix of the bodies that arrive for it after it is registered.\<close>

lemma bridge_delivery:
  assumes "bridges_live lh" and "bridges.run_allowed (b1 @ BridgeRegister q c i # b2) lh"
    and "exec bridge_run (b1 @ [BridgeRegister q c i]) lh = Returns lh1" and "exec bridge_run b2 lh1 = Returns lh2"
    and "\<forall>e \<in> set b2. bridge_joins e \<noteq> Some q"
  shows "prefix (log_of bridge_run (bridge_takes q) b2 lh1) (bodies i b2)
    \<and> (q \<in> set (bh_bridges lh2) \<longrightarrow> log_of bridge_run (bridge_takes q) b2 lh1 @ ch_buf (bridge_send lh2 q) = bodies i b2)"
proof -
  have a: "bridges.run_allowed (b1 @ [BridgeRegister q c i]) lh" "bridges.run_allowed b2 lh1"
    using assms(2,3) by (auto simp: run_allowed_append exec_append split: outcome.splits)
  have l: "bridges_live lh1" by (rule bridges_live_run [OF assms(1) a(1) assms(3)])
  obtain lh0 where "exec bridge_run b1 lh = Returns lh0" "lh1 = bridge_register q c i lh0"
    using assms(3) by (auto simp: exec_append split: outcome.splits)
  then have q: "q \<in> set (bh_bridges lh1)" "br_reqID (bh_heap lh1 q) = i" "ch_buf (bridge_send lh1 q) = []"
    by (simp_all add: bridge_register_def bridge_send_def make_chan_def)
  note o = bridge_offers_bodies [OF l a(2) assms(4,5) q(1,2)]
  note r = bridges.queue_run [OF l a(2) assms(4,5) q(1), unfolded q(3) append_Nil]
  from r have "prefix (log_of bridge_run (bridge_takes q) b2 lh1) (log_of bridge_run (bridge_offers q) b2 lh1)"
    by (meson append_prefixD)
  with o have "prefix (log_of bridge_run (bridge_takes q) b2 lh1) (bodies i b2)" by (meson prefix_order.order_trans)
  with o r show ?thesis by simp
qed

text \<open>Of the messages of one session, those after the create message carry its chunks.\<close>

lemma session_bodies:
  assumes "prefix (msgs_for i (b1 @ BridgeRegister q c i # b2)) (session_script i chunks)"
  shows "msgs_for i b1 = [] \<and> prefix (msgs_for i b2) (map (Bridge_Write i) chunks @ [Bridge_CloseWrite i])
    \<and> prefix (bodies i b2) chunks"
proof -
  have n: "Bridge_Open i \<notin> set (map (Bridge_Write i) chunks @ [Bridge_CloseWrite i])"
    by (auto dest: arg_cong [where f = msg_Method])
  have p: "prefix (msgs_for i b1 @ Bridge_Open i # msgs_for i b2) (Bridge_Open i # map (Bridge_Write i) chunks @ [Bridge_CloseWrite i])"
    using assms by (simp add: session_script_def)
  have e: "msgs_for i b1 = []"
  proof (cases "msgs_for i b1")
    case (Cons m ms)
    with p have "prefix (ms @ Bridge_Open i # msgs_for i b2) (map (Bridge_Write i) chunks @ [Bridge_CloseWrite i])"
      by (simp only: append_Cons Cons_prefix_Cons)
    from set_mono_prefix [OF this] have "Bridge_Open i \<in> set (map (Bridge_Write i) chunks @ [Bridge_CloseWrite i])"
      by (metis (no_types, lifting) in_set_conv_decomp subsetD)
    with n show ?thesis by simp
  qed simp
  with p have p2: "prefix (msgs_for i b2) (map (Bridge_Write i) chunks @ [Bridge_CloseWrite i])" by simp
  have "map msg_Body (filter (\<lambda>m. msg_Method m \<noteq> METHOD_CLOSE) (map (Bridge_Write i) chunks @ [Bridge_CloseWrite i])) = chunks"
    by (induction chunks) simp_all
  with map_mono_prefix [OF filter_mono_prefix [OF p2, of "\<lambda>m. msg_Method m \<noteq> METHOD_CLOSE"], of msg_Body] e p2
  show ?thesis by (simp add: bodies_def)
qed

lemma prefix_concat: "prefix xs ys \<Longrightarrow> prefix (concat xs) (concat ys)"
  by (auto simp: prefix_def)

text \<open>A write without an error has written everything, the contract of \<open>io.Writer\<close>.\<close>

definition full_writes :: "writer \<Rightarrow> bool" where
  "full_writes w \<longleftrightarrow> (\<forall>n. snd (w n) = None \<longrightarrow> fst (w n) = n)"

lemma WritePump_prefix:
  assumes "\<forall>(m, w) \<in> set ms. full_writes w"
  shows "prefix (fst (WritePump ms)) (concat (map fst ms))
    \<and> (snd (snd (WritePump ms)) = None \<longrightarrow> fst (WritePump ms) = concat (map fst ms)
        \<and> fst (snd (WritePump ms)) = int (length (concat (map fst ms))))"
  using assms
proof (induction ms)
  case (Cons p ms)
  obtain m w where p: "p = (m, w)" by (cases p)
  obtain nw err where w: "w (length m) = (nw, err)" by (cases "w (length m)")
  obtain out n err2 where r: "WritePump ms = (out, n, err2)" by (metis prod_cases3)
  have f: "err = None \<Longrightarrow> nw = length m" using Cons.prems p w by (auto simp: full_writes_def dest: spec [of _ "length m"])
  show ?case
  proof (cases err)
    case None
    with Cons r p w f show ?thesis by auto
  next
    case (Some e)
    have "prefix (take nw m) (m @ concat (map fst ms))" by (simp add: take_is_prefix prefix_prefix)
    with Some p w show ?thesis by simp
  qed
qed simp

text \<open>What the hub hands to one client's websocket, seen for one session.\<close>

lemma hub_session:
  assumes "hub_live h" and "exec hub_run es h = Returns h'" and "\<forall>e \<in> set es. hub_joins e \<noteq> Some c"
    and "c \<in> set (hub_clients h)" and "filter (\<lambda>m. msg_ID m = i) (ch_buf (hub_send h c)) = []"
  shows "prefix (filter (\<lambda>m. msg_ID m = i) (log_of hub_run (hub_takes c) es h))
    (filter (\<lambda>m. msg_ID m = i) (log_of hub_run (hub_offers c) es h))"
proof -
  have a: "client_hub.run_allowed es s" for s by (induction es arbitrary: s) auto
  from client_hub.queue_run [OF assms(1) a assms(2-4)]
  have "prefix (log_of hub_run (hub_takes c) es h) (ch_buf (hub_send h c) @ log_of hub_run (hub_offers c) es h)"
    by (meson append_prefixD)
  from filter_mono_prefix [OF this, where P = "\<lambda>m. msg_ID m = i"] assms(5) show ?thesis by simp
qed

lemma close_ends_script:
  assumes "prefix (xs @ Bridge_CloseWrite i # ys) (map (Bridge_Write i) chunks @ [Bridge_CloseWrite i])"
    and "xs = msgs_for i b3"
  shows "bodies i b3 = chunks"
proof -
  obtain zs where z: "xs @ Bridge_CloseWrite i # ys @ zs = map (Bridge_Write i) chunks @ [Bridge_CloseWrite i]"
    using assms(1) by (auto simp: prefix_def)
  have n: "Bridge_CloseWrite i \<notin> set (map (Bridge_Write i) chunks)"
    by (auto dest: arg_cong [where f = msg_Method])
  have "Bridge_CloseWrite i \<notin> set xs"
  proof
    assume "Bridge_CloseWrite i \<in> set xs"
    then have "Bridge_CloseWrite i \<in> set (butlast (xs @ Bridge_CloseWrite i # ys @ zs))" by (simp add: butlast_append)
    with n show False unfolding z by simp
  qed
  with n z have "xs = map (Bridge_Write i) chunks" by (metis first_split_unique)
  then show ?thesis unfolding bodies_def assms(2) [symmetric] by (induction chunks arbitrary: xs) simp_all
qed

text \<open>The messages of one session that the client's bridge hub sees.\<close>

lemma session_arrives:
  assumes "\<forall>m. dec (enc m) = (m, None)"
    and "hub_live h" and "exec hub_run es h = Returns h'" and "\<forall>e \<in> set es. hub_joins e \<noteq> Some c"
    and "c \<in> set (hub_clients h)" and "filter (\<lambda>m. msg_ID m = i) (ch_buf (hub_send h c)) = []"
    and "prefix (filter (\<lambda>m. msg_ID m = i) (log_of hub_run (hub_offers c) es h)) (session_script i chunks)"
    and "prefix frames (map enc (log_of hub_run (hub_takes c) es h))" and "local_run dec c frames bs"
  shows "prefix (msgs_for i bs) (session_script i chunks)"
proof -
  have id: "map plain_msg (session_script i chunks) = session_script i chunks"
    by (simp add: session_script_def)
  have t: "prefix (filter (\<lambda>m. msg_ID m = i) (log_of hub_run (hub_takes c) es h)) (session_script i chunks)"
    using prefix_order.order_trans [OF hub_session [OF assms(2-6)] assms(7)] .
  obtain k where k: "frames = map enc (take k (log_of hub_run (hub_takes c) es h))"
    using assms(8) by (metis prefix_def append_eq_map_conv append_eq_conv_conj)
  have "prefix (concat (map bridge_msg bs)) (map plain_msg (log_of hub_run (hub_takes c) es h))"
    using local_run_msgs [OF assms(9,1) k] take_is_prefix [of k] map_mono_prefix prefix_order.order_trans by blast
  from filter_mono_prefix [OF this, where P = "\<lambda>m. msg_ID m = i"]
  have "prefix (msgs_for i bs) (map plain_msg (filter (\<lambda>m. msg_ID m = i) (log_of hub_run (hub_takes c) es h)))"
    by (simp add: msgs_for_def filter_map comp_def)
  then show ?thesis
    using map_mono_prefix [OF t, of plain_msg] unfolding id by (meson prefix_order.order_trans)
qed

lemma ws_transfer_script:
  assumes "ws_transfer ord hs h i head b = Some (Some (c, script))"
  shows "\<exists>cs n err b'. CopyBuffer Reader_Read bridge_writer b = Some (cs, n, err, b')
    \<and> c \<in> set (hub_clients h) \<and> script = session_script i (head # cs)"
  using assms unfolding ws_transfer_def GetClient_def
  by (auto simp: find_Some_iff split: option.splits) (metis map_range_simps(1) nth_mem)

lemma CopyBuffer_reader:
  assumes "reader_inv b" and "length (rbuf b) \<le> copy_size" and "CopyBuffer Reader_Read bridge_writer b = Some (cs, n, err, b')"
  shows "pending b = concat cs @ pending b'"
  using reader_copy.CopyBuffer_bridge [of b] assms by auto

text \<open>
  Through the websocket the connection of a subscribed client receives, in order and
  without a gap, a prefix of the request: the saved head and what the reader has to deliver.
  This holds whatever the other sessions of the same websocket send, however the goroutines
  are interleaved, whether or not a queue runs full, a bridge is unregistered or the
  websocket breaks.
\<close>

theorem websocket_request_prefix:
  assumes "\<forall>m. dec (enc m) = (m, None)" and "reader_inv b" and "length (rbuf b) \<le> copy_size"
    and "ws_transfer ord hs h i head b = Some (Some (c, script))"
    and "hub_live h" and "exec hub_run es h = Returns h'" and "\<forall>e \<in> set es. hub_joins e \<noteq> Some c"
    and "filter (\<lambda>m. msg_ID m = i) (ch_buf (hub_send h c)) = []"
    and "prefix (filter (\<lambda>m. msg_ID m = i) (log_of hub_run (hub_offers c) es h)) script"
    and "prefix frames (map enc (log_of hub_run (hub_takes c) es h))"
    and "local_run dec c frames (b1 @ BridgeRegister q c i # b2)"
    and "bridges_live lh" and "bridges.run_allowed (b1 @ BridgeRegister q c i # b2) lh"
    and "exec bridge_run (b1 @ [BridgeRegister q c i]) lh = Returns lh1" and "exec bridge_run b2 lh1 = Returns lh2"
    and "\<forall>e \<in> set b2. bridge_joins e \<noteq> Some q"
    and "prefix (map fst ms) (log_of bridge_run (bridge_takes q) b2 lh1)" and "\<forall>(m, w) \<in> set ms. full_writes w"
  shows "prefix (fst (WritePump ms)) (head @ pending b)"
proof -
  obtain cs n err b' where s: "CopyBuffer Reader_Read bridge_writer b = Some (cs, n, err, b')"
    "c \<in> set (hub_clients h)" "script = session_script i (head # cs)"
    using ws_transfer_script [OF assms(4)] by blast
  note p = CopyBuffer_reader [OF assms(2,3) s(1)]
  from session_bodies [OF session_arrives [OF assms(1,5-7) s(2) assms(8) assms(9) [unfolded s(3)] assms(10,11)]]
  have "prefix (bodies i b2) (head # cs)" by simp
  with bridge_delivery [OF assms(12-16)] assms(17) have "prefix (map fst ms) (head # cs)"
    by (meson prefix_order.order_trans)
  from prefix_concat [OF this] WritePump_prefix [OF assms(18)] p show ?thesis
    by (metis (no_types, lifting) append.assoc concat.simps(2) prefix_order.order_trans prefix_def)
qed

text \<open>
  C11: When the close message of a session reaches a bridge that is still registered, the
  bridge has received the whole request, and once its queue is empty and no write has failed
  the connection has received it.
\<close>

theorem websocket_request_complete:
  assumes "\<forall>m. dec (enc m) = (m, None)"
    and "ws_transfer ord hs h i head b = Some (Some (c, script))"
    and "hub_live h" and "exec hub_run es h = Returns h'" and "\<forall>e \<in> set es. hub_joins e \<noteq> Some c"
    and "filter (\<lambda>m. msg_ID m = i) (ch_buf (hub_send h c)) = []"
    and "prefix (filter (\<lambda>m. msg_ID m = i) (log_of hub_run (hub_offers c) es h)) script"
    and "prefix frames (map enc (log_of hub_run (hub_takes c) es h))"
    and "local_run dec c frames (b1 @ BridgeRegister q c i # b2)"
    and "bridges_live lh" and "bridges.run_allowed (b1 @ BridgeRegister q c i # b2) lh"
    and "exec bridge_run (b1 @ [BridgeRegister q c i]) lh = Returns lh1"
    and "b2 = b3 @ BridgeBroadcast ord2 (Bridge_CloseWrite i) # b4"
    and "exec bridge_run b3 lh1 = Returns lh2" and "q \<in> set (bh_bridges lh2)"
    and "\<forall>e \<in> set b3. bridge_joins e \<noteq> Some q"
    and "map fst ms = log_of bridge_run (bridge_takes q) b3 lh1 @ ch_buf (bridge_send lh2 q)"
    and "\<forall>(m, w) \<in> set ms. full_writes w" and "snd (snd (WritePump ms)) = None"
  shows "\<exists>cs n err b'. CopyBuffer Reader_Read bridge_writer b = Some (cs, n, err, b') \<and> fst (WritePump ms) = head @ concat cs"
proof -
  obtain cs n err b' where s: "CopyBuffer Reader_Read bridge_writer b = Some (cs, n, err, b')"
    "c \<in> set (hub_clients h)" "script = session_script i (head # cs)"
    using ws_transfer_script [OF assms(2)] by blast
  from session_bodies [OF session_arrives [OF assms(1,3-5) s(2) assms(6) assms(7) [unfolded s(3)] assms(8,9)]]
  have p: "prefix (msgs_for i b3 @ Bridge_CloseWrite i # msgs_for i b4)
      (map (Bridge_Write i) (head # cs) @ [Bridge_CloseWrite i])"
    unfolding assms(13) by simp
  from close_ends_script [OF this refl] have "bodies i b3 = head # cs" .
  moreover have "bridges.run_allowed (b1 @ BridgeRegister q c i # b3) lh"
    using assms(11) unfolding assms(13) by (auto simp: run_allowed_append)
  ultimately have "map fst ms = head # cs"
    using bridge_delivery [OF assms(10) _ assms(12,14,16)] assms(15,17) by simp
  with WritePump_prefix [OF assms(18)] assms(19) s(1) show ?thesis by auto
qed

text \<open>
  The way back: what the client's goroutine reads from its local connection reaches the
  connection of the request as a prefix.
\<close>

lemma answer_bodies:
  assumes "prefix ms (map (Bridge_Write i) chunks @ [Bridge_CloseWrite i])"
  shows "prefix (map msg_Body (filter (\<lambda>m. msg_Method m \<noteq> METHOD_CLOSE) ms)) chunks"
proof -
  have "map msg_Body (filter (\<lambda>m. msg_Method m \<noteq> METHOD_CLOSE) (map (Bridge_Write i) chunks @ [Bridge_CloseWrite i])) = chunks"
    by (induction chunks) simp_all
  with map_mono_prefix [OF filter_mono_prefix [OF assms, where P = "\<lambda>m. msg_Method m \<noteq> METHOD_CLOSE"], of msg_Body]
  show ?thesis by simp
qed


text \<open>
  The server does not ask which websocket a message comes from: any client that sends the
  number of a request puts bytes into the answer of that request.
\<close>

lemma foreign_client_injects:
  assumes "bridges_live h" and "q \<in> set (bh_bridges h)" and "br_reqID (bh_heap h q) = i"
    and "length (ch_buf (bridge_send h q)) < ch_cap (bridge_send h q)" and "dec f = (Bridge_Write i x, None)"
  shows "\<exists>e h'. serverReadPump ord (dec f) = Some e \<and> bridge_run e h = Returns h'
    \<and> ch_buf (bridge_send h' q) = ch_buf (bridge_send h q) @ [x]"
  using assms bridge_broadcast_eq [OF assms(1,2), of "Bridge_Write i x" ord] by (simp add: serverReadPump_def)

text \<open>
  When the websocket of a request's client is lost, no close message comes any more, and then
  nothing closes the bridge: its \<open>WritePump\<close>, and with it the request, waits for ever.
\<close>

lemma lost_client_hangs:
  assumes "bridges_live h" and "bridges.run_allowed bs h" and "exec bridge_run bs h = Returns h'"
    and "\<forall>e \<in> set bs. bridge_joins e \<noteq> Some q \<and> e \<noteq> BridgeUnregister q" and "msgs_for (br_reqID (bh_heap h q)) bs = []"
    and "q \<in> set (bh_bridges h)"
  shows "q \<in> set (bh_bridges h') \<and> \<not> ch_closed (bridge_send h' q)"
  using assms
proof (induction bs arbitrary: h)
  case Nil
  then show ?case by (simp add: bridges_live_def members_live_def)
next
  case (Cons e bs)
  obtain t where t: "bridge_run e h = Returns t"
    using bridge_step_live [of h e] Cons.prems(1) by (auto simp: bridges_live_def)
  have c: "bridges_live t" "bridges.run_allowed bs t"
    using bridge_step_consistent [OF Cons.prems(1) _ t] Cons.prems(2) t by auto
  have i: "br_reqID (bh_heap t q) = br_reqID (bh_heap h q)"
    using bridge_reqID_step [OF Cons.prems(1) t, of q] Cons.prems(4) by simp
  have d: "distinct (bh_bridges h)" using Cons.prems(1) by (simp add: bridges_live_def members_live_def)
  have "q \<in> set (bh_bridges t)"
  proof (cases e)
    case (BridgeRegister p c j)
    with t Cons.prems(6) show ?thesis by (auto simp: bridge_register_def)
  next
    case (BridgeUnregister p)
    with t have "bridge_unregister p h = Returns t" by simp
    from Cons.prems(1) this BridgeUnregister Cons.prems(4,6) d show ?thesis
      by (cases rule: bridge_unregister_cases) (auto simp: set_remove1)
  next
    case (BridgeBroadcast ord m)
    with t have b: "bridge_broadcast ord m h = Returns t" by simp
    have "msg_ID m \<noteq> br_reqID (bh_heap h q)" using Cons.prems(5) BridgeBroadcast by auto
    with b Cons.prems(1,6) d show ?thesis
      by (cases rule: bridge_broadcast_cases [OF Cons.prems(1) b]) (auto simp: set_remove1)
  next
    case (BridgePump p)
    with t Cons.prems(6) show ?thesis by (auto simp: bridge_pump_eq split: list.splits)
  qed
  with Cons.IH [OF c] Cons.prems t i show ?case by simp
qed

subsection \<open>An example session\<close>

text \<open>A coding of messages: the number, the length of the method in unary, the method and the body.\<close>

definition demo_enc :: "message \<Rightarrow> string" where
  "demo_enc m = dec_digits (unat (msg_ID m)) @ CHR '':'' # replicate (length (msg_Method m)) CHR ''x'' @ CHR '':'' #
     msg_Method m @ msg_Body m"

definition demo_dec :: "string \<Rightarrow> message go_ret" where
  "demo_dec f =
     (let n = the (find_byte CHR '':'' f); g = drop (Suc n) f; k = the (find_byte CHR '':'' g); rest = drop (Suc k) g
      in (\<lparr>msg_ID = of_nat (fst (ParseUint (take n f) 10 64)), msg_Method = take k rest, msg_Body = drop k rest\<rparr>, None))"

lemma demo_dec_enc: "demo_dec (demo_enc m) = (m, None)"
proof -
  have n: "CHR '':'' \<notin> set (dec_digits k)" "CHR '':'' \<notin> set (replicate k CHR ''x'')" for k
    by (simp_all add: dec_digits_notin)
  have "unat (msg_ID m) < 2 ^ 64" using unsigned_less [of "msg_ID m"] by simp
  then show ?thesis
    by (simp add: demo_dec_def demo_enc_def n ParseUint_dec_digits Let_def find_byte_append_notin [OF n(2)])
qed

definition demo_events :: "hub_event list" where
  "demo_events = [HubBroadcast id 7 (Bridge_Open 1), HubBroadcast id 7 (Bridge_Write 1 ''GET''), HubPump 7, HubPump 7]"

definition demo_answer :: "bridge_event list" where
  "demo_answer = [BridgeBroadcast id (Bridge_Write 1 ''GET''), BridgePump 3]"

lemma demo_logs:
  "log_of hub_run (hub_offers 7) demo_events demo_hub = [Bridge_Open 1, Bridge_Write 1 ''GET'']"
  "log_of hub_run (hub_takes 7) demo_events demo_hub = [Bridge_Open 1, Bridge_Write 1 ''GET'']"
  "ch_buf (hub_send demo_hub 7) = []"
  "log_of bridge_run (bridge_takes 3) demo_answer (bridge_register 3 7 1 newBridgeHub) = [''GET'']"
  by code_simp+

lemma demo_copy:
  "\<exists>b'. CopyBuffer Reader_Read bridge_writer (NewReader [(''x'', None)]) = Some ([''x''], 1, None, b')"
proof -
  have l: "length (rbuf (NewReader c)) = copy_size" "rpos (NewReader c) = 0" "wpos (NewReader c) = 0"
    "rerr (NewReader c) = None" "rsrc (NewReader c) = c" for c
    using NewReader_work_simps [of c] by (simp_all add: NewReader_def NewReaderSize_def Reader_reset_def)
  have "\<exists>b1. Reader_Read copy_size (NewReader [(''x'', None)]) = (''x'', None, b1)
      \<and> (\<exists>b2. Reader_Read copy_size b1 = ('''', Some EOF, b2))"
    by (simp add: Reader_Read_def readErr_def l copy_size_def)
  then show ?thesis
    by (subst CopyBuffer.simps) (auto simp: CopyBuffer.simps copy_write_def bridge_writer_def loop_err_def)
qed

lemma demo_transfer:
  "ws_transfer id [(''Debug'', [''me''])] demo_hub 1 ''GET'' (NewReader [(''x'', None)]) =
     Some (Some (7, session_script 1 [''GET'', ''x'']))"
proof -
  have "GetClient id [(''Debug'', [''me''])] demo_hub = Some 7" by code_simp
  with demo_copy show ?thesis by (auto simp: ws_transfer_def)
qed

lemma demo_local:
  "local_run demo_dec 7 (map demo_enc [Bridge_Open 1, Bridge_Write 1 ''GET'']) ([] @ BridgeRegister 3 7 1 # demo_answer)"
  unfolding demo_answer_def list.map append_Nil
proof (rule local_run.intros)
  show "localReadPump 7 3 True id (demo_dec (demo_enc (Bridge_Open 1))) = Returns (Some (BridgeRegister 3 7 1))"
    by (simp add: localReadPump_def demo_dec_enc)
  have "localReadPump 7 3 True id (demo_dec (demo_enc (Bridge_Write 1 ''GET''))) = Returns (Some (BridgeBroadcast id (Bridge_Write 1 ''GET'')))"
    by (simp add: localReadPump_def demo_dec_enc)
  then show "local_run demo_dec 7 [demo_enc (Bridge_Write 1 ''GET'')] [BridgeBroadcast id (Bridge_Write 1 ''GET''), BridgePump 3]"
    by (intro local_run.intros) auto
qed

lemma demo_hub_live: "hub_live demo_hub"
  by (simp add: hub_live_def members_live_def demo_hub_def hub_register_def newHub_def hub_send_def new_client_def make_chan_def)

lemma demo_bridges_live: "bridges_live newBridgeHub"
  by (simp add: bridges_live_def members_live_def newBridgeHub_def reqIDs_distinct_def)

theorem websocket_request_prefix_witness:
  "prefix (fst (WritePump [(''GET'', bridge_writer)])) (''GET'' @ pending (NewReader [(''x'', None)]))"
proof -
  obtain h' where h': "exec hub_run demo_events demo_hub = Returns h'"
    using client_hub.exec_live demo_hub_live hub_live_def by blast
  obtain lh where lh: "exec bridge_run demo_answer (bridge_register 3 7 1 newBridgeHub) = Returns lh"
    using bridges.exec_live [of "bridge_register 3 7 1 newBridgeHub"]
    by (auto simp: members_live_def bridge_register_def newBridgeHub_def bridge_send_def make_chan_def)
  have d: "\<forall>m. demo_dec (demo_enc m) = (m, None)" by (simp add: demo_dec_enc)
  have o: "prefix (filter (\<lambda>m. msg_ID m = 1) (log_of hub_run (hub_offers 7) demo_events demo_hub)) (session_script 1 [''GET'', ''x''])"
    by (simp add: demo_logs session_script_def)
  have f: "prefix (map demo_enc [Bridge_Open 1, Bridge_Write 1 ''GET'']) (map demo_enc (log_of hub_run (hub_takes 7) demo_events demo_hub))"
    by (simp add: demo_logs)
  have t: "prefix (map fst [(''GET'', bridge_writer)]) (log_of bridge_run (bridge_takes 3) demo_answer (bridge_register 3 7 1 newBridgeHub))"
    by (simp add: demo_logs)
  show ?thesis
    by (rule websocket_request_prefix [OF d _ _ demo_transfer demo_hub_live h' _ _ o f demo_local demo_bridges_live _ _ lh _ t])
      (simp_all add: NewReader_work_simps demo_events_def demo_logs demo_answer_def newBridgeHub_def full_writes_def bridge_writer_def)
qed

text \<open>The same session to its end.\<close>

definition demo_events_all :: "hub_event list" where
  "demo_events_all = map (HubBroadcast id 7) (session_script 1 [''GET'', ''x'']) @ replicate 4 (HubPump 7)"

definition demo_answer_all :: "bridge_event list" where
  "demo_answer_all = [BridgeBroadcast id (Bridge_Write 1 ''GET''), BridgePump 3, BridgeBroadcast id (Bridge_Write 1 ''x'')]"

lemma demo_logs_all:
  "log_of hub_run (hub_offers 7) demo_events_all demo_hub = session_script 1 [''GET'', ''x'']"
  "log_of hub_run (hub_takes 7) demo_events_all demo_hub = session_script 1 [''GET'', ''x'']"
  "log_of bridge_run (bridge_takes 3) demo_answer_all (bridge_register 3 7 1 newBridgeHub) = [''GET'']"
  "(case exec bridge_run demo_answer_all (bridge_register 3 7 1 newBridgeHub) of
      Panics \<Rightarrow> False | Returns s \<Rightarrow> ch_buf (bridge_send s 3) = [''x''] \<and> bh_bridges s = [3])"
  by code_simp+

lemma demo_local_all:
  "local_run demo_dec 7 (map demo_enc (session_script 1 [''GET'', ''x'']))
     ([] @ BridgeRegister 3 7 1 # demo_answer_all @ [BridgeBroadcast id (Bridge_CloseWrite 1)])"
proof -
  have "local_run demo_dec 7 fs bs \<Longrightarrow> local_run demo_dec 7 (demo_enc (Bridge_Open 1) # fs) (BridgeRegister 3 7 1 # bs)"
    "local_run demo_dec 7 fs bs \<Longrightarrow> local_run demo_dec 7 (demo_enc (Bridge_Write 1 p) # fs) (BridgeBroadcast id (Bridge_Write 1 p) # bs)"
    "local_run demo_dec 7 fs bs \<Longrightarrow> local_run demo_dec 7 (demo_enc (Bridge_CloseWrite 1) # fs) (BridgeBroadcast id (Bridge_CloseWrite 1) # bs)"
    for fs bs p
    by (rule local_frame [where q = 3 and dialled = True and ord = id], simp_all add: localReadPump_def demo_dec_enc)+
  then show ?thesis
    by (simp add: demo_answer_all_def session_script_def local_other local_stop)
qed

theorem websocket_request_complete_witness:
  "fst (WritePump [(''GET'', bridge_writer), (''x'', bridge_writer)]) = ''GET'' @ ''x''"
proof -
  obtain h' where h': "exec hub_run demo_events_all demo_hub = Returns h'"
    using client_hub.exec_live demo_hub_live hub_live_def by blast
  obtain lh where lh: "exec bridge_run demo_answer_all (bridge_register 3 7 1 newBridgeHub) = Returns lh"
    and l: "ch_buf (bridge_send lh 3) = [''x'']" "bh_bridges lh = [3]"
    using demo_logs_all(4) by (auto split: outcome.splits)
  have d: "\<forall>m. demo_dec (demo_enc m) = (m, None)" by (simp add: demo_dec_enc)
  have o: "prefix (filter (\<lambda>m. msg_ID m = 1) (log_of hub_run (hub_offers 7) demo_events_all demo_hub)) (session_script 1 [''GET'', ''x''])"
    by (simp add: demo_logs_all session_script_def)
  have f: "prefix (map demo_enc (session_script 1 [''GET'', ''x''])) (map demo_enc (log_of hub_run (hub_takes 7) demo_events_all demo_hub))"
    by (simp add: demo_logs_all)
  have t: "map fst [(''GET'', bridge_writer), (''x'', bridge_writer)] =
      log_of bridge_run (bridge_takes 3) demo_answer_all (bridge_register 3 7 1 newBridgeHub) @ ch_buf (bridge_send lh 3)"
    by (simp add: demo_logs_all l)
  have j: "\<forall>e \<in> set demo_events_all. hub_joins e \<noteq> Some 7" by (auto simp: demo_events_all_def session_script_def)
  have "\<exists>cs n err b'. CopyBuffer Reader_Read bridge_writer (NewReader [(''x'', None)]) = Some (cs, n, err, b')
      \<and> fst (WritePump [(''GET'', bridge_writer), (''x'', bridge_writer)]) = ''GET'' @ concat cs"
    by (rule websocket_request_complete [OF d demo_transfer demo_hub_live h' j _ o f demo_local_all demo_bridges_live _ _ refl lh _ _ t])
      (simp_all add: demo_logs demo_answer_all_def newBridgeHub_def full_writes_def bridge_writer_def l)
  with demo_copy show ?thesis by auto
qed

text \<open>The answer of the same session.\<close>

definition demo_back :: "hub_event list" where
  "demo_back = [HubBroadcast id 7 (Bridge_Write 1 ''hi''), HubPump 7]"

definition demo_server :: "bridge_event list" where
  "demo_server = [BridgeBroadcast id (Bridge_Write 1 ''hi''), BridgePump 3]"

lemma demo_logs_back:
  "log_of hub_run (hub_offers 7) demo_back demo_hub = [Bridge_Write 1 ''hi'']"
  "log_of hub_run (hub_takes 7) demo_back demo_hub = [Bridge_Write 1 ''hi'']"
  "log_of bridge_run (bridge_takes 3) demo_server (bridge_register 3 7 1 newBridgeHub) = [''hi'']"
  by code_simp+


end
