(* ===== verification/Step_Runs.thy ===== *)
theory Step_Runs
  imports Main
begin

section \<open>Step relations that end\<close>

text \<open>
  What the interleaved loops of the program share: a step relation, a well-formedness that
  steps preserve, a well-founded order that every step descends, and a step in every
  well-formed state that is not final. Then no run is infinite, and every state has a run to
  a final one. The loops of a tunnel and those of the stress tool are instances.
\<close>

locale terminating_steps =
  fixes step :: "'s \<Rightarrow> 's \<Rightarrow> bool" and ok :: "'s \<Rightarrow> bool" and final :: "'s \<Rightarrow> bool" and order :: "('s \<times> 's) set"
  assumes wf_order: "wf order"
    and ok_step: "step x y \<Longrightarrow> ok x \<Longrightarrow> ok y"
    and step_order: "step x y \<Longrightarrow> ok x \<Longrightarrow> (y, x) \<in> order"
    and progress: "ok x \<Longrightarrow> \<not> final x \<Longrightarrow> \<exists>y. step x y"
begin

lemma ok_run: "step\<^sup>*\<^sup>* x y \<Longrightarrow> ok x \<Longrightarrow> ok y"
  by (induction rule: rtranclp_induct) (auto intro: ok_step)

lemma no_infinite_run:
  assumes "ok (f 0)"
  shows "\<not> (\<forall>i. step (f i) (f (Suc i)))"
proof
  assume s: "\<forall>i. step (f i) (f (Suc i))"
  have "ok (f i)" for i by (induction i) (use assms s ok_step in blast)+
  then have "\<forall>i. (f (Suc i), f i) \<in> order" using s step_order by blast
  then show False using wf_order unfolding wf_iff_no_infinite_down_chain by blast
qed

lemma reaches_final: "ok x \<Longrightarrow> \<exists>y. step\<^sup>*\<^sup>* x y \<and> final y"
proof (induction x rule: wf_induct_rule [OF wf_order])
  case (1 x)
  show ?case
  proof (cases "final x")
    case False
    then obtain y where y: "step x y" using progress 1(2) by blast
    then obtain z where "step\<^sup>*\<^sup>* y z" "final z" using 1 step_order ok_step by blast
    with y show ?thesis by (meson converse_rtranclp_into_rtranclp)
  qed blast
qed

end

end
