(* ===== verification/Copying_Streams.thy ===== *)
theory Copying_Streams
  imports Copying Step_Runs
begin

section \<open>What a transfer copies\<close>

text \<open>
  Invariants of the interleaved copying loops and what they show: the bytes of either
  direction, the hand-over of a connection that is kept alive, and the end of every run.
\<close>

subsection \<open>Bytes from the client\<close>

text \<open>The chunk that is kept for the next request.\<close>

definition chunk :: "xfer \<Rightarrow> string" where
  "chunk x = (case x_req x of RKeep d \<Rightarrow> d | RIdle d \<Rightarrow> d | _ \<Rightarrow> x_buf x)"

definition keeping :: "xfer \<Rightarrow> bool" where
  "keeping x \<longleftrightarrow> x_curState x = StIdle \<or> (\<exists>d. x_req x = RKeep d)"

text \<open>
  \<open>c0\<close> is everything the client sends and \<open>n0\<close> the body length still to come at the start.
  What was sent on and kept is \<open>c0\<close> with at most one gap; no gap before a probe.
\<close>

definition stream_inv :: "string \<Rightarrow> int \<Rightarrow> xfer \<Rightarrow> bool" where
  "stream_inv c0 n0 x \<longleftrightarrow>
     (\<exists>u l v fut. x_up x @ chunk x = u @ v \<and> c0 = u @ l @ v @ fut
       \<and> (x_req x = RLoop \<longrightarrow> (\<exists>z. fut = pending (x_client x) @ z)
           \<and> (x_clientUnRead x \<ge> 0 \<longrightarrow> l = '''' \<and> int (length (x_up x)) = n0 - x_clientUnRead x)))"

definition pc_inv :: "int \<Rightarrow> xfer \<Rightarrow> bool" where
  "pc_inv n0 x \<longleftrightarrow>
     (case x_req x of
        RLoop \<Rightarrow> x_curState x = StActive \<and> x_buf x = ''''
      | RKeep d \<Rightarrow> x_curState x = StActive \<and> x_buf x = ''''
      | RIdle d \<Rightarrow> x_curState x = StIdle \<and> x_buf x = ''''
      | RClosing \<Rightarrow> x_curState x = StActive \<and> x_buf x = ''''
      | RDone \<Rightarrow> x_buf x = '''' \<or> x_curState x = StIdle)
     \<and> (n0 < 0 \<longrightarrow> x_clientUnRead x < 0)
     \<and> (\<forall>k. x_kept x = Some k \<longrightarrow> x_curState x = StIdle \<and> (k = '''' \<or> k = chunk x))"

definition keep_inv :: "string \<Rightarrow> int \<Rightarrow> xfer \<Rightarrow> bool" where
  "keep_inv c0 n0 x \<longleftrightarrow>
     (keeping x \<longrightarrow> 0 \<le> n0 \<and> x_up x = take (nat n0) c0 \<and> (\<exists>s. drop (nat n0) c0 = chunk x @ s) \<and> x_upClosed x)"

definition client_inv :: "string \<Rightarrow> int \<Rightarrow> xfer \<Rightarrow> bool" where
  "client_inv c0 n0 x \<longleftrightarrow> xfer_ok x \<and> stream_inv c0 n0 x \<and> pc_inv n0 x \<and> keep_inv c0 n0 x"

lemma stream_invI:
  "x_up x @ chunk x = u @ v \<Longrightarrow> c0 = u @ l @ v @ fut \<Longrightarrow>
   (x_req x = RLoop \<Longrightarrow> (\<exists>z. fut = pending (x_client x) @ z)
     \<and> (x_clientUnRead x \<ge> 0 \<longrightarrow> l = '''' \<and> int (length (x_up x)) = n0 - x_clientUnRead x)) \<Longrightarrow>
   stream_inv c0 n0 x"
  unfolding stream_inv_def by blast

lemma request_end_fields [simp]:
  "x_up (request_end e x) = x_up x" "x_buf (request_end e x) = x_buf x" "x_kept (request_end e x) = x_kept x"
  "x_curState (request_end e x) = x_curState x"
  by (simp_all add: request_end_def)

lemma request_end_chunk [simp]: "x_req x = RLoop \<Longrightarrow> chunk (request_end e x) = x_buf x"
  by (simp add: request_end_def chunk_def)

lemma request_end_pc: "x_req x = RLoop \<Longrightarrow> x_req (request_end e x) = (if e = None then RLoop else RClosing)"
  by (simp add: request_end_def)

lemma stream_inv_end:
  "x_req x = RLoop \<Longrightarrow> stream_inv c0 n0 x \<Longrightarrow> stream_inv c0 n0 (request_end e x)"
  by (cases e) (auto simp: stream_inv_def request_end_pc chunk_def)

lemma pc_inv_end: "x_req x = RLoop \<Longrightarrow> pc_inv n0 x \<Longrightarrow> pc_inv n0 (request_end e x)"
  by (cases e) (auto simp: pc_inv_def request_end_pc chunk_def)

lemma keep_inv_active: "x_curState x = StActive \<Longrightarrow> \<forall>d. x_req x \<noteq> RKeep d \<Longrightarrow> keep_inv c0 n0 x"
  by (simp add: keep_inv_def keeping_def)

text \<open>The state of a client's loop before an iteration, with its next read.\<close>

definition loop_state ::
  "string \<Rightarrow> int \<Rightarrow> xfer \<Rightarrow> string \<Rightarrow> tcp_reader \<Rightarrow> string \<Rightarrow> string \<Rightarrow> string \<Rightarrow> string \<Rightarrow> bool" where
  "loop_state c0 n0 x d b u l v z \<longleftrightarrow>
     x_up x = u @ v \<and> c0 = u @ l @ v @ d @ pending b @ z \<and> unread b = '''' \<and> x_buf x = ''''
     \<and> x_curState x = StActive \<and> (x_clientUnRead x \<ge> 0 \<longrightarrow> l = '''' \<and> int (length (x_up x)) = n0 - x_clientUnRead x)
     \<and> chunk x = '''' \<and> x_kept x = None \<and> (n0 < 0 \<longrightarrow> x_clientUnRead x < 0)"

lemma client_loop_state:
  assumes "client_inv c0 n0 x" and "x_req x = RLoop" and "Reader_Read copy_size (x_client x) = (d, er, b)"
  shows "\<exists>u l v z. loop_state c0 n0 x d b u l v z"
proof -
  have b: "unread b = ''''" "pending (x_client x) = d @ pending b"
    using copy_read [OF _ _ assms(3)] assms(1) by (auto simp: client_inv_def xfer_ok_def)
  have pc: "x_buf x = ''''" "x_curState x = StActive" "x_kept x = None" "n0 < 0 \<longrightarrow> x_clientUnRead x < 0"
    using assms(1,2) by (cases "x_kept x"; simp add: client_inv_def pc_inv_def)+
  then have c: "chunk x = ''''" using assms(2) by (simp add: chunk_def)
  have "stream_inv c0 n0 x" using assms(1) by (simp add: client_inv_def)
  then obtain u l v fut where f: "x_up x @ chunk x = u @ v" "c0 = u @ l @ v @ fut" "\<exists>z. fut = pending (x_client x) @ z"
    "x_clientUnRead x \<ge> 0 \<longrightarrow> l = '''' \<and> int (length (x_up x)) = n0 - x_clientUnRead x"
    using assms(2) unfolding stream_inv_def by blast
  obtain z where z: "fut = pending (x_client x) @ z" using f(3) by blast
  have 1: "x_up x = u @ v" using f(1) c by simp
  have 2: "c0 = u @ l @ v @ d @ pending b @ z" using f(2) z b(2) by simp
  have "loop_state c0 n0 x d b u l v z"
    unfolding loop_state_def using 1 2 b(1) pc f(4) c by blast
  then show ?thesis by blast
qed

lemma client_inv_loop:
  assumes "client_inv c0 n0 x" and "x_req x = RLoop" and "request_iter D r werr w x = Some (Returns x')"
    and "xfer_ok x'"
  shows "client_inv c0 n0 x'"
  using assms(3)
proof (cases rule: request_iterE)
  case (empty d er b)
  obtain u l v z where "loop_state c0 n0 x d b u l v z"
    using client_loop_state [OF assms(1,2) empty(1)] by blast
  note s = this [unfolded loop_state_def]
  let ?y = "x\<lparr>x_client := b\<rparr>"
  have "stream_inv c0 n0 ?y"
    by (rule stream_invI [of _ u v c0 l "pending b @ z"]) (use s empty assms(2) in \<open>auto simp: chunk_def\<close>)
  moreover have "pc_inv n0 ?y" using s assms(2) by (simp add: pc_inv_def)
  ultimately show ?thesis
    using assms(2,4) s empty(3) stream_inv_end [of ?y] pc_inv_end [of ?y] keep_inv_active [of "request_end er ?y"]
    by (simp add: client_inv_def request_end_pc)
next
  case (keep d er b conn out)
  obtain u l v z where "loop_state c0 n0 x d b u l v z"
    using client_loop_state [OF assms(1,2) keep(1)] by blast
  note s = this [unfolded loop_state_def]
  from s keep(3) have c: "c0 = x_up x @ d @ pending b @ z" "int (length (x_up x)) = n0" by auto
  have "stream_inv c0 n0 x'"
    by (rule stream_invI [of _ "x_up x @ d" "''''" c0 "''''" "pending b @ z"]) (use c keep in \<open>auto simp: chunk_def\<close>)
  moreover have "nat n0 = length (x_up x)" using c(2) by simp
  then have "keep_inv c0 n0 x'" using c keep by (simp add: keep_inv_def chunk_def)
  moreover have "pc_inv n0 x'" using s keep by (simp add: pc_inv_def)
  ultimately show ?thesis using assms(4) by (simp add: client_inv_def)
next
  case (fail d er b conn k out n err)
  obtain u l v z where "loop_state c0 n0 x d b u l v z"
    using client_loop_state [OF assms(1,2) fail(1)] by blast
  note s = this [unfolded loop_state_def]
  have "stream_inv c0 n0 x'"
    by (rule stream_invI [of _ u "v @ take n d" c0 l "drop n d @ pending b @ z"])
      (use s fail in \<open>auto simp: chunk_def written_def\<close>)
  moreover have "pc_inv n0 x'"
    using s fail by (auto simp: pc_inv_def written_def gate_pass_def)
  moreover have "keep_inv c0 n0 x'" using s fail by (intro keep_inv_active) (simp_all add: written_def)
  ultimately show ?thesis using assms(4) by (simp add: client_inv_def)
next
  case (sent d er b conn k out)
  obtain u l v z where "loop_state c0 n0 x d b u l v z"
    using client_loop_state [OF assms(1,2) sent(1)] by blast
  note s = this [unfolded loop_state_def]
  let ?y = "written d conn k out b x"
  have p: "pending (b\<lparr>rsrc := conn\<rparr>) = conn_bytes conn" "pending b = conn_bytes (rsrc b)"
    using s by (simp_all add: pending_def unread_def)
  have "stream_inv c0 n0 ?y"
  proof (cases "x_clientUnRead x = 0")
    case True
    with sent(3) obtain m where m: "k = -1" "conn_bytes (rsrc b) = m @ conn_bytes conn" by (auto simp: gate_pass_def)
    show ?thesis
      by (rule stream_invI [of _ "x_up x @ d" "''''" c0 m "conn_bytes conn @ z"])
        (use s True m p assms(2) in \<open>auto simp: chunk_def written_def\<close>)
  next
    case False
    with sent(3) have m: "conn = rsrc b" "k = x_clientUnRead x \<and> k < 0 \<or> k = x_clientUnRead x - int (length d) \<and> 0 < x_clientUnRead x"
      by (auto simp: gate_pass_def)
    show ?thesis
      by (rule stream_invI [of _ u "v @ d" c0 l "pending b @ z"])
        (use s m p assms(2) in \<open>auto simp: chunk_def written_def\<close>)
  qed
  moreover have "pc_inv n0 ?y" using s sent(3) assms(2) by (auto simp: pc_inv_def written_def gate_pass_def)
  moreover have "x_req ?y = RLoop" "x_curState ?y = StActive" using s assms(2) by (simp_all add: written_def)
  ultimately show ?thesis
    using assms(4) sent(4) stream_inv_end [of ?y] pc_inv_end [of ?y] keep_inv_active [of "request_end er ?y"]
    by (simp add: client_inv_def request_end_pc)
qed

lemma server_end_frame:
  "x_up (server_end e x) = x_up x" "x_buf (server_end e x) = x_buf x" "x_curState (server_end e x) = x_curState x"
  "x_upClosed (server_end e x) = x_upClosed x"
  "x_kept (server_end e x) = x_kept x \<or> x_curState x = StIdle \<and> x_kept (server_end e x) = Some (x_buf x)"
  by (simp_all add: server_end_def)

lemma received_frame:
  "x_up (received d b x) = x_up x" "x_buf (received d b x) = x_buf x" "x_curState (received d b x) = x_curState x"
  "x_upClosed (received d b x) = x_upClosed x" "x_kept (received d b x) = x_kept x"
  by (simp_all add: received_def)

lemma server_iter_frame:
  shows "x_up (server_iter w x) = x_up x" and "x_buf (server_iter w x) = x_buf x" and "x_req (server_iter w x) = x_req x"
    and "x_curState (server_iter w x) = x_curState x" and "x_clientUnRead (server_iter w x) = x_clientUnRead x"
    and "x_upClosed (server_iter w x) = x_upClosed x"
    and "x_client (server_iter w x) = x_client x \<or> x_client (server_iter w x) = (x_client x)\<lparr>rsrc := closed_conn\<rparr>"
    and "x_kept (server_iter w x) = x_kept x \<or> x_curState x = StIdle \<and> x_kept (server_iter w x) = Some (x_buf x)"
proof -
  obtain d e b where rd: "Reader_Read copy_size (x_server x) = (d, e, b)" by (metis prod_cases3)
  from server_iter_cases [OF rd, of w] obtain d' where "server_iter w x = server_end e (received d' b x) \<or>
      (\<exists>err. server_iter w x = (received d' b x)\<lparr>x_srvErr := Some err, x_srvDone := True\<rparr>)" by blast
  then show "x_up (server_iter w x) = x_up x" and "x_buf (server_iter w x) = x_buf x" and "x_req (server_iter w x) = x_req x"
    and "x_curState (server_iter w x) = x_curState x" and "x_clientUnRead (server_iter w x) = x_clientUnRead x"
    and "x_upClosed (server_iter w x) = x_upClosed x"
    and "x_client (server_iter w x) = x_client x \<or> x_client (server_iter w x) = (x_client x)\<lparr>rsrc := closed_conn\<rparr>"
    and "x_kept (server_iter w x) = x_kept x \<or> x_curState x = StIdle \<and> x_kept (server_iter w x) = Some (x_buf x)"
    using server_end_frame [of e "received d' b x"] server_end_client [of e "received d' b x"]
    by (auto simp: received_frame)
qed

lemma pending_rsrc: "pending (b\<lparr>rsrc := c\<rparr>) = unread b @ conn_bytes c"
  by (simp add: pending_def unread_def)

lemma conn_bytes_closed [simp]: "conn_bytes closed_conn = ''''"
  by (simp add: conn_bytes_def closed_conn_def)

lemma client_inv_server:
  assumes "client_inv c0 n0 x" and "xfer_ok (server_iter w x)"
  shows "client_inv c0 n0 (server_iter w x)"
proof -
  note f = server_iter_frame [of w x]
  let ?x = "server_iter w x"
  have ch: "chunk ?x = chunk x" by (simp add: chunk_def f(2,3) split: req_pc.split)
  have inv: "stream_inv c0 n0 x" "pc_inv n0 x" "keep_inv c0 n0 x" using assms(1) by (simp_all add: client_inv_def)
  have "\<exists>y. pending (x_client x) = pending (x_client ?x) @ y"
    using f(7) by (auto simp: pending_rsrc) (simp add: pending_def)
  then obtain y where y: "pending (x_client x) = pending (x_client ?x) @ y" by blast
  have "stream_inv c0 n0 ?x"
  proof -
    obtain u l v fut where s: "x_up x @ chunk x = u @ v" "c0 = u @ l @ v @ fut"
      "x_req x = RLoop \<longrightarrow> (\<exists>z. fut = pending (x_client x) @ z)
           \<and> (x_clientUnRead x \<ge> 0 \<longrightarrow> l = '''' \<and> int (length (x_up x)) = n0 - x_clientUnRead x)"
      using inv(1) unfolding stream_inv_def by blast
    show ?thesis by (rule stream_invI [of _ u v c0 l fut]) (use s y ch in \<open>auto simp: f(1,3,5)\<close>)
  qed
  moreover have "pc_inv n0 ?x"
    using inv(2) f(8) by (auto simp: pc_inv_def f(2-5) ch chunk_def split: req_pc.splits)
  moreover have "keep_inv c0 n0 ?x" using inv(3) by (simp add: keep_inv_def keeping_def f(1,3,4,6) ch)
  ultimately show ?thesis using assms(2) by (simp add: client_inv_def)
qed

lemma stream_inv_leave:
  "stream_inv c0 n0 x \<Longrightarrow> x_up x' = x_up x \<Longrightarrow> chunk x' = chunk x \<Longrightarrow> x_req x' \<noteq> RLoop \<Longrightarrow> stream_inv c0 n0 x'"
  unfolding stream_inv_def by metis

lemma client_inv_panic: "client_inv c0 n0 (x\<lparr>x_panic := p\<rparr>) = client_inv c0 n0 x"
  by (cases "x_req x") (simp_all add: client_inv_def xfer_ok_def stream_inv_def pc_inv_def keep_inv_def keeping_def chunk_def)

lemma client_inv_step:
  assumes "xfer_step D r x x'" and "client_inv c0 n0 x"
  shows "client_inv c0 n0 x'"
proof -
  have ok: "xfer_ok x'" using xfer_step_ok [OF assms(1)] assms(2) by (simp add: client_inv_def)
  note inv = assms(2) [unfolded client_inv_def]
  from assms(1) show ?thesis
  proof cases
    case (client_loop w werr)
    then show ?thesis using client_inv_loop [OF assms(2)] ok by blast
  next
    case (server_loop w)
    then show ?thesis using client_inv_server [OF assms(2)] ok by blast
  next
    case client_panic
    then show ?thesis using assms(2) client_inv_panic by simp
  next
    case (client_keep d)
    have "stream_inv c0 n0 x'" by (rule stream_inv_leave) (use client_keep inv in \<open>auto simp: chunk_def pc_inv_def\<close>)
    moreover have "pc_inv n0 x'" using client_keep inv by (auto simp: pc_inv_def chunk_def)
    moreover have "keep_inv c0 n0 x'" using client_keep inv by (simp add: keep_inv_def keeping_def chunk_def pc_inv_def)
    ultimately show ?thesis using ok by (simp add: client_inv_def)
  next
    case (client_idle d)
    have "stream_inv c0 n0 x'" by (rule stream_inv_leave) (use client_idle inv in \<open>auto simp: chunk_def pc_inv_def\<close>)
    moreover have "pc_inv n0 x'" using client_idle inv by (auto simp: pc_inv_def chunk_def)
    moreover have "keep_inv c0 n0 x'" using client_idle inv by (simp add: keep_inv_def keeping_def chunk_def pc_inv_def)
    ultimately show ?thesis using ok by (simp add: client_inv_def)
  next
    case client_closing
    have "stream_inv c0 n0 x'" by (rule stream_inv_leave) (use client_closing inv in \<open>auto simp: chunk_def pc_inv_def\<close>)
    moreover have "pc_inv n0 x'" using client_closing inv by (auto simp: pc_inv_def chunk_def)
    moreover have "keep_inv c0 n0 x'" using client_closing inv by (simp add: keep_inv_def keeping_def chunk_def pc_inv_def)
    ultimately show ?thesis using ok by (simp add: client_inv_def)
  qed
qed

definition loop_reader :: "tcp_reader \<Rightarrow> bool" where
  "loop_reader b \<longleftrightarrow> reader_inv b \<and> length (rbuf b) \<le> copy_size"

lemma transfer_start_ok: "loop_reader b \<Longrightarrow> xfer_ok (transfer_start b server n)"
  by (simp add: xfer_ok_def transfer_start_def loop_reader_def NewReader_work_simps)

lemma client_inv_start: "loop_reader b \<Longrightarrow> client_inv (pending b) n (transfer_start b server n)"
  using transfer_start_ok [of b server n] stream_invI [of "transfer_start b server n" "''''" "''''" "pending b" "''''" "pending b" n]
  by (simp add: client_inv_def pc_inv_def keep_inv_def keeping_def chunk_def) (simp add: transfer_start_def)

lemma client_inv_run:
  "xfer_run D r x y \<Longrightarrow> client_inv c0 n0 x \<Longrightarrow> client_inv c0 n0 y"
  by (induction rule: xfer_run.induct) (auto intro: client_inv_step)

subsection \<open>Reads of clean connections\<close>

lemma Reader_Read_buffered:
  assumes "rpos b \<noteq> wpos b" and "Reader_Read copy_size b = (d, e, b')"
  shows "e = None \<and> rsrc b' = rsrc b \<and> rerr b' = rerr b"
proof -
  have "Reader_Read copy_size b = read_copy copy_size b" using assms(1) by (simp add: Reader_Read_def copy_size_def)
  with assms(2) show ?thesis by (auto simp: read_copy_def Let_def)
qed

lemma Reader_Read_direct:
  assumes "rpos b = wpos b" and "loop_reader b" and "rerr b = None" and "Reader_Read copy_size b = (d, e, b')"
  shows "conn_read copy_size (rsrc b) = (d, e, rsrc b') \<and> rerr b' = None \<and> rpos b' = wpos b'"
proof -
  obtain d1 e1 c where r: "conn_read copy_size (rsrc b) = (d1, e1, c)" by (metis prod_cases3)
  with assms show ?thesis
    by (auto simp: Reader_Read_def readErr_def Let_def loop_reader_def split: if_splits)
qed

lemma Reader_Read_clean:
  assumes "loop_reader b" and "rerr b = None" and "clean (rsrc b)" and "Reader_Read copy_size b = (d, e, b')"
  shows "rerr b' = None \<and> clean (rsrc b') \<and> (e = None \<or> e = Some EOF \<and> d = '''' \<and> pending b' = '''')"
proof (cases "rpos b = wpos b")
  case False
  then show ?thesis using assms Reader_Read_buffered by simp
next
  case True
  note r = Reader_Read_direct [OF True assms(1,2,4)]
  show ?thesis
  proof (cases "rsrc b = []")
    case True
    then show ?thesis using r by (auto simp: clean_def pending_def unread_def conn_bytes_def)
  next
    case False
    from conn_read_clean [OF assms(3) False _ conjunct1 [OF r]] r show ?thesis by simp
  qed
qed

lemma Reader_Read_closed:
  assumes "loop_reader b" and "rerr b = None" and "rsrc b = closed_conn" and "Reader_Read copy_size b = (d, e, b')"
  shows "e = None \<and> rsrc b' = closed_conn \<and> rerr b' = None \<or> e \<noteq> None \<and> e \<noteq> Some EOF"
proof (cases "rpos b = wpos b")
  case False
  then show ?thesis using assms Reader_Read_buffered by simp
next
  case True
  from Reader_Read_direct [OF True assms(1,2,4)] show ?thesis using assms(3) by (auto simp: closed_conn_def)
qed

subsection \<open>Bytes from the server\<close>

definition server_inv :: "string \<Rightarrow> bool \<Rightarrow> xfer \<Rightarrow> bool" where
  "server_inv s0 cl x \<longleftrightarrow>
     loop_reader (x_server x) \<and>
     (\<exists>fut. s0 = x_down x @ fut
       \<and> (\<not> x_srvDone x \<longrightarrow> fut = pending (x_server x) \<and> x_srvErr x = None
            \<and> (cl \<longrightarrow> rerr (x_server x) = None \<and> clean (rsrc (x_server x))))
       \<and> (cl \<and> x_srvDone x \<and> x_srvErr x = None \<longrightarrow> fut = ''''))"

lemma server_inv_cong:
  "server_inv s0 cl x \<Longrightarrow> x_server y = x_server x \<Longrightarrow> x_down y = x_down x \<Longrightarrow> x_srvDone y = x_srvDone x \<Longrightarrow>
   x_srvErr y = x_srvErr x \<Longrightarrow> server_inv s0 cl y"
  by (simp add: server_inv_def)

lemma request_iter_frame:
  assumes "request_iter D r werr w x = Some (Returns x')"
  shows "x_server x' = x_server x \<and> x_down x' = x_down x \<and> x_srvDone x' = x_srvDone x \<and> x_srvErr x' = x_srvErr x
    \<and> x_outCount x' = x_outCount x \<and> x_writeSize x' = x_writeSize x \<and> x_clientClosed x' = x_clientClosed x
    \<and> x_panic x' = x_panic x"
  using assms by (cases rule: request_iterE) (auto simp: request_end_def written_def)

lemma server_inv_loop:
  assumes "server_inv s0 cl x" and "\<not> x_srvDone x"
  shows "server_inv s0 cl (server_iter w x)"
proof -
  obtain d e b where rd: "Reader_Read copy_size (x_server x) = (d, e, b)" by (metis prod_cases3)
  have lr: "loop_reader (x_server x)" and s0: "s0 = x_down x @ pending (x_server x)"
    and cl: "cl \<longrightarrow> rerr (x_server x) = None \<and> clean (rsrc (x_server x))" and ne: "x_srvErr x = None"
    using assms by (auto simp: server_inv_def)
  have b: "loop_reader b" "pending (x_server x) = d @ pending b"
    using copy_read [OF _ _ rd] lr by (auto simp: loop_reader_def)
  have c: "cl \<longrightarrow> rerr b = None \<and> clean (rsrc b) \<and> (e = None \<or> e = Some EOF \<and> d = '''' \<and> pending b = '''')"
    using Reader_Read_clean [OF lr _ _ rd] cl by (cases cl) simp_all
  from server_iter_cases [OF rd, of w] show ?thesis
  proof
    assume i: "server_iter w x = server_end e (received d b x)"
    show ?thesis
      unfolding i using b s0 c assms(2) ne by (cases e) (auto simp: server_inv_def server_end_def received_def)
  next
    assume "\<exists>n err. server_iter w x = (received (take n d) b x)\<lparr>x_srvErr := Some err, x_srvDone := True\<rparr>"
    then obtain n err where i: "server_iter w x = (received (take n d) b x)\<lparr>x_srvErr := Some err, x_srvDone := True\<rparr>" by blast
    have "s0 = (x_down x @ take n d) @ drop n d @ pending b" using s0 b(2) by simp
    then show ?thesis unfolding i using b(1) by (auto simp: server_inv_def received_def)
  qed
qed

lemma server_inv_step:
  assumes "xfer_step D r x x'" and "server_inv s0 cl x"
  shows "server_inv s0 cl x'"
  using assms(1)
proof cases
  case (client_loop w werr)
  then show ?thesis using server_inv_cong [OF assms(2)] request_iter_frame by blast
next
  case (server_loop w)
  then show ?thesis using server_inv_loop [OF assms(2)] by blast
qed (use server_inv_cong [OF assms(2)] in auto)

lemma server_inv_run: "xfer_run D r x y \<Longrightarrow> server_inv s0 cl x \<Longrightarrow> server_inv s0 cl y"
  by (induction rule: xfer_run.induct) (auto intro: server_inv_step)

lemma server_inv_start: "server_inv (conn_bytes server) (clean server) (transfer_start b server n)"
  by (simp add: server_inv_def transfer_start_def loop_reader_def NewReader_work_simps pending_NewReader)

subsection \<open>Connections without keep-alive\<close>

definition plain_inv :: "string \<Rightarrow> bool \<Rightarrow> xfer \<Rightarrow> bool" where
  "plain_inv c0 cl x \<longleftrightarrow>
     x_clientUnRead x < 0 \<and> \<not> x_panic x \<and> x_curState x \<noteq> StIdle \<and> x_kept x = None \<and> loop_reader (x_client x)
     \<and> (\<forall>d. x_req x \<noteq> RKeep d \<and> x_req x \<noteq> RIdle d)
     \<and> (\<exists>fut. c0 = x_up x @ fut
          \<and> (x_req x = RLoop \<longrightarrow> x_reqErr x = None \<and> (\<exists>z. fut = pending (x_client x) @ z
                \<and> (cl \<longrightarrow> rerr (x_client x) = None \<and> (clean (rsrc (x_client x)) \<and> z = '''' \<or> rsrc (x_client x) = closed_conn))))
          \<and> (cl \<and> x_req x \<noteq> RLoop \<and> x_reqErr x = None \<longrightarrow> fut = ''''))"

lemma plain_inv_start:
  assumes "loop_reader b" and "n < 0"
  shows "plain_inv (pending b) (rerr b = None \<and> clean (rsrc b)) (transfer_start b server n)"
  using assms by (simp add: plain_inv_def transfer_start_def)

text \<open>A read of the client's loop: the next bytes, and nothing is left when it ends well.\<close>

lemma plain_read:
  assumes "plain_inv c0 cl x" and "x_req x = RLoop" and "Reader_Read copy_size (x_client x) = (d, er, b)"
  shows "\<exists>z. c0 = x_up x @ d @ pending b @ z \<and> loop_reader b
    \<and> (cl \<longrightarrow> (er = None \<longrightarrow> rerr b = None \<and> (clean (rsrc b) \<and> z = '''' \<or> rsrc b = closed_conn))
           \<and> (er = Some EOF \<longrightarrow> d = '''' \<and> pending b @ z = ''''))"
proof -
  obtain z where z: "c0 = x_up x @ pending (x_client x) @ z"
    "cl \<longrightarrow> rerr (x_client x) = None \<and> (clean (rsrc (x_client x)) \<and> z = '''' \<or> rsrc (x_client x) = closed_conn)"
    using assms(1,2) by (auto simp: plain_inv_def)
  have lr: "loop_reader (x_client x)" using assms(1) by (simp add: plain_inv_def)
  have b: "loop_reader b" "pending (x_client x) = d @ pending b"
    using copy_read [OF _ _ assms(3)] lr by (auto simp: loop_reader_def)
  have "cl \<Longrightarrow> (er = None \<longrightarrow> rerr b = None \<and> (clean (rsrc b) \<and> z = '''' \<or> rsrc b = closed_conn))
      \<and> (er = Some EOF \<longrightarrow> d = '''' \<and> pending b @ z = '''')"
  proof -
    assume cl
    with z(2) have e: "rerr (x_client x) = None" and "clean (rsrc (x_client x)) \<and> z = '''' \<or> rsrc (x_client x) = closed_conn"
      by simp_all
    from this(2) show ?thesis
    proof
      assume c: "clean (rsrc (x_client x)) \<and> z = ''''"
      from Reader_Read_clean [OF lr e conjunct1 [OF c] assms(3)] c show ?thesis by auto
    next
      assume c: "rsrc (x_client x) = closed_conn"
      from Reader_Read_closed [OF lr e c assms(3)] show ?thesis by auto
    qed
  qed
  with z(1) b show ?thesis by auto
qed

lemma plain_inv_end:
  assumes "plain_inv c0 False x" and "x_req x = RLoop" and "x_reqErr x = None"
    and "c0 = x_up x @ pending (x_client x) @ z"
    and "cl \<longrightarrow> (er = None \<longrightarrow> rerr (x_client x) = None \<and> (clean (rsrc (x_client x)) \<and> z = '''' \<or> rsrc (x_client x) = closed_conn))
           \<and> (er = Some EOF \<longrightarrow> pending (x_client x) @ z = '''')"
  shows "plain_inv c0 cl (request_end er x)"
proof (cases er)
  case None
  with assms show ?thesis by (simp add: request_end_def plain_inv_def)
next
  case (Some e)
  with assms show ?thesis
    by (auto simp: request_end_def plain_inv_def loop_err_def)
qed

lemma plain_inv_loop:
  assumes "plain_inv c0 cl x" and "x_req x = RLoop" and "request_iter D r werr w x = Some (Returns x')"
  shows "plain_inv c0 cl x'"
  using assms(3)
proof (cases rule: request_iterE)
  case (empty d er b)
  from plain_read [OF assms(1,2) empty(1)] obtain z where
    z: "c0 = x_up x @ d @ pending b @ z" "loop_reader b" "cl \<longrightarrow> (er = None \<longrightarrow> rerr b = None \<and> (clean (rsrc b) \<and> z = '''' \<or> rsrc b = closed_conn))
           \<and> (er = Some EOF \<longrightarrow> d = '''' \<and> pending b @ z = '''')" by blast
  show ?thesis unfolding empty(3)
    by (rule plain_inv_end [of c0 _ z]) (use assms(1,2) z empty(2) in \<open>auto simp: plain_inv_def\<close>)
next
  case keep
  then show ?thesis using assms(1) by (simp add: plain_inv_def)
next
  case (fail d er b conn k out n err)
  have k: "conn = rsrc b" "k = x_clientUnRead x" using fail(3) assms(1) by (auto simp: gate_pass_def plain_inv_def)
  from plain_read [OF assms(1,2) fail(1)] obtain z where z: "c0 = x_up x @ d @ pending b @ z" "loop_reader b" by blast
  have "c0 = (x_up x @ take n d) @ drop n d @ pending b @ z" using z(1) by simp
  then show ?thesis
    using fail(4) z(2) k assms(1,2) by (auto simp: plain_inv_def written_def)
next
  case (sent d er b conn k out)
  have k: "conn = rsrc b" "k = x_clientUnRead x" using sent(3) assms(1) by (auto simp: gate_pass_def plain_inv_def)
  from plain_read [OF assms(1,2) sent(1)] obtain z where
    z: "c0 = x_up x @ d @ pending b @ z" "loop_reader b" "cl \<longrightarrow> (er = None \<longrightarrow> rerr b = None \<and> (clean (rsrc b) \<and> z = '''' \<or> rsrc b = closed_conn))
           \<and> (er = Some EOF \<longrightarrow> d = '''' \<and> pending b @ z = '''')" by blast
  show ?thesis unfolding sent(4)
    by (rule plain_inv_end [of c0 _ z]) (use assms(1,2) z k in \<open>auto simp: plain_inv_def written_def\<close>)
qed

lemma server_end_counts [simp]:
  "x_reqErr (server_end e x) = x_reqErr x" "x_inCount (server_end e x) = x_inCount x"
  "x_readSize (server_end e x) = x_readSize x" "x_outCount (server_end e x) = x_outCount x"
  "x_writeSize (server_end e x) = x_writeSize x" "x_down (server_end e x) = x_down x" "x_up (server_end e x) = x_up x"
  by (simp_all add: server_end_def)

lemma server_iter_panic: "x_panic (server_iter w x) = x_panic x" and server_iter_reqErr: "x_reqErr (server_iter w x) = x_reqErr x"
proof -
  obtain d e b where rd: "Reader_Read copy_size (x_server x) = (d, e, b)" by (metis prod_cases3)
  from server_iter_cases [OF rd, of w]
  show "x_panic (server_iter w x) = x_panic x" and "x_reqErr (server_iter w x) = x_reqErr x"
    by (auto simp: received_def)
qed

lemma plain_inv_server:
  assumes "plain_inv c0 cl x"
  shows "plain_inv c0 cl (server_iter w x)"
proof -
  note f = server_iter_frame [of w x]
  let ?x = "server_iter w x"
  obtain fut where fut: "c0 = x_up x @ fut" "x_req x = RLoop \<longrightarrow> x_reqErr x = None \<and> (\<exists>z. fut = pending (x_client x) @ z
                \<and> (cl \<longrightarrow> rerr (x_client x) = None \<and> (clean (rsrc (x_client x)) \<and> z = '''' \<or> rsrc (x_client x) = closed_conn)))"
    "cl \<and> x_req x \<noteq> RLoop \<and> x_reqErr x = None \<longrightarrow> fut = ''''" using assms unfolding plain_inv_def by blast
  have "x_req x = RLoop \<longrightarrow> x_reqErr x = None \<and> (\<exists>z. fut = pending (x_client ?x) @ z
                \<and> (cl \<longrightarrow> rerr (x_client ?x) = None \<and> (clean (rsrc (x_client ?x)) \<and> z = '''' \<or> rsrc (x_client ?x) = closed_conn)))"
    using f(7) fut(2) by (auto simp: pending_rsrc) (simp_all add: pending_def)
  moreover have "loop_reader (x_client ?x)" using f(7) assms by (auto simp: plain_inv_def loop_reader_def)
  moreover have "x_kept ?x = None" using f(8) assms by (auto simp: plain_inv_def)
  ultimately show ?thesis
    using assms fut unfolding plain_inv_def f(1,3,4,5) server_iter_panic server_iter_reqErr by blast
qed

lemma request_iter_no_panic: "x_clientUnRead x < 0 \<Longrightarrow> request_iter D r werr w x \<noteq> Some Panics"
  by (auto simp: request_iter_def request_gate_def Let_def split: prod.splits option.splits if_splits bool.splits)

lemma plain_inv_step:
  assumes "xfer_step D r x x'" and "plain_inv c0 cl x"
  shows "plain_inv c0 cl x'"
  using assms(1)
proof cases
  case client_panic
  then show ?thesis using assms(2) request_iter_no_panic by (auto simp: plain_inv_def)
next
  case client_loop
  then show ?thesis using plain_inv_loop [OF assms(2)] by blast
next
  case server_loop
  then show ?thesis using plain_inv_server [OF assms(2)] by blast
qed (use assms(2) in \<open>simp_all add: plain_inv_def\<close>)

lemma plain_inv_run: "xfer_run D r x y \<Longrightarrow> plain_inv c0 cl x \<Longrightarrow> plain_inv c0 cl y"
  by (induction rule: xfer_run.induct) (auto intro: plain_inv_step)

subsection \<open>Counting\<close>

definition count_inv :: "xfer \<Rightarrow> bool" where
  "count_inv x \<longleftrightarrow> x_inCount x = int (length (x_up x)) \<and> x_readSize x = x_inCount x
     \<and> x_outCount x = int (length (x_down x)) \<and> x_writeSize x = x_outCount x"

lemma count_inv_step:
  assumes "xfer_step D r x x'" and "count_inv x"
  shows "count_inv x'"
  using assms(1)
proof cases
  case (client_loop w werr)
  from client_loop(4) show ?thesis
    by (cases rule: request_iterE) (use assms(2) in \<open>auto simp: count_inv_def request_end_def written_def\<close>)
next
  case (server_loop w)
  obtain d e b where rd: "Reader_Read copy_size (x_server x) = (d, e, b)" by (metis prod_cases3)
  from server_iter_cases [OF rd, of w] show ?thesis
    unfolding server_loop(1) using assms(2) by (auto simp: count_inv_def received_def)
qed (use assms(2) in \<open>auto simp: count_inv_def\<close>)

lemma count_inv_run: "xfer_run D r x y \<Longrightarrow> count_inv x \<Longrightarrow> count_inv y"
  by (induction rule: xfer_run.induct) (auto intro: count_inv_step)

subsection \<open>Runs\<close>

lemma step_run: "xfer_step D r x y \<Longrightarrow> xfer_run D r x y"
  by (rule run_step [OF run_refl])

interpretation xfer_steps: terminating_steps "xfer_step D r" xfer_ok "\<lambda>x. xfer_done x \<or> x_panic x" xfer_order for D r
  by unfold_locales (auto intro: wf_xfer_order xfer_step_ok xfer_step_measure xfer_progress)

lemma xfer_run_steps: "(xfer_step D r)\<^sup>*\<^sup>* x y \<Longrightarrow> xfer_run D r x y"
  by (induction rule: rtranclp_induct) (auto intro: run_refl run_step)

lemma run_to_end: "xfer_ok x \<Longrightarrow> \<exists>y. xfer_run D r x y \<and> (xfer_done y \<or> x_panic y)"
  using xfer_steps.reaches_final [of x D r] xfer_run_steps by blast

lemma loop_reader_NewReader: "loop_reader (NewReader c)"
  by (simp add: loop_reader_def NewReader_work_simps)

subsection \<open>Properties\<close>



text \<open>The streams of a connection that is copied until one side ends.\<close>

lemma tunnel_streams:
  assumes "loop_reader b" and "n < 0" and "xfer_run D r (transfer_start b server n) x"
  shows "(\<exists>s. pending b = x_up x @ s
      \<and> (rerr b = None \<and> clean (rsrc b) \<and> x_req x \<noteq> RLoop \<and> x_reqErr x = None \<longrightarrow> s = ''''))
    \<and> (\<exists>s. conn_bytes server = x_down x @ s \<and> (clean server \<and> x_srvDone x \<and> x_srvErr x = None \<longrightarrow> s = ''''))
    \<and> x_kept x = None \<and> \<not> x_panic x"
  using plain_inv_run [OF assms(3) plain_inv_start [OF assms(1,2)]] server_inv_run [OF assms(3) server_inv_start]
  unfolding plain_inv_def server_inv_def by blast

text \<open>
  C2: a tunnel without keep-alive is transparent: at every moment the server has received a
  prefix of what the client sent and the client a prefix of what the server sent; when a
  loop ends without an error on a connection that delivered bytes until its end, everything
  was copied. No connection is handed on and nothing panics.
\<close>

theorem tunnel_transparent:
  assumes "loop_reader b" and "n < 0" and "xfer_run D r (transfer_start b server n) x"
  shows "(\<exists>s. pending b = x_up x @ s
      \<and> (rerr b = None \<and> clean (rsrc b) \<and> x_req x \<noteq> RLoop \<and> x_reqErr x = None \<longrightarrow> s = ''''))
    \<and> (\<exists>s. conn_bytes server = x_down x @ s \<and> (clean server \<and> x_srvDone x \<and> x_srvErr x = None \<longrightarrow> s = ''''))
    \<and> x_kept x = None \<and> \<not> x_panic x"
  by (rule tunnel_streams [OF assms])

theorem tunnel_transparent_witness:
  "\<exists>x s s'. xfer_run xor_cipher empty_router (transfer_start (NewReader [(''ab'', None)]) [(''xy'', None)] (-1)) x
     \<and> xfer_done x \<and> ''ab'' = x_up x @ s \<and> ''xy'' = x_down x @ s'"
proof -
  obtain x where x: "xfer_run xor_cipher empty_router (transfer_start (NewReader [(''ab'', None)]) [(''xy'', None)] (-1)) x"
    "xfer_done x \<or> x_panic x" using run_to_end [OF transfer_start_ok [OF loop_reader_NewReader]] by blast
  have "conn_bytes [(''xy'', None)] = ''xy''" "pending (NewReader [(''ab'', None)]) = ''ab''"
    by (simp_all add: conn_bytes_def pending_NewReader)
  with tunnel_transparent [OF loop_reader_NewReader _ x(1)] x(2)
  have "xfer_done x" "\<exists>s. ''ab'' = x_up x @ s" "\<exists>s. ''xy'' = x_down x @ s" by simp_all blast+
  with x(1) show ?thesis by blast
qed

text \<open>
  What the server received from the client, followed by the chunk kept for the next
  request, is what the client sent with at most one gap: the bytes a probe took out of
  the connection.
\<close>

theorem upstream_one_gap:
  assumes "loop_reader b" and "xfer_run D r (transfer_start b server n) x"
  shows "\<exists>u l v s. x_up x @ chunk x = u @ v \<and> pending b = u @ l @ v @ s"
  using client_inv_run [OF assms(2) client_inv_start [OF assms(1)]]
  unfolding client_inv_def stream_inv_def by blast

theorem upstream_one_gap_witness:
  "\<exists>x u l v s. xfer_run xor_cipher empty_router (transfer_start (NewReader [(''ab'', None)]) [(''xy'', None)] 1) x
     \<and> (xfer_done x \<or> x_panic x) \<and> x_up x @ chunk x = u @ v \<and> ''ab'' = u @ l @ v @ s"
proof -
  obtain x where x: "xfer_run xor_cipher empty_router (transfer_start (NewReader [(''ab'', None)]) [(''xy'', None)] 1) x"
    "xfer_done x \<or> x_panic x" using run_to_end [OF transfer_start_ok [OF loop_reader_NewReader]] by blast
  have "pending (NewReader [(''ab'', None)]) = ''ab''" by (simp add: conn_bytes_def pending_NewReader)
  with upstream_one_gap [OF loop_reader_NewReader x(1)] x show ?thesis by metis
qed

text \<open>
  The byte counters of a tunnel are exact in both directions: the traffic reported is
  the traffic written.
\<close>

theorem transfer_counts:
  assumes "xfer_run D r (transfer_start b server n) x"
  shows "x_inCount x = int (length (x_up x)) \<and> x_readSize x = x_inCount x
    \<and> x_outCount x = int (length (x_down x)) \<and> x_writeSize x = x_outCount x"
proof -
  have "count_inv (transfer_start b server n)" by (simp add: count_inv_def transfer_start_def)
  from count_inv_run [OF assms this] show ?thesis by (simp add: count_inv_def)
qed

theorem transfer_counts_witness:
  "x_inCount (transfer_start (NewReader []) [] 0) = int (length (x_up (transfer_start (NewReader []) [] 0)))"
  using transfer_counts [OF run_refl, of "NewReader []" "[]" 0] by simp

text \<open>
  C7: a connection is handed to the next request only at the boundary of the body: the
  server has received exactly the bytes of the body, its connection is closed for writing,
  and the chunk handed on is what the client sent next, or empty when the server's end
  overtook the assignment of the chunk.
\<close>

theorem keep_alive_boundary:
  assumes "loop_reader b" and "xfer_run D r (transfer_start b server n) x" and "x_kept x = Some k"
  shows "0 \<le> n \<and> x_up x = take (nat n) (pending b) \<and> x_upClosed x
    \<and> (k = '''' \<or> (\<exists>s. drop (nat n) (pending b) = k @ s))"
proof -
  have inv: "pc_inv n x" "keep_inv (pending b) n x"
    using client_inv_run [OF assms(2) client_inv_start [OF assms(1)]] by (simp_all add: client_inv_def)
  have "keeping x" "k = '''' \<or> k = chunk x" using inv(1) assms(3) by (auto simp: pc_inv_def keeping_def)
  then show ?thesis using inv(2) by (auto simp: keep_inv_def)
qed

subsection \<open>The race at the end of a kept connection\<close>

lemma read_one_chunk:
  assumes "length d \<le> copy_size"
  shows "\<exists>b. Reader_Read copy_size (NewReader [(d, None)]) = (d, None, b) \<and> rsrc b = []"
proof -
  let ?b = "NewReader [(d, None)]"
  obtain d' e b where rd: "Reader_Read copy_size ?b = (d', e, b)" by (metis prod_cases3)
  have "rpos ?b = wpos ?b" by (simp add: NewReader_def NewReaderSize_def Reader_reset_def)
  from Reader_Read_direct [OF this loop_reader_NewReader _ rd] assms rd show ?thesis
    by (simp add: NewReader_work_simps)
qed

lemma server_iter_EOF:
  assumes "x_server x = NewReader []"
  shows "\<exists>b. server_iter w x = server_end (Some EOF) (x\<lparr>x_server := b\<rparr>)"
proof -
  obtain d e b where rd: "Reader_Read copy_size (NewReader []) = (d, e, b)" by (metis prod_cases3)
  have "rpos (NewReader []) = wpos (NewReader [])" by (simp add: NewReader_def NewReaderSize_def Reader_reset_def)
  from Reader_Read_direct [OF this loop_reader_NewReader _ rd] have "d = ''''" "e = Some EOF"
    by (simp_all add: NewReader_work_simps)
  with rd assms show ?thesis by (auto simp: server_iter_def)
qed

lemma kept_chunk_step:
  assumes "isKeepAliveHttp D r None [] req = Some (Returns (True, [], ''''))" and "0 < length req" and "length req \<le> copy_size"
  shows "\<exists>x. xfer_step D r (transfer_start (NewReader [(req, None)]) [] 0) x \<and> x_req x = RKeep req
    \<and> x_curState x = StActive \<and> x_buf x = '''' \<and> x_server x = NewReader [] \<and> \<not> x_srvDone x \<and> \<not> x_panic x \<and> x_kept x = None"
proof -
  let ?s = "transfer_start (NewReader [(req, None)]) [] 0"
  obtain b where b: "Reader_Read copy_size (NewReader [(req, None)]) = (req, None, b)" "rsrc b = []"
    using read_one_chunk [OF assms(3)] by blast
  have "\<exists>x. request_iter D r None full_writer ?s = Some (Returns x) \<and> x_req x = RKeep req
    \<and> x_curState x = StActive \<and> x_buf x = '''' \<and> x_server x = NewReader [] \<and> \<not> x_srvDone x \<and> \<not> x_panic x \<and> x_kept x = None"
    using b assms(1,2) by (simp add: request_iter_def request_gate_def transfer_start_def)
  then show ?thesis using client_loop [of ?s full_writer D r None] full_writer_ok by (fastforce simp: transfer_start_def)
qed

text \<open>
  C40: the hand-over races: the goroutine of the client closes the server's connection for
  writing before it marks the tunnel idle and saves the chunk. When the server's end
  arrives in between, the client's connection is closed instead of reused, or it is reused
  without the chunk, and the request is lost; only in the third order is it handed on.
\<close>

theorem keep_alive_race:
  assumes "isKeepAliveHttp D r None [] req = Some (Returns (True, [], ''''))" and "0 < length req" and "length req \<le> 4096"
  shows "(\<exists>x. xfer_run D r (transfer_start (NewReader [(req, None)]) [] 0) x \<and> xfer_done x \<and> x_kept x = Some req)
    \<and> (\<exists>x. xfer_run D r (transfer_start (NewReader [(req, None)]) [] 0) x \<and> xfer_done x \<and> x_kept x = Some '''')
    \<and> (\<exists>x. xfer_run D r (transfer_start (NewReader [(req, None)]) [] 0) x \<and> xfer_done x \<and> x_kept x = None \<and> x_clientClosed x)"
proof -
  let ?s = "transfer_start (NewReader [(req, None)]) [] 0"
  have l: "length req \<le> copy_size" using assms(3) by (simp add: copy_size_def)
  obtain x where x: "xfer_run D r ?s x" "x_req x = RKeep req" "x_curState x = StActive" "x_buf x = ''''"
    "x_server x = NewReader []" "\<not> x_srvDone x" "\<not> x_panic x" "x_kept x = None"
    using kept_chunk_step [OF assms(1,2) l] step_run by blast
  define y where "y = x\<lparr>x_curState := StIdle, x_req := RIdle req\<rparr>"
  define z where "z = y\<lparr>x_buf := req, x_req := RDone\<rparr>"
  have y: "xfer_run D r ?s y" unfolding y_def by (rule run_step [OF x(1)]) (rule client_keep [OF x(7,2)])
  have z: "xfer_run D r ?s z" unfolding z_def by (rule run_step [OF y]) (rule client_idle; simp add: y_def x)
  have srv: "xfer_step D r v (server_iter full_writer v)" if "\<not> x_panic v" "\<not> x_srvDone v" for v
    using that by (intro server_loop full_writer_ok)
  have 1: "xfer_run D r ?s (server_iter full_writer z) \<and> xfer_done (server_iter full_writer z)
      \<and> x_kept (server_iter full_writer z) = Some req"
    using run_step [OF z srv] server_iter_EOF [of z full_writer] x
    by (auto simp: y_def z_def server_end_def xfer_done_def)
  let ?y = "(server_iter full_writer y)\<lparr>x_buf := req, x_req := RDone\<rparr>"
  have "x_req (server_iter full_writer y) = RIdle req" "\<not> x_panic (server_iter full_writer y)"
    "xfer_run D r ?s (server_iter full_writer y)" "x_srvDone (server_iter full_writer y)" "x_kept (server_iter full_writer y) = Some ''''"
    using run_step [OF y srv] server_iter_EOF [of y full_writer] x by (auto simp: y_def server_end_def)
  then have 2: "xfer_run D r ?s ?y \<and> xfer_done ?y \<and> x_kept ?y = Some ''''"
    using client_idle [of "server_iter full_writer y" req D r] run_step by (auto simp: xfer_done_def)
  let ?x = "server_iter full_writer x"
  have c: "x_req ?x = RKeep req" "\<not> x_panic ?x" "xfer_run D r ?s ?x" "x_srvDone ?x" "x_kept ?x = None" "x_clientClosed ?x"
    using run_step [OF x(1) srv] server_iter_EOF [of x full_writer] x by (auto simp: server_end_def)
  let ?v = "?x\<lparr>x_curState := StIdle, x_req := RIdle req\<rparr>"
  have "xfer_run D r ?s ?v" by (rule run_step [OF c(3)]) (rule client_keep [OF c(2,1)])
  then have "xfer_run D r ?s (?v\<lparr>x_buf := req, x_req := RDone\<rparr>)"
    by (rule run_step) (rule client_idle; simp add: c)
  with c have 3: "\<exists>v. xfer_run D r ?s v \<and> xfer_done v \<and> x_kept v = None \<and> x_clientClosed v"
    by (intro exI [of _ "?v\<lparr>x_buf := req, x_req := RDone\<rparr>"]) (simp add: xfer_done_def)
  from 1 2 3 show ?thesis by blast
qed

lemma demo_request_length: "0 < length demo_request" "length demo_request \<le> 4096"
  by (simp add: demo_request_def) (code_simp)

lemma demo_probe_Nil: "isKeepAliveHttp xor_cipher empty_router None [] demo_request = Some (Returns (True, [], ''''))"
  by (rule demo_probe)

theorem keep_alive_race_witness:
  "\<exists>x. xfer_run xor_cipher empty_router (transfer_start (NewReader [(demo_request, None)]) [] 0) x
     \<and> xfer_done x \<and> x_kept x = None \<and> x_clientClosed x"
  using keep_alive_race [OF demo_probe_Nil demo_request_length] by blast

text \<open>A run in which the connection is handed on, for the witness of the boundary.\<close>

lemma demo_kept:
  "\<exists>x k. xfer_run xor_cipher empty_router (transfer_start (NewReader [(demo_request, None)]) [] 0) x \<and> x_kept x = Some k"
proof -
  let ?s = "transfer_start (NewReader [(demo_request, None)]) [] 0"
  have "length demo_request \<le> copy_size" using demo_request_length by (simp add: copy_size_def)
  from kept_chunk_step [OF demo_probe_Nil demo_request_length(1) this] obtain x where
    x: "xfer_step xor_cipher empty_router ?s x" "x_req x = RKeep demo_request" "x_server x = NewReader []"
      "\<not> x_srvDone x" "\<not> x_panic x" by blast
  let ?y = "x\<lparr>x_curState := StIdle, x_req := RIdle demo_request\<rparr>"
  have y: "xfer_run xor_cipher empty_router ?s ?y"
    by (rule run_step [OF step_run [OF x(1)]]) (rule client_keep [OF x(5,2)])
  have "xfer_step xor_cipher empty_router ?y (server_iter full_writer ?y)"
    using x by (intro server_loop full_writer_ok) simp_all
  from run_step [OF y this] server_iter_EOF [of ?y full_writer] x(3) show ?thesis
    by (auto simp: server_end_def)
qed

theorem keep_alive_boundary_witness:
  "\<exists>x k. xfer_run xor_cipher empty_router (transfer_start (NewReader [(demo_request, None)]) [] 0) x \<and> x_kept x = Some k
     \<and> x_up x = '''' \<and> x_upClosed x \<and> (k = '''' \<or> (\<exists>s. demo_request = k @ s))"
proof -
  obtain x k where x: "xfer_run xor_cipher empty_router (transfer_start (NewReader [(demo_request, None)]) [] 0) x"
    "x_kept x = Some k" using demo_kept by blast
  have "pending (NewReader [(demo_request, None)]) = demo_request" by (simp add: pending_NewReader conn_bytes_def)
  with keep_alive_boundary [OF loop_reader_NewReader x] x show ?thesis by auto
qed

subsection \<open>Requests that are pipelined\<close>

text \<open>A chunk that is longer than what is left of the body ends the counting for good.\<close>

definition over_inv :: "string \<Rightarrow> conn_in \<Rightarrow> int \<Rightarrow> xfer \<Rightarrow> bool" where
  "over_inv d nxt n x \<longleftrightarrow>
     x_kept x = None \<and> \<not> keeping x \<and> \<not> x_panic x \<and> (\<forall>d. x_req x \<noteq> RIdle d)
     \<and> (x_clientUnRead x < 0 \<or> x_req x \<noteq> RLoop
        \<or> x_clientUnRead x = n \<and> (x_client x = NewReader ((d, None) # nxt)
              \<or> x_client x = (NewReader ((d, None) # nxt))\<lparr>rsrc := closed_conn\<rparr>))"

lemma over_read:
  assumes "over_inv d nxt n x" and "x_req x = RLoop" and "x_clientUnRead x \<ge> 0" and "length d \<le> copy_size"
    and "Reader_Read copy_size (x_client x) = (d', er, b)"
  shows "d' = d \<or> d' = '''' \<and> er \<noteq> None"
proof -
  let ?b = "NewReader ((d, None) # nxt)"
  have p: "rpos ?b = wpos ?b" "rpos (?b\<lparr>rsrc := closed_conn\<rparr>) = wpos (?b\<lparr>rsrc := closed_conn\<rparr>)"
    by (simp_all add: NewReader_def NewReaderSize_def Reader_reset_def)
  have l: "loop_reader ?b" "loop_reader (?b\<lparr>rsrc := closed_conn\<rparr>)" "rerr ?b = None" "rerr (?b\<lparr>rsrc := closed_conn\<rparr>) = None"
    by (simp_all add: loop_reader_def NewReader_work_simps)
  have "x_client x = ?b \<or> x_client x = ?b\<lparr>rsrc := closed_conn\<rparr>" using assms(1-3) by (auto simp: over_inv_def)
  then show ?thesis
  proof
    assume c: "x_client x = ?b"
    from Reader_Read_direct [OF p(1) l(1,3) assms(5) [unfolded c]] assms(4) show ?thesis
      by (simp add: NewReader_work_simps)
  next
    assume c: "x_client x = ?b\<lparr>rsrc := closed_conn\<rparr>"
    from Reader_Read_direct [OF p(2) l(2,4) assms(5) [unfolded c]] show ?thesis
      by (auto simp: closed_conn_def)
  qed
qed

lemma over_inv_loop:
  assumes "over_inv d nxt n x" and "x_req x = RLoop" and "0 < n" and "n < int (length d)" and "length d \<le> copy_size"
    and "request_iter D r werr w x = Some (Returns x')"
  shows "over_inv d nxt n x'"
  using assms(6)
proof (cases rule: request_iterE)
  case (empty d' er b)
  from over_read [OF assms(1,2) _ assms(5) empty(1)] empty assms(1-4) show ?thesis
    by (cases er) (auto simp: over_inv_def request_end_def keeping_def)
next
  case keep
  then show ?thesis using assms(1-3) by (auto simp: over_inv_def)
next
  case (fail d' er b conn k out m err)
  then show ?thesis using assms(1,2) by (auto simp: over_inv_def written_def keeping_def)
next
  case (sent d' er b conn k out)
  have "x_clientUnRead x < 0 \<or> x_clientUnRead x = n \<and> d' = d"
    using over_read [OF assms(1,2) _ assms(5) sent(1)] sent(2) assms(1-3) by (auto simp: over_inv_def)
  then have "k < 0" using sent(3) assms(3,4) by (auto simp: gate_pass_def)
  then show ?thesis using sent(4) assms(1,2) by (auto simp: over_inv_def written_def request_end_def keeping_def)
qed

lemma over_inv_step:
  assumes "xfer_step D r x x'" and "over_inv d nxt n x" and "0 < n" and "n < int (length d)" and "length d \<le> copy_size"
  shows "over_inv d nxt n x'"
  using assms(1)
proof cases
  case client_loop
  then show ?thesis using over_inv_loop [OF assms(2) _ assms(3-5)] by blast
next
  case (client_panic werr w)
  have "x_clientUnRead x \<noteq> 0" using assms(2,3) client_panic(3) by (auto simp: over_inv_def)
  then have "request_iter D r werr w x \<noteq> Some Panics"
    by (auto simp: request_iter_def request_gate_def Let_def split: prod.splits option.splits if_splits bool.splits)
  with client_panic show ?thesis by blast
next
  case (server_loop w)
  note f = server_iter_frame [of w x]
  from f(7,8) assms(2) show ?thesis
    unfolding server_loop(1) by (auto simp: over_inv_def keeping_def f(3-5) server_iter_panic)
qed (use assms(2) in \<open>auto simp: over_inv_def keeping_def\<close>)

text \<open>
  A request that is pipelined in the same read as the end of the body before it is
  sent to the old server with everything after it: the connection is never handed on, and
  all the bytes go where the first request went.
\<close>

theorem pipelined_not_kept:
  assumes "0 < n" and "n < int (length d)" and "length d \<le> 4096"
    and "xfer_run D r (transfer_start (NewReader ((d, None) # nxt)) server n) x"
  shows "x_kept x = None \<and> x_curState x \<noteq> StIdle"
proof -
  have "length d \<le> copy_size" using assms(3) by (simp add: copy_size_def)
  moreover have "over_inv d nxt n (transfer_start (NewReader ((d, None) # nxt)) server n)"
    by (simp add: over_inv_def transfer_start_def keeping_def)
  with assms(4) have "over_inv d nxt n x"
    by (induction rule: xfer_run.induct) (use over_inv_step assms(1,2) calculation in blast)+
  then show ?thesis by (auto simp: over_inv_def keeping_def)
qed

theorem pipelined_not_kept_witness:
  "\<exists>x. xfer_run xor_cipher empty_router (transfer_start (NewReader [(''body'' @ demo_request, None)]) [] 4) x
     \<and> (xfer_done x \<or> x_panic x) \<and> x_kept x = None"
proof -
  obtain x where x: "xfer_run xor_cipher empty_router (transfer_start (NewReader [(''body'' @ demo_request, None)]) [] 4) x"
    "xfer_done x \<or> x_panic x" using run_to_end [OF transfer_start_ok [OF loop_reader_NewReader]] by blast
  have "length demo_request \<le> 100" by code_simp
  with pipelined_not_kept [OF _ _ _ x(1)] demo_request_length x show ?thesis by auto
qed

end
