(* ===== verification/Handlers.thy ===== *)
theory Handlers
  imports Nat_Tunnel Copying_Streams
begin

section \<open>Answering a request\<close>

text \<open>
  The methods \<open>response\<close> of the four streams (\<open>proto/http.go\<close>, \<open>proto/socks5.go\<close>,
  \<open>proto/stream.go\<close>, \<open>proto/tcpcopy.go\<close>), the original destination of a redirected
  connection (\<open>proto/stream_addr.go\<close> and its Windows variant), and the handlers the graceful
  server calls (\<open>proto/client.go\<close>, \<open>proto/server.go\<close>, \<open>proto/keep.go\<close>). A response ends with
  the start of the copying loops, whose model is in the theories on copying; what it has
  done until then is its answer. Results are wrapped as in the theory of HTTP requests.
\<close>

subsection \<open>Writing to the server\<close>

text \<open>
  The connection to the server: what it has received, the outcomes of the coming writes (a
  write without a given outcome succeeds), and the total the inbound counter was given.
\<close>

record up_conn =
  up_out :: string
  up_writers :: "writer list"
  up_count :: int

definition up_start :: "writer list \<Rightarrow> up_conn" where
  "up_start ws = \<lparr>up_out = '''', up_writers = ws, up_count = 0\<rparr>"

definition tunnel_Write :: "up_conn \<Rightarrow> string \<Rightarrow> go_err option \<times> up_conn" where
  "tunnel_Write u p =
     (let (w, ws) = (case up_writers u of [] \<Rightarrow> ((\<lambda>n. (n, None)), []) | w # ws \<Rightarrow> (w, ws));
          (n, err) = w (length p)
      in (err, u\<lparr>up_out := up_out u @ take n p, up_writers := ws, up_count := up_count u + int n\<rparr>))"

text \<open>The head of an HTTP request; the outcomes of the writes are ignored.\<close>

definition send_head :: "http_stream \<Rightarrow> up_conn \<Rightarrow> up_conn" where
  "send_head hs u =
     (let u = snd (tunnel_Write u (hs_FirstLine hs @ crlf));
          u = snd (Header_Write tunnel_Write (hs_Header hs) u);
          u = snd (tunnel_Write u crlf)
      in snd (tunnel_Write u (hs_BodyBuf hs)))"

subsection \<open>The answer\<close>

text \<open>
  The error of \<open>response\<close>, what it has written to the client and to the server, the reader
  and the count of unread bytes the copying loops are started with, the messages sent
  through the websocket, and the network afterwards.
\<close>

record answer =
  an_err :: "go_err option"
  an_out :: string
  an_up :: string
  an_copy :: "(tcp_reader \<times> int) option"
  an_ws :: "(nat \<times> message list) option"
  an_world :: world

definition refused :: "go_err option \<Rightarrow> string \<Rightarrow> world \<Rightarrow> answer" where
  "refused err out w = \<lparr>an_err = err, an_out = out, an_up = '''', an_copy = None, an_ws = None, an_world = w\<rparr>"

definition copied :: "string \<Rightarrow> string \<Rightarrow> tcp_reader \<Rightarrow> int \<Rightarrow> world \<Rightarrow> answer" where
  "copied out up b n w = \<lparr>an_err = None, an_out = out, an_up = up, an_copy = Some (b, n), an_ws = None, an_world = w\<rparr>"

text \<open>
  What a process has around a request: the network, the settings and the configuration, the
  state of the websocket server and the order of its map, the number of the request, the
  client's address, and the outcomes of writing to the client and to the server.
\<close>

record proc =
  p_env :: net_env
  p_cfg :: settings
  p_router :: router
  p_nat :: nat_server
  p_ord :: "nat \<Rightarrow> nat"
  p_ID :: "64 word"
  p_remote :: string
  p_werr :: "go_err option"
  p_writers :: "writer list"

definition established :: string where
  "established = ''HTTP/1.1 200 Connection established'' @ crlf @ crlf"

definition special_header :: string where
  "special_header = ''Anyproxy-Action''"

text \<open>The buffer a websocket transfer starts with.\<close>

definition ws_buffer :: "http_stream \<Rightarrow> string" where
  "ws_buffer hs = hs_FirstLine hs @ crlf @ header_wire (hs_Header hs) @ crlf @ hs_BodyBuf hs"

subsection \<open>proto/http.go\<close>

text \<open>The branch of \<open>response\<close> without the websocket.\<close>

definition http_forward :: "proc \<Rightarrow> http_stream \<Rightarrow> request \<Rightarrow> world \<Rightarrow> answer run" where
  "http_forward P hs rq w =
     (let (name, ip, port) = rq_dst rq; t = newTunnel (p_remote P)
      in if hs_Method hs = ''CONNECT'' then
           (case handshake (p_env P) (p_cfg P) (p_router P) ProtoHTTPS name '''' port (t, w) of
              Panics \<Rightarrow> Some Panics
            | Returns (Some err, t, w) \<Rightarrow> Some (Returns (refused (Some err) '''' w))
            | Returns (None, t, w) \<Rightarrow>
                if p_werr P \<noteq> None then Some (Returns (refused (p_werr P) '''' w))
                else Some (Returns (copied established '''' (rq_reader rq) (-1) w)))
         else
           (case Request_str hs of
              Panics \<Rightarrow> Some Panics
            | Returns _ \<Rightarrow>
                (case handshake (p_env P) (p_cfg P) (p_router P) ProtoHTTP name '''' port (t, w) of
                   Panics \<Rightarrow> Some Panics
                 | Returns (Some err, t, w) \<Rightarrow> Some (Returns (refused (Some err) '''' w))
                 | Returns (None, t, w) \<Rightarrow>
                     Some (Returns (copied '''' (up_out (send_head hs (up_start (p_writers P))))
                       (rq_reader rq) (hs_clientUnRead hs) w)))))"

definition http_response :: "proc \<Rightarrow> http_stream \<Rightarrow> request \<Rightarrow> world \<Rightarrow> answer run" where
  "http_response P hs rq w =
     (if hs_Method hs \<noteq> ''CONNECT'' \<and> Eable (p_nat P) \<and> Header_Get (hs_Header hs) special_header = ''websocket'' then
        let hs = hs\<lparr>hs_Header := Header_Del special_header (hs_Header hs)\<rparr>
        in if ws_getTarget (p_router P) (fst (rq_dst rq)) then
             (case ws_transfer (p_ord P) (hs_Header hs) (ServerHub (p_nat P)) (p_ID P) (ws_buffer hs) (rq_reader rq) of
                None \<Rightarrow> None
              | Some (Some sent) \<Rightarrow>
                  (case Request_str hs of
                     Panics \<Rightarrow> Some Panics
                   | Returns _ \<Rightarrow>
                       Some (Returns \<lparr>an_err = None, an_out = '''', an_up = '''', an_copy = None, an_ws = Some sent, an_world = w\<rparr>))
              | Some None \<Rightarrow> http_forward P hs rq w)
           else http_forward P hs rq w
      else http_forward P hs rq w)"

subsection \<open>proto/socks5.go\<close>

definition socks_response :: "proc \<Rightarrow> request \<Rightarrow> world \<Rightarrow> answer run" where
  "socks_response P rq w =
     (let (name, ip, port) = rq_dst rq; t = newTunnel (p_remote P)
      in if p_werr P \<noteq> None then Some (Returns (refused (p_werr P) '''' w))
         else case handshake (p_env P) (p_cfg P) (p_router P) ProtoTCP name ip port (t, w) of
             Panics \<Rightarrow> Some Panics
           | Returns (Some err, t, w) \<Rightarrow> Some (Returns (refused (Some err) socks_reply w))
           | Returns (None, t, w) \<Rightarrow> Some (Returns (copied socks_reply '''' (rq_reader rq) (-1) w)))"

subsection \<open>proto/stream\_addr.go\<close>

text \<open>
  What the socket option of the original destination gives: one of the system calls fails,
  the new connection is not a TCP one, or the bytes of the socket address.
\<close>

datatype orig_dst = OrigErr go_err | OrigNotTCP | OrigAddr string

text \<open>
  The destination, whether a new connection has been opened, and the error. A connection
  from the destination's own address to this process's port is taken for a loop.
\<close>

definition GetOriginalDstAddr :: "settings \<Rightarrow> string \<Rightarrow> orig_dst \<Rightarrow> string \<times> 16 word \<times> bool \<times> go_err option" where
  "GetOriginalDstAddr cfg srcipport orig =
     (case orig of
        OrigErr err \<Rightarrow> ('''', 0, False, Some err)
      | OrigNotTCP \<Rightarrow> ('''', 0, False, Some (ErrMsg ''newConn is not a *net.TCPConn''))
      | OrigAddr a \<Rightarrow>
          let dstIP = IP_String [a ! 4, a ! 5, a ! 6, a ! 7];
              dstPort = push_bit 8 (of_char (a ! 2) :: 16 word) + of_char (a ! 3);
              ipArr = Split srcipport '':''
          in (dstIP, dstPort, True,
              if ipArr ! 0 = dstIP \<and> dstPort = ListenPort cfg then Some (ErrMsg ''may be loop call'') else None))"

definition GetOriginalDstAddr_windows :: "string \<times> 16 word \<times> bool \<times> go_err option" where
  "GetOriginalDstAddr_windows = ('''', 0, False, Some (ErrMsg ''ERR: windows can not work''))"

subsection \<open>proto/stream.go\<close>

text \<open>The reader of the new connection sees what the old one has not delivered yet.\<close>

definition tcp_response :: "proc \<Rightarrow> string \<times> 16 word \<times> bool \<times> go_err option \<Rightarrow> request \<Rightarrow> world \<Rightarrow> answer run" where
  "tcp_response P orig rq w =
     (case orig of (dstIP, dstPort, newTCPConn, err) \<Rightarrow>
        if err \<noteq> None then Some (Returns (refused err '''' w))
        else case handshake (p_env P) (p_cfg P) (p_router P) ProtoTCP '''' dstIP dstPort (newTunnel (p_remote P), w) of
            Panics \<Rightarrow> Some Panics
          | Returns (Some err, t, w) \<Rightarrow> Some (Returns (refused (Some err) '''' w))
          | Returns (None, t, w) \<Rightarrow>
              (case UnreadBuf (-1) (rq_reader rq) of (tmpBuf, b) \<Rightarrow>
                 Some (Returns (copied '''' (up_out (snd (tunnel_Write (up_start (p_writers P)) tmpBuf)))
                   (NewReader (rsrc b)) (-1) w))))"

subsection \<open>proto/tcpcopy.go\<close>

definition tcpcopy_response :: "proc \<Rightarrow> request \<Rightarrow> world \<Rightarrow> answer run" where
  "tcpcopy_response P rq w =
     (let t = newTunnel (p_remote P); (ip, ok) = isAllowed (p_router P) t []
      in if \<not> ok then Some (Returns (refused (Some (ErrMsg (ip @ '' is not allowed''))) '''' w))
         else
           let dstIP = tc_IP (r_TcpCopy (p_router P)); dstPort = tc_Port (r_TcpCopy (p_router P));
               ((network, connAddr), t, w) = buildAddress (p_env P) '''' dstIP dstPort True (t, w)
           in if connAddr = '''' then Some (Returns (refused (Some (ErrMsg ''target address is empty'')) '''' w))
              else case dail (p_env P) network connAddr 0 (t, w) of
                  (Some err, t, w) \<Rightarrow> Some (Returns (refused (Some err) '''' w))
                | (None, t, w) \<Rightarrow> Some (Returns (copied '''' '''' (rq_reader rq) (-1) w)))"

text \<open>The stream chooses the response; there always is a stream when a request was read.\<close>

definition response :: "proc \<Rightarrow> string \<times> 16 word \<times> bool \<times> go_err option \<Rightarrow> request \<Rightarrow> world \<Rightarrow> answer run" where
  "response P orig rq w =
     (case rq_Stream rq of
        NoStream \<Rightarrow> Some Panics
      | HttpStream hs \<Rightarrow> http_response P hs rq w
      | Socks5Stream \<Rightarrow> socks_response P rq w
      | TcpStream \<Rightarrow> tcp_response P orig rq w
      | TcpCopyStream \<Rightarrow> tcpcopy_response P rq w)"

subsection \<open>proto/client.go, proto/server.go, proto/keep.go\<close>

text \<open>
  Reading, then the checks of the handler, then the response. What reading a SOCKS5 request
  has written to the client is part of the answer. The remote address of an open connection
  is never nil; \<open>p_remote\<close> is its text.
\<close>

definition handle ::
  "proc \<Rightarrow> string \<Rightarrow> (request \<Rightarrow> go_err option) \<Rightarrow> string \<times> 16 word \<times> bool \<times> go_err option \<Rightarrow> request \<Rightarrow> world \<Rightarrow> answer run" where
  "handle P from check orig rq w =
     (case ReadRequest (net_aes_dec (p_env P)) (p_router P) (p_werr P) from rq of
        None \<Rightarrow> None
      | Some Panics \<Rightarrow> Some Panics
      | Some (Returns (ok, err, rq)) \<Rightarrow>
          if err \<noteq> None \<and> \<not> ok then Some (Returns (refused err (rq_written rq) w))
          else case check rq of
              Some err \<Rightarrow> Some (Returns (refused (Some err) (rq_written rq) w))
            | None \<Rightarrow>
                map_option (map_outcome (\<lambda>a. a\<lparr>an_out := rq_written rq @ an_out a\<rparr>)) (response P orig rq w))"

definition ClientHandler :: "proc \<Rightarrow> orig_dst \<Rightarrow> conn_in \<Rightarrow> world \<Rightarrow> answer run" where
  "ClientHandler P orig conn w =
     handle P ''client'' (\<lambda>rq. None) (GetOriginalDstAddr (p_cfg P) (p_remote P) orig) (NewRequest conn) w"

text \<open>The server accepts the encrypted CONNECT requests of its clients only.\<close>

definition server_check :: "request \<Rightarrow> go_err option" where
  "server_check rq =
     (if rq_Proto rq \<noteq> ''http'' then Some (ErrMsg ''Not http method'')
      else case rq_Stream rq of
          HttpStream hs \<Rightarrow> if hs_Method hs \<noteq> ''CONNECT'' then Some (ErrMsg ''Not CONNECT method'') else None
        | _ \<Rightarrow> Some (ErrMsg ''Not CONNECT method''))"

definition ServerHandler :: "proc \<Rightarrow> orig_dst \<Rightarrow> conn_in \<Rightarrow> world \<Rightarrow> answer run" where
  "ServerHandler P orig conn w =
     handle P ''server'' server_check (GetOriginalDstAddr (p_cfg P) (p_remote P) orig) (NewRequest conn) w"

definition keep_check :: "string \<Rightarrow> request \<Rightarrow> go_err option" where
  "keep_check buf rq =
     (if rq_Proto rq \<noteq> ''http'' then Some (ErrMsg (''is not http request '' @ rq_Proto rq @ '': '' @ buf)) else None)"

definition KeepHandler :: "proc \<Rightarrow> orig_dst \<Rightarrow> conn_in \<Rightarrow> string \<Rightarrow> world \<Rightarrow> answer run" where
  "KeepHandler P orig conn buf w =
     handle P ''client'' (keep_check buf) (GetOriginalDstAddr (p_cfg P) (p_remote P) orig) (NewRequestWithBuf conn buf) w"

subsection \<open>What a response sends\<close>

lemma tunnel_Write_full:
  "up_writers u = [] \<Longrightarrow> tunnel_Write u p = (None, u\<lparr>up_out := up_out u @ p, up_count := up_count u + int (length p)\<rparr>)"
  by (simp add: tunnel_Write_def)

lemma write_strings_full:
  "up_writers u = [] \<Longrightarrow>
     write_strings tunnel_Write ss u =
       (None, u\<lparr>up_out := up_out u @ concat ss, up_count := up_count u + int (length (concat ss))\<rparr>)"
  by (induction ss arbitrary: u) (simp_all add: tunnel_Write_full)

lemma send_head_full:
  "up_out (send_head hs (up_start [])) = hs_FirstLine hs @ crlf @ header_wire (hs_Header hs) @ crlf @ hs_BodyBuf hs"
  by (simp add: send_head_def Let_def tunnel_Write_full Header_Write_def writeSubset_def write_strings_full
      up_start_def header_wire_eq)

text \<open>The counter is given exactly what the connection has received, whatever the writes did.\<close>

lemma tunnel_Write_count:
  assumes "up_count u = int (length (up_out u))" and "\<forall>w \<in> set (up_writers u). writer_ok w"
  shows "up_count (snd (tunnel_Write u p)) = int (length (up_out (snd (tunnel_Write u p))))
    \<and> (\<forall>w \<in> set (up_writers (snd (tunnel_Write u p))). writer_ok w)"
proof (cases "up_writers u")
  case (Cons w ws)
  then have "fst (w (length p)) \<le> length p" using assms(2) by (simp add: writer_ok_def)
  with Cons assms show ?thesis by (auto simp: tunnel_Write_def split: prod.splits)
qed (use assms in \<open>simp add: tunnel_Write_def\<close>)

lemma http_forward_request:
  assumes "hs_Method hs \<noteq> ''CONNECT''" and "hs_RequestURI hs \<noteq> ''''" and "rq_dst rq = (n, '''', po)" and "p_writers P = []"
    and "handshake (p_env P) (p_cfg P) (p_router P) ProtoHTTP n '''' po (newTunnel (p_remote P), w) = Returns (None, t', w')"
  shows "http_forward P hs rq w = Some (Returns (copied ''''
    (hs_FirstLine hs @ crlf @ header_wire (hs_Header hs) @ crlf @ hs_BodyBuf hs) (rq_reader rq) (hs_clientUnRead hs) w'))"
proof -
  obtain s where "Request_str hs = Returns s" using assms(2) by (cases "hs_RequestURI hs") (auto simp: Request_str_def)
  with assms show ?thesis by (simp add: http_forward_def Let_def send_head_full)
qed

lemma handle_eq:
  assumes "ReadRequest (net_aes_dec (p_env P)) (p_router P) (p_werr P) from rq0 = Some (Returns (True, None, rq))"
    and "check rq = None" and "response P orig rq w = Some (Returns a)"
  shows "handle P from check orig rq0 w = Some (Returns (a\<lparr>an_out := rq_written rq @ an_out a\<rparr>))"
  using assms by (simp add: handle_def)

lemma loop_reader_consumes: "loop_reader b \<Longrightarrow> consumes b x b' \<Longrightarrow> loop_reader b'"
  by (simp add: loop_reader_def consumes_def)

lemma upstream_prefix:
  assumes "loop_reader b" and "n < 0" and "xfer_run D r (transfer_start b server n) x"
  shows "prefix (x_up x) (pending b)"
  using plain_inv_run [OF assms(3) plain_inv_start [OF assms(1,2)]] by (auto simp: plain_inv_def)

lemma ReadRequest_loop_reader:
  assumes "ReadRequest D r werr from rq = Some (Returns (ok, err, rq'))" and "loop_reader (rq_reader rq)" and "\<not> tcpcopy_on r"
  shows "loop_reader (rq_reader rq')"
proof -
  have "reader_inv (rq_reader rq)" using assms(2) by (simp add: loop_reader_def)
  from ReadRequest_cases [OF this assms(3), of D werr "from"] assms(1) obtain x where "consumes (rq_reader rq) x (rq_reader rq')"
    by auto
  with assms(2) show ?thesis by (rule loop_reader_consumes)
qed

text \<open>
  C8: A request in origin form, from the client's bytes to the server's: after a successful
  handshake the server is sent the request line with the host of the request, a header with
  the same fields and values, the blank line and the body taken so far, and the copying
  starts at the next byte of the body. When the connection is not kept alive, then at every
  moment of the copying the server has received a prefix of that request with its whole
  body.
\<close>

theorem request_forwarded:
  assumes "\<not> tcpcopy_on (p_router P)" and "clean ((d, None) # nxt)" and "8 \<le> length d" and "length d \<le> 4096"
    and "d @ conn_bytes nxt = m @ '' '' @ (p @ q) @ '' '' @ pr @ crlf @ header_wire h @ crlf @ body"
    and "m \<in> set allMethods" and "m \<noteq> ''CONNECT''" and "plain_path p" and "plain_query q" and "CHR '' '' \<notin> set q"
    and "pr = ''HTTP/1.0'' \<or> pr = ''HTTP/1.1''"
    and "header_ok h" and "\<forall>(k, vs) \<in> set h. name_ok k"
    and "map wire_value (header_vals h ''Host'') = [hostport n po]" and "plain_name n"
    and "\<not> Eable (p_nat P)" and "p_writers P = []"
    and "handshake (p_env P) (p_cfg P) (p_router P) ProtoHTTP n '''' (name_port po) (newTunnel (p_remote P), w) = Returns (None, t', w')"
  shows "\<exists>a b k hm. ClientHandler P orig ((d, None) # nxt) w = Some (Returns a)
    \<and> an_err a = None \<and> an_out a = '''' \<and> an_world a = w' \<and> an_copy a = Some (b, k)
    \<and> (\<forall>f. header_vals hm f = map wire_value (header_vals h f))
    \<and> (let head = m @ '' '' @ (if firstLineHost (p_router P) (hostport n po) = ''off'' then '''' else ''http://'' @ hostport n po)
             @ p @ q @ '' '' @ pr @ crlf @ header_wire hm @ crlf
       in an_up a @ pending b = head @ body \<and> prefix head (an_up a)
        \<and> (\<forall>D r server x. k < 0 \<longrightarrow> xfer_run D r (transfer_start b server k) x \<longrightarrow> prefix (an_up a @ x_up x) (head @ body)))"
proof -
  obtain hs rq where r: "ReadRequest (net_aes_dec (p_env P)) (p_router P) (p_werr P) ''client'' (NewRequest ((d, None) # nxt)) = Some (Returns (True, None, rq))"
    "rq_Stream rq = HttpStream hs" "rq_dst rq = (n, '''', name_port po)"
    "hs_FirstLine hs = m @ '' '' @ (if firstLineHost (p_router P) (hostport n po) = ''off'' then '''' else ''http://'' @ hostport n po) @ p @ q @ '' '' @ pr"
    "body = hs_BodyBuf hs @ pending (rq_reader rq)" "hs_Method hs = m" "hs_RequestURI hs \<noteq> ''''"
    "hs_Header hs = fold add_field (wire_fields h) []" "rq_written rq = ''''"
    using ReadRequest_origin_head [OF assms(1-15), of "net_aes_dec (p_env P)" "p_werr P" "''client''"] by blast
  have f: "http_forward P hs rq w = Some (Returns (copied ''''
      (hs_FirstLine hs @ crlf @ header_wire (hs_Header hs) @ crlf @ hs_BodyBuf hs) (rq_reader rq) (hs_clientUnRead hs) w'))"
    by (rule http_forward_request [OF _ r(7,3) assms(17,18)]) (simp add: r(6) assms(7))
  have "response P (GetOriginalDstAddr (p_cfg P) (p_remote P) orig) rq w = http_forward P hs rq w"
    using r(2) assms(16) by (simp add: response_def http_response_def)
  from handle_eq [OF r(1) _ this [unfolded f], of "\<lambda>rq. None"]
  have a: "ClientHandler P orig ((d, None) # nxt) w = Some (Returns (copied ''''
      (hs_FirstLine hs @ crlf @ header_wire (hs_Header hs) @ crlf @ hs_BodyBuf hs) (rq_reader rq) (hs_clientUnRead hs) w'))"
    by (simp add: ClientHandler_def copied_def r(9))
  have l: "loop_reader (rq_reader rq)"
    by (rule ReadRequest_loop_reader [OF r(1) _ assms(1)]) (simp add: NewRequest_def loop_reader_NewReader)
  have up: "prefix (x_up x) (pending (rq_reader rq))"
    if "k < 0" "xfer_run D' r' (transfer_start (rq_reader rq) server k) x" for k D' r' server x
    by (rule upstream_prefix [OF l that])
  have "header_vals (hs_Header hs) f = map wire_value (header_vals h f)" for f
    unfolding r(8) by (rule header_vals_wire [OF assms(12)])
  with a r(4,5) up show ?thesis
    by (intro exI [of _ "copied '''' (hs_FirstLine hs @ crlf @ header_wire (hs_Header hs) @ crlf @ hs_BodyBuf hs) (rq_reader rq) (hs_clientUnRead hs) w'"]
        exI [of _ "rq_reader rq"] exI [of _ "hs_clientUnRead hs"] exI [of _ "hs_Header hs"])
      (simp add: copied_def Let_def)
qed

text \<open>
  C38: A CONNECT request whose first segment goes on after the blank line: the bytes after it
  are taken into the body of the request, and the response to CONNECT does not send a body.
  The client is told that the connection is established, and the server never receives these
  bytes.
\<close>

theorem connect_loses_early_data:
  assumes "\<not> tcpcopy_on (p_router P)" and "d = ''CONNECT '' @ hostport n po @ '' HTTP/1.1'' @ crlf @ crlf @ early"
    and "length d \<le> 4096" and "plain_name n" and "p_werr P = None"
    and "handshake (p_env P) (p_cfg P) (p_router P) ProtoHTTPS n '''' (name_port po) (newTunnel (p_remote P), w) = Returns (None, t', w')"
  shows "\<exists>a b. ClientHandler P orig ((d, None) # nxt) w = Some (Returns a)
    \<and> an_err a = None \<and> an_out a = established \<and> an_up a = '''' \<and> an_copy a = Some (b, -1) \<and> pending b = conn_bytes nxt
    \<and> (\<forall>D r server x. xfer_run D r (transfer_start b server (-1)) x \<longrightarrow> prefix (x_up x) (conn_bytes nxt))"
proof -
  obtain hs rq where r: "ReadRequest (net_aes_dec (p_env P)) (p_router P) (p_werr P) ''client'' (NewRequest ((d, None) # nxt)) = Some (Returns (True, None, rq))"
    "rq_Stream rq = HttpStream hs" "hs_Method hs = ''CONNECT''" "rq_dst rq = (n, '''', name_port po)" "rq_written rq = ''''"
    "pending (rq_reader rq) = conn_bytes nxt"
    using ReadRequest_connect_early [OF assms(1-4), of "net_aes_dec (p_env P)" "p_werr P" nxt] by blast
  have "response P (GetOriginalDstAddr (p_cfg P) (p_remote P) orig) rq w
      = Some (Returns (copied established '''' (rq_reader rq) (-1) w'))"
    using r(2-4) assms(5,6) by (simp add: response_def http_response_def http_forward_def Let_def)
  from handle_eq [OF r(1) _ this, of "\<lambda>rq. None"]
  have a: "ClientHandler P orig ((d, None) # nxt) w = Some (Returns (copied established '''' (rq_reader rq) (-1) w'))"
    by (simp add: ClientHandler_def copied_def r(5))
  have l: "loop_reader (rq_reader rq)"
    by (rule ReadRequest_loop_reader [OF r(1) _ assms(1)]) (simp add: NewRequest_def loop_reader_NewReader)
  have "prefix (x_up x) (conn_bytes nxt)" if "xfer_run D' r' (transfer_start (rq_reader rq) server (-1)) x" for D' r' server x
    using upstream_prefix [OF l _ that] r(6) by simp
  with a r(6) show ?thesis by (simp add: copied_def)
qed

subsection \<open>Who is served\<close>

lemma handshake_permission:
  assumes "handshake env cfg r pr n i p (t, w) = Returns (err, t', w')" and "\<not> snd (isAllowed r t (h_AllowIP (findHost r n i)))"
  shows "err \<noteq> None \<and> w' = w"
  using handshake_cases [OF assms(1) refl] assms(2) by auto

text \<open>The list of addresses that applies to a request.\<close>

definition stream_allows :: "proc \<Rightarrow> string \<Rightarrow> request \<Rightarrow> string list" where
  "stream_allows P dstIP rq =
     (case rq_Stream rq of
        HttpStream hs \<Rightarrow> h_AllowIP (findHost (p_router P) (fst (rq_dst rq)) '''')
      | Socks5Stream \<Rightarrow> h_AllowIP (findHost (p_router P) (fst (rq_dst rq)) (fst (snd (rq_dst rq))))
      | TcpStream \<Rightarrow> h_AllowIP (findHost (p_router P) '''' dstIP)
      | _ \<Rightarrow> [])"

text \<open>An error, and nothing else has happened.\<close>

definition turned_away :: "answer \<Rightarrow> world \<Rightarrow> bool" where
  "turned_away a w \<longleftrightarrow> an_err a \<noteq> None \<and> an_copy a = None \<and> an_up a = '''' \<and> an_ws a = None \<and> an_world a = w"

lemma refused_turned_away [simp]: "turned_away (refused err out w') w \<longleftrightarrow> err \<noteq> None \<and> w' = w"
  by (auto simp: turned_away_def refused_def)

lemma http_forward_permission:
  assumes "http_forward P hs rq w = Some (Returns a)" and "\<not> snd (isAllowed (p_router P) (newTunnel (p_remote P)) (h_AllowIP (findHost (p_router P) (fst (rq_dst rq)) '''')))"
  shows "turned_away a w"
proof -
  obtain n i po where d: "rq_dst rq = (n, i, po)" by (metis prod_cases3)
  have na: "\<not> snd (isAllowed (p_router P) (newTunnel (p_remote P)) (h_AllowIP (findHost (p_router P) n '''')))"
    using assms(2) d by simp
  note h = handshake_permission [OF _ na]
  show ?thesis
  proof (cases "hs_Method hs = ''CONNECT''")
    case True
    with assms(1) d show ?thesis
      by (auto simp: http_forward_def Let_def split: outcome.splits option.splits prod.splits if_splits dest!: h)
  next
    case False
    with assms(1) d show ?thesis
      by (auto simp: http_forward_def Let_def split: outcome.splits option.splits prod.splits dest!: h)
  qed
qed

lemma http_response_cases:
  assumes "http_response P hs rq w = Some (Returns a)"
  shows "an_ws a \<noteq> None \<or> (\<exists>hs'. hs_Method hs' = hs_Method hs \<and> http_forward P hs' rq w = Some (Returns a))"
proof (cases "hs_Method hs \<noteq> ''CONNECT'' \<and> Eable (p_nat P) \<and> Header_Get (hs_Header hs) special_header = ''websocket''
    \<and> ws_getTarget (p_router P) (fst (rq_dst rq))")
  case True
  with assms show ?thesis
    by (auto simp: http_response_def Let_def split: option.splits outcome.splits
        intro!: exI [of _ "hs\<lparr>hs_Header := Header_Del special_header (hs_Header hs)\<rparr>"])
next
  case False
  with assms show ?thesis
    by (auto simp: http_response_def Let_def split: if_splits
        intro: exI [of _ "hs\<lparr>hs_Header := Header_Del special_header (hs_Header hs)\<rparr>"])
qed


text \<open>
  A request that is handed to a websocket is sent to the subscribed client whether or not
  the requesting client is on any list of allowed addresses.
\<close>

theorem websocket_skips_allow_list:
  assumes "rq_Stream rq = HttpStream hs" and "hs_Method hs \<noteq> ''CONNECT''" and "hs_RequestURI hs \<noteq> ''''"
    and "Eable (p_nat P)" and "Header_Get (hs_Header hs) special_header = ''websocket''"
    and "ws_getTarget (p_router P) (fst (rq_dst rq))" and "loop_reader (rq_reader rq)"
    and "GetClient (p_ord P) (Header_Del special_header (hs_Header hs)) (ServerHub (p_nat P)) = Some c"
  shows "\<exists>a script. response P orig rq w = Some (Returns a) \<and> an_err a = None \<and> an_ws a = Some (c, script) \<and> an_world a = w"
proof -
  obtain cs err b' where "CopyBuffer Reader_Read bridge_writer (rq_reader rq) = Some (cs, int (length (concat cs)), err, b')"
    using reader_copy.CopyBuffer_bridge [of "rq_reader rq"] assms(7) by (auto simp: loop_reader_def)
  moreover obtain s where "Request_str (hs\<lparr>hs_Header := Header_Del special_header (hs_Header hs)\<rparr>) = Returns s"
    using assms(3) by (cases "hs_RequestURI hs") (auto simp: Request_str_def)
  ultimately show ?thesis
    using assms by (simp add: response_def http_response_def ws_transfer_def Let_def)
qed

text \<open>
  C23: The server process (the far end of a tunnel) serves CONNECT requests over HTTP only:
  everything else gets an error and reaches no network, and a CONNECT request is answered
  from the reader it was read from.
\<close>

theorem server_only_connect:
  assumes "ServerHandler P orig conn w = Some (Returns a)"
    and "ReadRequest (net_aes_dec (p_env P)) (p_router P) (p_werr P) ''server'' (NewRequest conn) = Some (Returns (ok, err, rq))"
  shows "turned_away a w \<or>
    (\<exists>hs. rq_Proto rq = ''http'' \<and> rq_Stream rq = HttpStream hs \<and> hs_Method hs = ''CONNECT'' \<and> an_ws a = None \<and> an_up a = ''''
      \<and> (an_copy a = None \<or> an_copy a = Some (rq_reader rq, -1)))"
proof (cases "(err \<noteq> None \<and> \<not> ok) \<or> server_check rq \<noteq> None")
  case True
  then have "\<exists>e. e \<noteq> None \<and> a = refused e (rq_written rq) w"
    using assms by (auto simp: ServerHandler_def handle_def split: if_splits)
  then show ?thesis by auto
next
  case False
  then obtain hs where s: "rq_Proto rq = ''http''" "rq_Stream rq = HttpStream hs" "hs_Method hs = ''CONNECT''"
    by (auto simp: server_check_def split: if_splits stream.splits)
  from False assms obtain a' where a': "response P (GetOriginalDstAddr (p_cfg P) (p_remote P) orig) rq w = Some (Returns a')"
    "a = a'\<lparr>an_out := rq_written rq @ an_out a'\<rparr>"
    by (auto simp: ServerHandler_def handle_def elim!: map_outcome.elims)
  from a'(1) s(2,3) have "http_forward P hs rq w = Some (Returns a')" by (simp add: response_def http_response_def)
  with s(3) have "an_ws a' = None \<and> an_up a' = '''' \<and> (an_copy a' = None \<or> an_copy a' = Some (rq_reader rq, -1))"
    by (auto simp: http_forward_def Let_def refused_def copied_def split: outcome.splits option.splits prod.splits if_splits)
  with s a'(2) show ?thesis by simp
qed

text \<open>
  A destination that cannot be reached: a client of CONNECT is told nothing but has its
  connection ended, while a SOCKS5 client has already been told that it is connected.
\<close>

theorem reply_before_dial:
  assumes "rq_dst rq = (n, i, po)" and "p_werr P = None"
    and "handshake (p_env P) (p_cfg P) (p_router P) ProtoTCP n i po (newTunnel (p_remote P), w) = Returns (Some e, t1, w1)"
    and "handshake (p_env P) (p_cfg P) (p_router P) ProtoHTTPS n '''' po (newTunnel (p_remote P), w) = Returns (Some e2, t2, w2)"
    and "hs_Method hs = ''CONNECT''"
  shows "response P orig (rq\<lparr>rq_Stream := Socks5Stream\<rparr>) w = Some (Returns (refused (Some e) socks_reply w1))
    \<and> response P orig (rq\<lparr>rq_Stream := HttpStream hs\<rparr>) w = Some (Returns (refused (Some e2) '''' w2))"
  using assms by (simp add: response_def socks_response_def http_response_def http_forward_def Let_def)

subsection \<open>Redirected connections\<close>

text \<open>
  C22: A redirected connection: the bytes looked at while the protocol was guessed are sent
  first, and the copying goes on where they end, so the server receives the whole stream of
  the client.
\<close>

theorem redirected_stream_complete:
  assumes "\<not> tcpcopy_on (p_router P)" and "\<not> http_start (conn_bytes conn)" and "p_writers P = []"
    and "ClientHandler P orig conn w = Some (Returns a)" and "an_copy a = Some (b, k)"
    and "ReadRequest (net_aes_dec (p_env P)) (p_router P) (p_werr P) ''client'' (NewRequest conn) = Some (Returns (ok, err, rq))"
    and "rq_Stream rq = TcpStream"
  shows "an_up a @ pending b = conn_bytes conn \<and> k = -1 \<and> an_out a = ''''
    \<and> (\<forall>D r server x. xfer_run D r (transfer_start b server k) x \<longrightarrow> prefix (an_up a @ x_up x) (conn_bytes conn))"
proof -
  have "reader_inv (rq_reader (NewRequest conn))" by (simp add: NewRequest_def NewReader_inv)
  from ReadRequest_cases [OF this assms(1), of "net_aes_dec (p_env P)" "p_werr P" "''client''"] assms(6,7) obtain x where
    x: "consumes (rq_reader (NewRequest conn)) x (rq_reader rq)" "rq_written rq = ''''"
    "x = [] \<or> http_start (pending (rq_reader (NewRequest conn)))"
    by (auto simp: NewRequest_def)
  have "x = []" using x(3) assms(2) by (simp add: NewRequest_def pending_NewReader)
  then have p: "pending (rq_reader rq) = conn_bytes conn" "reader_inv (rq_reader rq)"
    using x(1) by (simp_all add: consumes_def NewRequest_def pending_NewReader)
  obtain tmp b0 where u: "UnreadBuf (-1) (rq_reader rq) = (tmp, b0)" by (metis surj_pair)
  have t: "tmp = unread (rq_reader rq)" "rsrc b0 = rsrc (rq_reader rq)"
    using UnreadBuf_spec [OF p(2), of "-1"] u UnreadBuf_rsrc [OF u] by auto
  have "response P (GetOriginalDstAddr (p_cfg P) (p_remote P) orig) rq w \<noteq> None"
    "\<exists>a'. response P (GetOriginalDstAddr (p_cfg P) (p_remote P) orig) rq w = Some (Returns a') \<and> an_copy a' = Some (b, k)
      \<and> a = a'\<lparr>an_out := an_out a'\<rparr>"
    using assms(4-6) x(2)
    by (auto simp: ClientHandler_def handle_def refused_def split: option.splits outcome.splits if_splits elim!: map_outcome.elims)
  then obtain a' where a': "tcp_response P (GetOriginalDstAddr (p_cfg P) (p_remote P) orig) rq w = Some (Returns a')"
    "an_copy a' = Some (b, k)" "a = a'\<lparr>an_out := an_out a'\<rparr>"
    using assms(7) by (auto simp: response_def)
  then have c: "an_up a = tmp" "b = NewReader (rsrc (rq_reader rq))" "k = -1" "an_out a = ''''"
    using u t assms(3)
    by (auto simp: tcp_response_def refused_def copied_def tunnel_Write_full up_start_def
        split: outcome.splits option.splits prod.splits if_splits)
  have "pending b = conn_bytes (rsrc (rq_reader rq))" using c(2) by (simp add: pending_NewReader)
  moreover have "conn_bytes conn = unread (rq_reader rq) @ conn_bytes (rsrc (rq_reader rq))"
    using p(1) by (simp add: pending_def)
  ultimately have "an_up a @ pending b = conn_bytes conn" using t(1) c(1) by simp
  moreover have "prefix (an_up a @ x_up y) (conn_bytes conn)" if "xfer_run D r (transfer_start b server k) y" for D r server y
    using upstream_prefix [OF _ _ that] c loop_reader_NewReader unfolding calculation [symmetric] by simp
  ultimately show ?thesis using c by blast
qed

lemma port_of_bytes: "push_bit 8 (of_char hi :: 16 word) + of_char lo = word_of_bytes hi lo"
proof -
  have "(of_char c :: 16 word) = word_of_int (int (byte_nat c))" for c
    by (metis byte_nat_def of_int_of_nat_eq of_nat_of_char)
  then show ?thesis by (simp add: word_of_bytes_def uint16_def push_bit_eq_mult ac_simps)
qed

text \<open>
  The original destination of a redirected IPv4 connection is read from the bytes of the
  socket address, and the connection is refused as a loop exactly when the client has the
  destination's address and the port is this process's own.
\<close>

theorem loop_detected:
  assumes "length src = 4" and "length a = 16"
  shows "\<exists>err. GetOriginalDstAddr cfg (dotted src @ '':'' @ sport) (OrigAddr a)
      = (dotted (take 4 (drop 4 a)), word_of_bytes (a ! 2) (a ! 3), True, err)
    \<and> (err \<noteq> None \<longleftrightarrow> take 4 (drop 4 a) = src \<and> word_of_bytes (a ! 2) (a ! 3) = ListenPort cfg)"
proof -
  have d: "[a ! 4, a ! 5, a ! 6, a ! 7] = take 4 (drop 4 a)"
    using assms(2) by (intro nth_equalityI) (auto simp: less_Suc_eq numeral_eq_Suc)
  have l: "length (take 4 (drop 4 a)) = 4" using assms(2) by simp
  have s: "Split (dotted src @ CHR '':'' # sport) '':'' ! 0 = dotted src"
    using dotted_chars(1) [of src] by (simp add: Split_byte)
  show ?thesis
    using dotted_inject [OF assms(1) l] l IP_String_4 [OF l]
    by (auto simp: GetOriginalDstAddr_def Let_def d s port_of_bytes)
qed

subsection \<open>Example requests\<close>

text \<open>A process that connects directly, with the websocket client of the other examples.\<close>

definition demo_proc :: "string \<Rightarrow> proc" where
  "demo_proc x =
     \<lparr>p_env = demo_env (if x = ''down'' then Some EOF else None), p_cfg = demo_settings, p_router = demo_router ''local'',
      p_nat = (if x = ''ws'' then NewServer\<lparr>ServerHub := demo_hub\<rparr> else NewServer), p_ord = id, p_ID = 1,
      p_remote = ''1.2.3.4:5'', p_werr = None, p_writers = []\<rparr>"

lemma direct_dial_demo_name:
  assumes "n \<noteq> '''' \<or> i \<noteq> ''''"
  shows "\<exists>t' w'. direct_dial (demo_env res) n i p (t, w) = (res, t', w')"
proof -
  obtain net addr t1 w1 where 1: "buildAddress (demo_env res) n i p True (t, w) = ((net, addr), t1, w1)"
    by (metis surj_pair)
  then have "addr \<noteq> ''''" using buildAddress_keeps [OF 1] assms by (auto simp: address_of_def split: if_splits)
  with 1 show ?thesis by (auto simp: direct_dial_def dail_def Let_def demo_env_def)
qed

lemma demo_handshake_direct:
  assumes "n \<noteq> '''' \<or> i \<noteq> ''''"
  shows "\<exists>t' w'. handshake (demo_env res) demo_settings (demo_router ''local'') pr n i p (t, w) = Returns (res, t', w')"
proof -
  obtain ip st w1 where r: "resolve_dst (demo_env res) (demo_router ''local'') no_host n i w = (ip, st, w1)" by (metis prod_cases3)
  have "n \<noteq> '''' \<or> ip \<noteq> ''''" using r assms by (auto simp: resolve_dst_def split: if_splits)
  from direct_dial_demo_name [OF this] obtain t' w' where d: "direct_dial (demo_env res) n ip p (t, w1) = (res, t', w')" by blast
  show ?thesis
    using r d by (auto simp: handshake_def Let_def choose_proxy_def map_port_def connect_via_def set_new_def)
qed

lemma demo_proc_simps [simp]:
  "p_router (demo_proc x) = demo_router ''local''" "p_werr (demo_proc x) = None" "p_writers (demo_proc x) = []"
  "p_remote (demo_proc x) = ''1.2.3.4:5''" "p_cfg (demo_proc x) = demo_settings" "p_ord (demo_proc x) = id"
  "p_nat (demo_proc x) = (if x = ''ws'' then NewServer\<lparr>ServerHub := demo_hub\<rparr> else NewServer)"
  by (simp_all add: demo_proc_def)

lemma demo_proc_handshake:
  "n \<noteq> '''' \<or> i \<noteq> '''' \<Longrightarrow>
     \<exists>t' w'. handshake (p_env (demo_proc x)) demo_settings (demo_router ''local'') pr n i p tw
       = Returns (if x = ''down'' then Some EOF else None, t', w')"
  using demo_handshake_direct [of n i "if x = ''down'' then Some EOF else None" pr p "fst tw" "snd tw"]
  by (simp add: demo_proc_def)

lemma demo_not_tcpcopy: "\<not> tcpcopy_on (demo_router x)"
  by (simp add: tcpcopy_on_def demo_router_def empty_router_def)

theorem request_forwarded_witness:
  "\<exists>a b k. ClientHandler (demo_proc '''') OrigNotTCP [(demo_request @ ''xyz'', None)] demo_world = Some (Returns a)
    \<and> an_err a = None \<and> an_copy a = Some (b, k)
    \<and> prefix (''GET'' @ '' '' @ ''http://h.b:8080'' @ ''/a'' @ '' '' @ ''HTTP/1.1'' @ crlf) (an_up a)"
proof -
  obtain t' w' where h: "handshake (p_env (demo_proc '''')) (p_cfg (demo_proc '''')) (p_router (demo_proc '''')) ProtoHTTP ''h.b'' ''''
      (name_port (Some 8080)) (newTunnel (p_remote (demo_proc '''')), demo_world) = Returns (None, t', w')"
    using demo_proc_handshake [of "''h.b''" "''''" "''''"] by fastforce
  have f: "firstLineHost (p_router (demo_proc '''')) (hostport ''h.b'' (Some 8080)) = ''on''"
    by (simp add: firstLineHost_def demo_router_def empty_router_def)
  have w: "header_wire [(''Host'', [''h.b:8080''])] = ''Host: h.b:8080'' @ crlf" by code_simp
  have l: "8 \<le> length (demo_request @ ''xyz'')" "length (demo_request @ ''xyz'') \<le> 4096"
    unfolding demo_request_def w by (simp_all add: crlf_def)
  have c: "clean [(demo_request @ ''xyz'', None)]" by (simp add: clean_def demo_request_def)
  have e: "(demo_request @ ''xyz'') @ conn_bytes [] =
      ''GET'' @ '' '' @ (''/a'' @ '''') @ '' '' @ ''HTTP/1.1'' @ crlf @ header_wire [(''Host'', [''h.b:8080''])] @ crlf @ ''xyz''"
    by (simp add: demo_request_def conn_bytes_def)
  have n: "\<not> Eable (p_nat (demo_proc ''''))" by (simp add: Eable_def NewServer_def newHub_def)
  have pr: "''HTTP/1.1'' = ''HTTP/1.0'' \<or> ''HTTP/1.1'' = ''HTTP/1.1''" and g: "''GET'' \<noteq> ''CONNECT''" "CHR '' '' \<notin> set ''''"
    and t: "\<not> tcpcopy_on (p_router (demo_proc ''''))" "p_writers (demo_proc '''') = []"
    by (simp_all add: demo_not_tcpcopy)
  obtain a b k hm where a: "ClientHandler (demo_proc '''') OrigNotTCP [(demo_request @ ''xyz'', None)] demo_world = Some (Returns a)"
    "an_err a = None" "an_copy a = Some (b, k)"
    "prefix (''GET'' @ '' '' @ (if firstLineHost (p_router (demo_proc '''')) (hostport ''h.b'' (Some 8080)) = ''off'' then ''''
        else ''http://'' @ hostport ''h.b'' (Some 8080)) @ ''/a'' @ '''' @ '' '' @ ''HTTP/1.1'' @ crlf @ header_wire hm @ crlf) (an_up a)"
    using request_forwarded [OF t(1) c l e demo_request_facts(7) g(1) demo_request_facts(4,5) g(2) pr demo_request_facts(1-3,6) n t(2) h, of OrigNotTCP]
    unfolding Let_def by blast
  have "prefix (''GET'' @ '' '' @ ''http://h.b:8080'' @ ''/a'' @ '' '' @ ''HTTP/1.1'' @ crlf)
      (''GET'' @ '' '' @ (if firstLineHost (p_router (demo_proc '''')) (hostport ''h.b'' (Some 8080)) = ''off'' then ''''
        else ''http://'' @ hostport ''h.b'' (Some 8080)) @ ''/a'' @ '''' @ '' '' @ ''HTTP/1.1'' @ crlf @ header_wire hm @ crlf)"
    unfolding f unfolding host_port_8080 by (simp add: crlf_def)
  with a show ?thesis using prefix_order.order_trans by blast
qed

theorem connect_loses_early_data_witness:
  "\<exists>a b. ClientHandler (demo_proc '''') OrigNotTCP
      [(''CONNECT h.b HTTP/1.1'' @ crlf @ crlf @ ''hello'', None), (''zz'', None)] demo_world = Some (Returns a)
    \<and> an_out a = established \<and> an_up a = '''' \<and> an_copy a = Some (b, -1) \<and> pending b = ''zz''"
proof -
  obtain t' w' where h: "handshake (p_env (demo_proc '''')) (p_cfg (demo_proc '''')) (p_router (demo_proc '''')) ProtoHTTPS ''h.b'' ''''
      (name_port None) (newTunnel (p_remote (demo_proc '''')), demo_world) = Returns (None, t', w')"
    using demo_proc_handshake [of "''h.b''" "''''" "''''"] by fastforce
  have d: "''CONNECT h.b HTTP/1.1'' @ crlf @ crlf @ ''hello'' = ''CONNECT '' @ hostport ''h.b'' None @ '' HTTP/1.1'' @ crlf @ crlf @ ''hello''"
    by (simp add: hostport_def)
  show ?thesis
    using connect_loses_early_data [OF _ d _ demo_request_facts(6) _ h, of OrigNotTCP "[(''zz'', None)]"]
    by (auto simp: demo_not_tcpcopy crlf_def conn_bytes_def)
qed

definition demo_deny :: proc where
  "demo_deny = (demo_proc '''')\<lparr>p_router := (demo_router ''local'')\<lparr>r_AllowIP := [''10.0.0.0/8'']\<rparr>\<rparr>"

lemma demo_deny_all: "\<not> snd (isAllowed (p_router demo_deny) (newTunnel (p_remote demo_deny)) [])"
  unfolding demo_deny_def by code_simp

definition demo_socks :: request where
  "demo_socks = (NewRequest [])\<lparr>rq_dst := (''h.b'', '''', 80), rq_Stream := Socks5Stream\<rparr>"


theorem reply_before_dial_witness:
  "\<exists>w1. response (demo_proc ''down'') ('''', 0, False, None) demo_socks demo_world = Some (Returns (refused (Some EOF) socks_reply w1))"
proof -
  obtain t1 w1 where h1: "handshake (p_env (demo_proc ''down'')) (p_cfg (demo_proc ''down'')) (p_router (demo_proc ''down'')) ProtoTCP ''h.b'' '''' 80
      (newTunnel (p_remote (demo_proc ''down'')), demo_world) = Returns (Some EOF, t1, w1)"
    using demo_proc_handshake [of "''h.b''" "''''" "''down''"] by fastforce
  obtain t2 w2 where h2: "handshake (p_env (demo_proc ''down'')) (p_cfg (demo_proc ''down'')) (p_router (demo_proc ''down'')) ProtoHTTPS ''h.b'' '''' 80
      (newTunnel (p_remote (demo_proc ''down'')), demo_world) = Returns (Some EOF, t2, w2)"
    using demo_proc_handshake [of "''h.b''" "''''" "''down''"] by fastforce
  have "response (demo_proc ''down'') ('''', 0, False, None) (demo_socks\<lparr>rq_Stream := Socks5Stream\<rparr>) demo_world
      = Some (Returns (refused (Some EOF) socks_reply w1))"
    using reply_before_dial [OF _ _ h1 h2, of demo_socks "newHTTPStream\<lparr>hs_Method := ''CONNECT''\<rparr>"] by (simp add: demo_socks_def)
  then show ?thesis by (auto simp: demo_socks_def)
qed

theorem loop_detected_witness:
  "snd (snd (snd (GetOriginalDstAddr (demo_settings\<lparr>ListenPort := 3000\<rparr>) (dotted (map char_of [10, 0, 0, 1 :: nat]) @ '':'' @ ''5555'')
     (OrigAddr (map char_of [2, 0, 11, 184, 10, 0, 0, 1 :: nat] @ replicate 8 CHR 0x00))))) \<noteq> None"
proof -
  have "word_of_bytes (char_of (11 :: nat)) (char_of (184 :: nat)) = 3000" by code_simp
  then show ?thesis
    using loop_detected [of "map char_of [10, 0, 0, 1 :: nat]" "map char_of [2, 0, 11, 184, 10, 0, 0, 1 :: nat] @ replicate 8 CHR 0x00"
        "demo_settings\<lparr>ListenPort := 3000\<rparr>" "''5555''"] by auto
qed

theorem server_only_connect_witness:
  "\<exists>a. ServerHandler (demo_proc '''') OrigNotTCP [(demo_request, None)] demo_world = Some (Returns a) \<and> turned_away a demo_world"
proof -
  have w: "header_wire [(''Host'', [''h.b:8080''])] = ''Host: h.b:8080'' @ crlf" by code_simp
  have l: "8 \<le> length demo_request" "length demo_request \<le> 4096" and c: "clean [(demo_request, None)]"
    unfolding demo_request_def w by (simp_all add: crlf_def clean_def)
  have e: "demo_request @ conn_bytes [] =
      ''GET'' @ '' '' @ (''/a'' @ '''') @ '' '' @ ''HTTP/1.1'' @ crlf @ header_wire [(''Host'', [''h.b:8080''])] @ crlf @ ''''"
    by (simp add: demo_request_def conn_bytes_def)
  obtain hs rq where r: "ReadRequest (net_aes_dec (p_env (demo_proc ''''))) (p_router (demo_proc '''')) (p_werr (demo_proc ''''))
      ''server'' (NewRequest [(demo_request, None)]) = Some (Returns (True, None, rq))"
    "rq_Stream rq = HttpStream hs" "hs_Method hs = ''GET''"
    using ReadRequest_origin_head [OF _ c l e demo_request_facts(7) _ demo_request_facts(4,5) _ _ demo_request_facts(1-3,6),
        of "p_router (demo_proc '''')" "net_aes_dec (p_env (demo_proc ''''))" "p_werr (demo_proc '''')" "''server''"]
    by (auto simp: demo_not_tcpcopy)
  then have "\<exists>e. server_check rq = Some e" by (simp add: server_check_def)
  with r(1) obtain a where "ServerHandler (demo_proc '''') OrigNotTCP [(demo_request, None)] demo_world = Some (Returns a)"
    by (auto simp: ServerHandler_def handle_def)
  with server_only_connect [OF this r(1)] r(2,3) show ?thesis by auto
qed

definition demo_orig :: orig_dst where
  "demo_orig = OrigAddr (map char_of [2, 0, 0, 22, 10, 0, 0, 9 :: nat] @ replicate 8 CHR 0x00)"

lemma demo_orig_dst: "\<exists>ip po. GetOriginalDstAddr demo_settings ''1.2.3.4:5'' demo_orig = (ip, po, True, None) \<and> ip \<noteq> ''''"
proof -
  have "GetOriginalDstAddr demo_settings ''1.2.3.4:5'' demo_orig = (''10.0.0.9'', 22, True, None)" by code_simp
  then show ?thesis by simp
qed

theorem redirected_stream_complete_witness:
  "\<exists>a b. ClientHandler (demo_proc '''') demo_orig [(''SSH-2.0'', None), (''-x'', None)] demo_world = Some (Returns a)
    \<and> an_copy a = Some (b, -1) \<and> an_up a @ pending b = ''SSH-2.0-x''"
proof -
  let ?c = "[(''SSH-2.0'', None), (''-x'', None)]"
  obtain ip po where o: "GetOriginalDstAddr demo_settings ''1.2.3.4:5'' demo_orig = (ip, po, True, None)" "ip \<noteq> ''''"
    using demo_orig_dst by blast
  obtain rq where r: "ReadRequest (net_aes_dec (p_env (demo_proc ''''))) (p_router (demo_proc '''')) (p_werr (demo_proc '''')) ''client'' (NewRequest ?c)
      = Some (Returns (True, None, rq))" "rq_Stream rq = TcpStream"
    using short_first_segment [of "p_router (demo_proc '''')" "''SSH-2.0''" "net_aes_dec (p_env (demo_proc ''''))" "p_werr (demo_proc '''')"
        "''client''" "[(''-x'', None)]"] by (auto simp: demo_not_tcpcopy)
  obtain t' w' where "handshake (p_env (demo_proc '''')) demo_settings (demo_router ''local'') ProtoTCP '''' ip po
      (newTunnel ''1.2.3.4:5'', demo_world) = Returns (None, t', w')"
    using demo_proc_handshake [of "''''" ip "''''"] o(2) by fastforce
  then obtain a b where a: "ClientHandler (demo_proc '''') demo_orig ?c demo_world = Some (Returns a)" "an_copy a = Some (b, -1)"
    using r o by (cases "UnreadBuf (-1) (rq_reader rq)") (auto simp: ClientHandler_def handle_def response_def tcp_response_def copied_def)
  have "\<not> http_start (conn_bytes ?c)" unfolding http_start_def by code_simp
  from redirected_stream_complete [OF _ this _ a r] a show ?thesis
    by (auto simp: demo_not_tcpcopy conn_bytes_def)
qed

definition demo_ws_stream :: http_stream where
  "demo_ws_stream = newHTTPStream\<lparr>hs_Method := ''GET'', hs_RequestURI := ''/a'',
     hs_Header := [(''Anyproxy-Action'', [''websocket'']), (''Debug'', [''me''])]\<rparr>"

definition demo_ws_proc :: proc where
  "demo_ws_proc = (demo_proc ''ws'')\<lparr>p_router := p_router demo_deny\<rparr>"

theorem websocket_skips_allow_list_witness:
  "\<exists>a script. response demo_ws_proc ('''', 0, False, None)
      ((NewRequest [])\<lparr>rq_dst := (''h.b'', '''', 80), rq_Stream := HttpStream demo_ws_stream\<rparr>) demo_world = Some (Returns a)
    \<and> an_ws a = Some (7, script) \<and> \<not> snd (isAllowed (p_router demo_ws_proc) (newTunnel (p_remote demo_ws_proc)) [])"
proof -
  let ?rq = "(NewRequest [])\<lparr>rq_dst := (''h.b'', '''', 80), rq_Stream := HttpStream demo_ws_stream\<rparr>"
  have e: "Eable (p_nat demo_ws_proc)"
    by (simp add: Eable_def NewServer_def demo_ws_proc_def demo_hub_def hub_register_def newHub_def)
  have g: "Header_Get (hs_Header demo_ws_stream) special_header = ''websocket''"
    unfolding demo_ws_stream_def special_header_def by code_simp
  have k: "GetClient id (Header_Del special_header (hs_Header demo_ws_stream)) demo_hub = Some 7"
    unfolding demo_ws_stream_def special_header_def by code_simp
  have t: "ws_getTarget (p_router demo_ws_proc) ''h.b''"
    by (simp add: ws_getTarget_def demo_ws_proc_def demo_deny_def findHost_def getString_def demo_router_def empty_router_def no_host_def)
  have d: "\<not> snd (isAllowed (p_router demo_ws_proc) (newTunnel (p_remote demo_ws_proc)) [])"
    using demo_deny_all by (simp add: demo_ws_proc_def demo_deny_def)
  have m: "hs_Method demo_ws_stream \<noteq> ''CONNECT''" "hs_RequestURI demo_ws_stream \<noteq> ''''" by (simp_all add: demo_ws_stream_def)
  have "\<exists>a script. response demo_ws_proc ('''', 0, False, None) ?rq demo_world = Some (Returns a) \<and> an_err a = None
      \<and> an_ws a = Some (7, script) \<and> an_world a = demo_world"
    by (rule websocket_skips_allow_list [OF _ m e g])
      (use t k in \<open>simp_all add: NewRequest_def loop_reader_NewReader, simp add: demo_ws_proc_def NewServer_def\<close>)
  with d show ?thesis by blast
qed

end
