(* ===== verification/Proxy_Chain.thy ===== *)
theory Proxy_Chain
  imports Handlers
begin

section \<open>A proxy behind a proxy\<close>

text \<open>
  What the parts give together when one process of the program, in the client mode, uses
  another, in the tunnel mode, as its upstream: the encrypted CONNECT request that
  \<open>httpConnect\<close> sends (\<open>proto/tunnel.go\<close>) goes through \<open>ServerHandler\<close> of the second process
  (\<open>proto/server.go\<close>), its answer is read by the first, and both copy.
\<close>

subsection \<open>The answer of a proxy\<close>

text \<open>
  \<open>ReadString\<close> of the standard package \<open>bufio\<close>, whose reader has the buffer, \<open>fill\<close> and
  \<open>ReadSlice\<close> the program's own was copied from: full buffers are collected until the
  delimiter, or an error, is found.
\<close>

partial_function (option) ReadString :: "char \<Rightarrow> string \<Rightarrow> tcp_reader \<Rightarrow> (string \<times> go_err option \<times> tcp_reader) option" where
  "ReadString delim full b =
     (case ReadSlice delim b of (frag, err, b) \<Rightarrow>
        if err = Some ErrBufferFull then ReadString delim (full @ frag) b
        else Some (full @ frag, err, b))"

text \<open>
  The first line of the answer. The reader is dropped after it, and what its buffer still
  holds with it, so the connection goes on with the bytes not read yet.
\<close>

definition proxy_status :: "conn_in \<Rightarrow> (string \<times> go_err option \<times> conn_in) option" where
  "proxy_status conn = map_option (\<lambda>(status, err, b). (status, err, rsrc b)) (ReadString CHR 0x0A '''' (NewReader conn))"

lemma ReadSlice_progress:
  assumes "roomy b" and "ReadSlice delim b = (frag, Some ErrBufferFull, b')"
  shows "length (pending b') + full_errs b' < length (pending b) + full_errs b"
proof -
  have inv: "reader_inv b" and room: "2 \<le> length (rbuf b)" using assms(1) by (simp_all add: roomy_def)
  obtain c where l: "ReadSlice_loop delim 0 b = (frag, Some ErrBufferFull, c)" "b' = set_lastByte frag c"
    using assms(2) by (auto simp: ReadSlice_def split: prod.splits)
  have "length (pending b) = length frag + length (pending b')"
    using consumes_pending [OF ReadSlice_spec(1) [OF inv assms(2)]] by simp
  then show ?thesis using full_errs_ReadSlice_loop [OF l(1) inv] room l(2) by auto
qed

lemma ReadString_returns:
  assumes "roomy b"
  shows "\<exists>line err b'. ReadString delim full b = Some (full @ line, err, b') \<and> consumes b line b'
    \<and> (err = None \<longrightarrow> (\<exists>l. line = l @ [delim] \<and> delim \<notin> set l))"
  using assms
proof (induction "length (pending b) + full_errs b" arbitrary: b full rule: less_induct)
  case less
  have inv: "reader_inv b" using less.prems by (simp add: roomy_def)
  obtain frag e c where r: "ReadSlice delim b = (frag, e, c)" by (metis prod_cases3)
  note s = ReadSlice_spec [OF inv r]
  show ?case
  proof (cases "e = Some ErrBufferFull")
    case True
    have "roomy c" using roomy_consumes [OF less.prems s(1)] .
    then obtain line err b' where i: "ReadString delim (full @ frag) c = Some ((full @ frag) @ line, err, b')"
        "consumes c line b'" "err = None \<longrightarrow> (\<exists>l. line = l @ [delim] \<and> delim \<notin> set l)"
      using less.hyps [of c "full @ frag"] ReadSlice_progress [OF less.prems] r True by blast
    have "ReadString delim full b = Some (full @ frag @ line, err, b')"
      using i(1) r True by (subst ReadString.simps) simp
    moreover have "consumes b (frag @ line) b'" using consumes_trans [OF s(1) i(2)] .
    moreover have "delim \<notin> set frag" using s(3) True by simp
    then have "err = None \<longrightarrow> (\<exists>l. frag @ line = l @ [delim] \<and> delim \<notin> set l)"
      using i(3) by (metis Un_iff append.assoc set_append)
    ultimately show ?thesis by blast
  next
    case False
    then have "ReadString delim full b = Some (full @ frag, e, c)" using r by (subst ReadString.simps) simp
    with s(1,2) show ?thesis by blast
  qed
qed

text \<open>Every byte of the connection is in the line, lost with the buffer, or still to be read.\<close>

lemma proxy_status_account:
  "\<exists>status err rest lost. proxy_status conn = Some (status, err, rest) \<and> conn_bytes conn = status @ lost @ conn_bytes rest
    \<and> length lost \<le> 4096 \<and> (err = None \<longrightarrow> (\<exists>l. status = l @ [CHR 0x0A] \<and> CHR 0x0A \<notin> set l))"
proof -
  obtain line err b where r: "ReadString CHR 0x0A '''' (NewReader conn) = Some (line, err, b)"
      "consumes (NewReader conn) line b" "err = None \<longrightarrow> (\<exists>l. line = l @ [CHR 0x0A] \<and> CHR 0x0A \<notin> set l)"
    using ReadString_returns [OF roomy_NewReader, of "CHR 0x0A" "''''" conn] by auto
  have "conn_bytes conn = line @ unread b @ conn_bytes (rsrc b)"
    using consumes_pending [OF r(2)] unfolding pending_NewReader by (simp add: pending_def)
  moreover have "length (rbuf b) = 4096"
    using r(2) by (simp add: consumes_def NewReader_def NewReaderSize_def Reader_reset_def defaultBufSize_def minReadBufferSize_def)
  then have "length (unread b) \<le> 4096" using length_unread_le [of b] by simp
  ultimately show ?thesis using r(1,3) by (simp add: proxy_status_def)
qed

lemma ReadSlice_buffered:
  assumes "buffered src b (l @ CHR 0x0A # rest)" and "CHR 0x0A \<notin> set l"
  shows "\<exists>b'. ReadSlice CHR 0x0A b = (l @ [CHR 0x0A], None, b') \<and> buffered src b' rest"
proof -
  obtain b' where b': "Reader_ReadLine False b = (l @ [CHR 0x0A], False, None, b')" "buffered src b' rest"
    using ReadLine_buffered [OF assms] by blast
  obtain line err c where r: "ReadSlice CHR 0x0A b = (line, err, c)" by (metis prod_cases3)
  have "line = l @ [CHR 0x0A] \<and> c = b'"
    using b'(1) r by (auto simp: Reader_ReadLine_def split: if_splits)
  moreover from this have "err = None"
    using ReadSlice_spec(3) [OF _ r] assms(1) by (cases err) (auto simp: buffered_def)
  ultimately show ?thesis using r b'(2) by simp
qed

lemma proxy_status_segment:
  assumes "CHR 0x0A \<notin> set l" and "length (l @ CHR 0x0A # early) \<le> 4096"
  shows "proxy_status ((l @ CHR 0x0A # early, None) # nxt) = Some (l @ [CHR 0x0A], None, nxt)"
proof -
  let ?d = "l @ CHR 0x0A # early"
  let ?b = "NewReader ((?d, None) # nxt)"
  have f: "length (rbuf ?b) = 4096" "rpos ?b = 0" "wpos ?b = 0" "rerr ?b = None" "rsrc ?b = (?d, None) # nxt"
    by (simp_all add: NewReader_def NewReaderSize_def Reader_reset_def defaultBufSize_def minReadBufferSize_def)
  have "fill ?b = ?b\<lparr>rsrc := nxt, rbuf := store_bytes (rbuf ?b) 0 ?d, wpos := length ?d\<rparr>"
    by (rule fill_first) (use f assms(2) in simp_all)
  then have "buffered nxt (fill ?b) ?d"
    using f assms(2) by (simp add: buffered_def reader_inv_def unread_def store_bytes_def)
  from ReadSlice_buffered [OF this assms(1)] obtain b' where
    b': "ReadSlice CHR 0x0A (fill ?b) = (l @ [CHR 0x0A], None, b')" "buffered nxt b' early" by blast
  have "ReadSlice_loop CHR 0x0A 0 ?b = ReadSlice_loop CHR 0x0A 0 (fill ?b)"
    using f by (subst ReadSlice_loop.simps) (simp add: Buffered_def)
  with b'(1) have "ReadSlice CHR 0x0A ?b = (l @ [CHR 0x0A], None, b')" by (simp add: ReadSlice_def)
  then have "ReadString CHR 0x0A '''' ?b = Some (l @ [CHR 0x0A], None, b')"
    by (subst ReadString.simps) simp
  then show ?thesis using b'(2) by (simp add: proxy_status_def buffered_def)
qed

subsection \<open>What the answer costs\<close>

text \<open>
  C37: What a server sends early is lost behind a proxy. Bytes that arrive in the same
  segment as the first line of the proxy's answer never reach the client, whatever the
  copying loops do; neither does the empty line of the answer when it arrives with it, but
  in a segment of its own the client receives it as the first bytes of the server.
\<close>

theorem early_reply_lost:
  assumes "CHR 0x0A \<notin> set l" and "length (l @ CHR 0x0A # early) \<le> 4096" and "loop_reader b"
    and "proxy_status ((l @ CHR 0x0A # early, None) # nxt) = Some (status, err, rest)"
    and "xfer_run D r (transfer_start b rest (-1)) x"
  shows "status = l @ [CHR 0x0A] \<and> err = None \<and> prefix (x_down x) (conn_bytes nxt)
    \<and> (clean nxt \<and> x_srvDone x \<and> x_srvErr x = None \<longrightarrow> x_down x = conn_bytes nxt)"
  using proxy_status_segment [OF assms(1,2), of nxt] assms(4) tunnel_streams [OF assms(3) _ assms(5)] by auto

subsection \<open>Two processes\<close>

lemma base64_no_newline: "CHR 0x0A \<notin> set (base64_encode s)"
proof -
  have "CHR 0x0A \<notin> set b64_alphabet" by code_simp
  then show ?thesis using base64_set [of s] by auto
qed

lemma connect_string_encrypted:
  assumes "block_cipher E D" and "length (getToken r) = 16" and "connect_string E r target True = Returns (s, None)"
  shows "\<exists>uri. s = ''CONNECT '' @ uri @ '' HTTP/1.1'' @ crlf @ crlf \<and> Fprintf_plain s = s
    \<and> CHR '' '' \<notin> set uri \<and> CHR 0x0A \<notin> set uri
    \<and> (\<forall>r'. getToken r' = getToken r \<longrightarrow> request_uri D r' ''CONNECT'' ''server'' uri = Returns (Inr target))"
proof -
  obtain x1 where x1: "EncryptAES E target (getToken r) = Returns (x1, None)"
    "length x1 = (length target div 16 + 1) * 16" "DecryptAES D x1 (getToken r) = Returns (target, None)"
    using aes_round_trip [OF assms(1,2)] by blast
  have s: "s = ''CONNECT '' @ base64_encode x1 @ '' HTTP/1.1'' @ crlf @ crlf"
    using assms(3) x1(1) by (simp add: connect_string_def)
  then have "CHR ''%'' \<notin> set s" using base64_no_percent [of x1] by (simp add: crlf_def)
  then have "Fprintf_plain s = s" unfolding Fprintf_plain_def by (rule fmt_plain_no_percent) simp
  moreover have "x1 \<noteq> []" using x1(2) by auto
  then have "getToken r' = getToken r \<Longrightarrow> request_uri D r' ''CONNECT'' ''server'' (base64_encode x1) = Returns (Inr target)" for r'
    using x1(3) by (simp add: request_uri_def base64_round_trip)
  ultimately show ?thesis
    by (intro exI [of _ "base64_encode x1"] conjI allI impI) (simp_all add: s base64_no_space base64_no_newline)
qed

text \<open>The second process: what it does with the request of the first.\<close>

lemma server_takes_request:
  assumes "block_cipher E (net_aes_dec (p_env P))" and "length (getToken r) = 16" and "getToken (p_router P) = getToken r"
    and "connect_string E r (hostport n po) True = Returns (s, None)" and "length s \<le> 4096" and "plain_name n"
    and "\<not> tcpcopy_on (p_router P)" and "p_werr P = None"
    and "handshake (p_env P) (p_cfg P) (p_router P) ProtoHTTPS n '''' (name_port po) (newTunnel (p_remote P), v) = Returns (None, t2, v2)"
  shows "\<exists>b. ServerHandler P orig ((s, None) # up) v = Some (Returns (copied established '''' b (-1) v2))
    \<and> loop_reader b \<and> pending b = conn_bytes up \<and> rsrc b = up \<and> rerr b = None"
proof -
  obtain uri where u: "s = ''CONNECT '' @ uri @ '' HTTP/1.1'' @ crlf @ crlf @ ''''" "CHR '' '' \<notin> set uri" "CHR 0x0A \<notin> set uri"
      "request_uri (net_aes_dec (p_env P)) (p_router P) ''CONNECT'' ''server'' uri = Returns (Inr (hostport n po))"
    using connect_string_encrypted [OF assms(1,2,4)] assms(3) by auto
  obtain hs rq where r: "ReadRequest (net_aes_dec (p_env P)) (p_router P) (p_werr P) ''server'' (NewRequest ((s, None) # up))
      = Some (Returns (True, None, rq))"
    "rq_Proto rq = ''http''" "rq_Stream rq = HttpStream hs" "hs_Method hs = ''CONNECT''" "rq_dst rq = (n, '''', name_port po)"
    "rq_written rq = ''''" "pending (rq_reader rq) = conn_bytes up" "rsrc (rq_reader rq) = up" "rerr (rq_reader rq) = None"
    using ReadRequest_connect_segment [OF assms(7) u(1) assms(5,6) u(2-4)] by blast
  have "response P (GetOriginalDstAddr (p_cfg P) (p_remote P) orig) rq v
      = Some (Returns (copied established '''' (rq_reader rq) (-1) v2))"
    using r(3-5) assms(8,9) by (simp add: response_def http_response_def http_forward_def Let_def)
  moreover have "server_check rq = None" using r(2-4) by (simp add: server_check_def)
  ultimately have "ServerHandler P orig ((s, None) # up) v = Some (Returns (copied established '''' (rq_reader rq) (-1) v2))"
    using handle_eq [OF r(1)] by (simp add: ServerHandler_def copied_def r(6))
  moreover have "loop_reader (rq_reader rq)"
    by (rule ReadRequest_loop_reader [OF r(1) _ assms(7)]) (simp add: NewRequest_def loop_reader_NewReader)
  ultimately show ?thesis using r(7-9) by blast
qed

lemma httpConnect_sends:
  assumes "httpConnect env r network connAddr target enc (t, w) = Returns (None, t', w')"
    and "connect_string (net_aes env) r target enc = Returns (s, None)"
  shows "NetSend (Fprintf_plain s) \<in> set (history w')"
  using assms by (auto simp: httpConnect_def record_event_def Let_def split: prod.splits option.splits if_splits)

lemma established_line: "established = ''HTTP/1.1 200 Connection established'' @ [CHR 0x0D] @ CHR 0x0A # crlf"
  by (simp add: established_def crlf_def)

lemma established_status:
  "proxy_status ((established, None) # down) = Some (''HTTP/1.1 200 Connection established'' @ crlf, None, down)"
proof -
  let ?l = "''HTTP/1.1 200 Connection established'' @ [CHR 0x0D]"
  have "proxy_status ((?l @ CHR 0x0A # crlf, None) # down) = Some (?l @ [CHR 0x0A], None, down)"
    by (rule proxy_status_segment) (simp_all add: crlf_def)
  then show ?thesis by (simp add: established_line crlf_def)
qed

text \<open>Two tunnels in a row, with a network between them that may hold bytes back.\<close>

lemma two_hops:
  assumes "loop_reader b1" and "loop_reader b2" and "pending b2 = conn_bytes up" and "rsrc b2 = up" and "rerr b2 = None"
    and "xfer_run D1 r1 (transfer_start b1 down (-1)) x1" and "xfer_run D2 r2 (transfer_start b2 origin (-1)) x2"
    and "prefix (conn_bytes up) (x_up x1)" and "prefix (conn_bytes down) (x_down x2)"
  shows "prefix (x_up x2) (pending b1)" and "prefix (x_down x1) (conn_bytes origin)"
    and "conn_bytes up = x_up x1 \<and> rerr b1 = None \<and> clean (rsrc b1) \<and> clean up
        \<and> x_req x1 \<noteq> RLoop \<and> x_reqErr x1 = None \<and> x_req x2 \<noteq> RLoop \<and> x_reqErr x2 = None \<longrightarrow> x_up x2 = pending b1"
    and "conn_bytes down = x_down x2 \<and> clean down \<and> clean origin
        \<and> x_srvDone x1 \<and> x_srvErr x1 = None \<and> x_srvDone x2 \<and> x_srvErr x2 = None \<longrightarrow> x_down x1 = conn_bytes origin"
proof -
  obtain u1 d1 where 1: "pending b1 = x_up x1 @ u1" "conn_bytes down = x_down x1 @ d1"
      "rerr b1 = None \<and> clean (rsrc b1) \<and> x_req x1 \<noteq> RLoop \<and> x_reqErr x1 = None \<longrightarrow> u1 = ''''"
      "clean down \<and> x_srvDone x1 \<and> x_srvErr x1 = None \<longrightarrow> d1 = ''''"
    using tunnel_streams [OF assms(1) _ assms(6)] by (meson neg_less_0_iff_less zero_less_one)
  obtain u2 d2 where 2: "conn_bytes up = x_up x2 @ u2" "conn_bytes origin = x_down x2 @ d2"
      "clean up \<and> x_req x2 \<noteq> RLoop \<and> x_reqErr x2 = None \<longrightarrow> u2 = ''''"
      "clean origin \<and> x_srvDone x2 \<and> x_srvErr x2 = None \<longrightarrow> d2 = ''''"
    using tunnel_streams [OF assms(2) _ assms(7)] unfolding assms(3-5) by (meson neg_less_0_iff_less zero_less_one)
  show "prefix (x_up x2) (pending b1)"
    using 1(1) 2(1) assms(8) by (metis prefixI prefix_order.order_trans)
  show "prefix (x_down x1) (conn_bytes origin)"
    using 1(2) 2(2) assms(9) by (metis prefixI prefix_order.order_trans)
  show "conn_bytes up = x_up x1 \<and> rerr b1 = None \<and> clean (rsrc b1) \<and> clean up
      \<and> x_req x1 \<noteq> RLoop \<and> x_reqErr x1 = None \<and> x_req x2 \<noteq> RLoop \<and> x_reqErr x2 = None \<longrightarrow> x_up x2 = pending b1"
    using 1(1,3) 2(1,3) by (intro impI, elim conjE) simp
  show "conn_bytes down = x_down x2 \<and> clean down \<and> clean origin
      \<and> x_srvDone x1 \<and> x_srvErr x1 = None \<and> x_srvDone x2 \<and> x_srvErr x2 = None \<longrightarrow> x_down x1 = conn_bytes origin"
    using 1(2,4) 2(2,4) by (intro impI, elim conjE) simp
qed

text \<open>
  C4: Two proxies are one. When a process in the client mode reaches a process in the tunnel
  mode with the same token and asks it for a host, the second dials exactly that host and
  answers, the first takes the answer for success, and, when the answer has come in a
  segment of its own, from then on the two copy as one tunnel: at every moment the host has
  received a prefix of what the client sent and the client a prefix of what the host sent, in
  whatever order the four goroutines run and whatever part of the bytes the network between
  the processes has delivered; and when the loops of a direction end without an error and
  everything was delivered, it is the whole.
\<close>

theorem two_proxies:
  assumes "block_cipher (net_aes env) (net_aes_dec (p_env P))" and "length (getToken r) = 16" and "getToken (p_router P) = getToken r"
    and "plain_name n" and "\<not> tcpcopy_on (p_router P)" and "p_werr P = None"
    and "connect_string (net_aes env) r (hostport n po) True = Returns (s, None)" and "length s \<le> 4096"
    and "httpConnect env r network connAddr (hostport n po) True (t, w) = Returns (None, t', w')"
    and "handshake (p_env P) (p_cfg P) (p_router P) ProtoHTTPS n '''' (name_port po) (newTunnel (p_remote P), v) = Returns (None, t2, v2)"
    and "loop_reader b1"
  shows "NetSend s \<in> set (history w') \<and>
    (\<exists>a b2. ServerHandler P orig ((s, None) # up) v = Some (Returns a) \<and> an_err a = None \<and> an_world a = v2 \<and> an_copy a = Some (b2, -1)
      \<and> proxy_status ((an_out a, None) # down) = Some (''HTTP/1.1 200 Connection established'' @ crlf, None, down)
      \<and> (\<forall>D1 r1 x1 D2 r2 x2 origin.
          xfer_run D1 r1 (transfer_start b1 down (-1)) x1 \<and> xfer_run D2 r2 (transfer_start b2 origin (-1)) x2
          \<and> prefix (conn_bytes up) (x_up x1) \<and> prefix (conn_bytes down) (x_down x2) \<longrightarrow>
          prefix (x_up x2) (pending b1) \<and> prefix (x_down x1) (conn_bytes origin)
          \<and> (conn_bytes up = x_up x1 \<and> rerr b1 = None \<and> clean (rsrc b1) \<and> clean up
              \<and> x_req x1 \<noteq> RLoop \<and> x_reqErr x1 = None \<and> x_req x2 \<noteq> RLoop \<and> x_reqErr x2 = None \<longrightarrow> x_up x2 = pending b1)
          \<and> (conn_bytes down = x_down x2 \<and> clean down \<and> clean origin
              \<and> x_srvDone x1 \<and> x_srvErr x1 = None \<and> x_srvDone x2 \<and> x_srvErr x2 = None \<longrightarrow> x_down x1 = conn_bytes origin)))"
proof -
  obtain b2 where b2: "ServerHandler P orig ((s, None) # up) v = Some (Returns (copied established '''' b2 (-1) v2))"
      "loop_reader b2" "pending b2 = conn_bytes up" "rsrc b2 = up" "rerr b2 = None"
    using server_takes_request [OF assms(1-3,7,8,4-6,10)] by blast
  have sent: "NetSend s \<in> set (history w')"
    using httpConnect_sends [OF assms(9,7)] connect_string_encrypted [OF assms(1,2,7)] by auto
  let ?a = "copied established '''' b2 (-1) v2"
  have a: "an_err ?a = None" "an_world ?a = v2" "an_copy ?a = Some (b2, -1)" "an_out ?a = established" by (simp_all add: copied_def)
  note hops = two_hops [OF assms(11) b2(2-5)]
  show ?thesis
  proof (rule conjI [OF sent], intro exI conjI allI impI)
    show "ServerHandler P orig ((s, None) # up) v = Some (Returns ?a)" by (rule b2(1))
    show "proxy_status ((an_out ?a, None) # down) = Some (''HTTP/1.1 200 Connection established'' @ crlf, None, down)"
      unfolding a by (rule established_status)
  qed (rule a | (elim conjE, rule hops(1) hops(2), assumption+) | (elim conjE, erule (3) hops(3,4) [THEN mp], blast))+
qed

subsection \<open>Examples\<close>

lemma demo_token: "getToken (demo_router x) = getToken empty_router" "length (getToken empty_router) = 16"
  by (simp_all add: getToken_def demo_router_def empty_router_def)

lemma demo_host_target: "hostport ''h.b'' (Some 8080) = ''h.b:8080''"
  by (rule host_port_8080)

lemma demo_identity: "block_cipher (\<lambda>_ b. b) (\<lambda>_ b. b)"
  by (simp add: block_cipher_def)

lemma demo_connect:
  "\<exists>s. connect_string (\<lambda>_ b. b) empty_router ''h.b:8080'' True = Returns (s, None) \<and> length s \<le> 4096"
proof -
  have "(case connect_string (\<lambda>_ b. b) empty_router ''h.b:8080'' True of Returns (s, None) \<Rightarrow> length s \<le> 4096 | _ \<Rightarrow> False)"
    by code_simp
  then show ?thesis by (auto split: outcome.splits option.splits prod.splits)
qed

lemma demo_httpConnect:
  "\<exists>t' w'. connect_string (\<lambda>_ b. b) empty_router target True = Returns (s, None) \<longrightarrow>
     httpConnect (demo_env None) empty_router net addr target True (t, w) = Returns (None, t', w')"
  by (cases "connect_string (\<lambda>_ b. b) empty_router target True")
    (auto simp: httpConnect_def dail_def demo_env_def Let_def Contains_def HasPrefix_def split: prod.splits)

theorem two_proxies_witness:
  "\<exists>s a b2. connect_string (\<lambda>_ b. b) empty_router ''h.b:8080'' True = Returns (s, None)
    \<and> ServerHandler (demo_proc '''') OrigNotTCP [(s, None), (''hello'', None)] demo_world = Some (Returns a) \<and> an_err a = None
    \<and> an_copy a = Some (b2, -1)
    \<and> proxy_status ((an_out a, None) # [(''SSH'', None)]) = Some (''HTTP/1.1 200 Connection established'' @ crlf, None, [(''SSH'', None)])"
proof -
  let ?P = "demo_proc ''''"
  obtain s where s: "connect_string (\<lambda>_ b. b) empty_router ''h.b:8080'' True = Returns (s, None)" "length s \<le> 4096"
    using demo_connect by blast
  obtain t' w' where c: "httpConnect (demo_env None) empty_router ''tcp'' ''1.2.3.4:3000'' ''h.b:8080'' True (newTunnel ''9.9.9.9:9'', demo_world)
      = Returns (None, t', w')"
    using demo_httpConnect s(1) by blast
  obtain t2 v2 where h: "handshake (p_env ?P) (p_cfg ?P) (p_router ?P) ProtoHTTPS ''h.b'' '''' (name_port (Some 8080)) (newTunnel (p_remote ?P), demo_world)
      = Returns (None, t2, v2)"
    using demo_proc_handshake [of "''h.b''" "''''" "''''"] by fastforce
  have e: "net_aes (demo_env None) = (\<lambda>_ b. b)" "net_aes_dec (p_env ?P) = (\<lambda>_ b. b)"
    by (simp_all add: demo_env_def demo_proc_def)
  have k: "block_cipher (net_aes (demo_env None)) (net_aes_dec (p_env ?P))" "length (getToken empty_router) = 16"
    "getToken (p_router ?P) = getToken empty_router" "\<not> tcpcopy_on (p_router ?P)" "p_werr ?P = None"
    by (simp_all add: e demo_identity demo_token demo_not_tcpcopy)
  have q: "connect_string (net_aes (demo_env None)) empty_router (hostport ''h.b'' (Some 8080)) True = Returns (s, None)"
    unfolding demo_host_target e by (rule s(1))
  obtain a b2 where "ServerHandler ?P OrigNotTCP [(s, None), (''hello'', None)] demo_world = Some (Returns a)" "an_err a = None"
    "an_copy a = Some (b2, -1)"
    "proxy_status [(an_out a, None), (''SSH'', None)] = Some (''HTTP/1.1 200 Connection established'' @ crlf, None, [(''SSH'', None)])"
    using two_proxies [OF k(1-3) demo_request_facts(6) k(4,5) q s(2) c [folded demo_host_target] h loop_reader_NewReader [of "[]"],
        of OrigNotTCP "[(''hello'', None)]" "[(''SSH'', None)]"] by (elim conjE exE) (rule that)
  with s(1) show ?thesis by blast
qed

theorem early_reply_lost_witness:
  "\<exists>x. xfer_run xor_cipher empty_router (transfer_start (NewReader []) [(''xy'', None)] (-1)) x
    \<and> (xfer_done x \<or> x_panic x) \<and> prefix (x_down x) ''xy''"
proof -
  let ?l = "''HTTP/1.1 200 OK'' @ [CHR 0x0D]"
  obtain x where x: "xfer_run xor_cipher empty_router (transfer_start (NewReader []) [(''xy'', None)] (-1)) x"
    "xfer_done x \<or> x_panic x" using run_to_end [OF transfer_start_ok [OF loop_reader_NewReader]] by blast
  have l: "CHR 0x0A \<notin> set ?l" "length (?l @ CHR 0x0A # ''SSH-2.0'') \<le> 4096" by simp_all
  have "prefix (x_down x) (conn_bytes [(''xy'', None)])"
    using early_reply_lost [OF l loop_reader_NewReader proxy_status_segment [OF l] x(1)] by blast
  with x show ?thesis by (auto simp: conn_bytes_def)
qed

end
