(* ===== verification/Go_Flag.thy ===== *)
theory Go_Flag
  imports Go_Prelude
begin

section \<open>Package flag\<close>

text \<open>
  The part of the standard package \<open>flag\<close> the program uses: parsing a command line against
  the declared flags. The result is the list of settings in the order they were made and the
  arguments left over; \<open>None\<close> is the exit with a usage message that the program's flag set
  chooses for every error.
\<close>

datatype flag_kind = FlagString | FlagBool | FlagInt

type_synonym flagset = "(string \<times> flag_kind) list"

definition ParseBool :: "string \<Rightarrow> bool go_ret" where
  "ParseBool s =
     (if s \<in> {''1'', ''t'', ''T'', ''TRUE'', ''true'', ''True''} then (True, None)
      else if s \<in> {''0'', ''f'', ''F'', ''FALSE'', ''false'', ''False''} then (False, None)
      else (False, Some ErrSyntax))"

definition flag_ok :: "flag_kind \<Rightarrow> string \<Rightarrow> bool" where
  "flag_ok k v =
     (case k of
        FlagString \<Rightarrow> True
      | FlagBool \<Rightarrow> snd (ParseBool v) = None
      | FlagInt \<Rightarrow> snd (ParseInt v 0 64) = None)"

text \<open>A name with an equals sign behind its first byte carries its value.\<close>

definition flag_name :: "string \<Rightarrow> string \<times> string option" where
  "flag_name name =
     (case find_byte (CHR ''='') (tl name) of
        None \<Rightarrow> (name, None)
      | Some i \<Rightarrow> (take (Suc i) name, Some (drop (i + 2) name)))"

definition flag_cons :: "flag_kind \<Rightarrow> string \<times> string \<Rightarrow> ((string \<times> string) list \<times> string list) option \<Rightarrow>
    ((string \<times> string) list \<times> string list) option" where
  "flag_cons k nv r =
     (if flag_ok k (snd nv) then map_option (\<lambda>(sets, rest). (nv # sets, rest)) r else None)"

fun flag_Parse :: "flagset \<Rightarrow> string list \<Rightarrow> ((string \<times> string) list \<times> string list) option" where
  "flag_Parse fs [] = Some ([], [])"
| "flag_Parse fs (s # args) =
     (if length s < 2 \<or> s ! 0 \<noteq> CHR ''-'' then Some ([], s # args)
      else if s = ''--'' then Some ([], args)
      else
        let name = drop (if s ! 1 = CHR ''-'' then 2 else 1) s
        in if name = [] \<or> name ! 0 = CHR ''-'' \<or> name ! 0 = CHR ''='' then None
           else case flag_name name of (name, val) \<Rightarrow>
             (case map_of fs name of
                None \<Rightarrow> None
              | Some k \<Rightarrow>
                  (case val of
                     Some v \<Rightarrow> flag_cons k (name, v) (flag_Parse fs args)
                   | None \<Rightarrow>
                       if k = FlagBool then flag_cons k (name, ''true'') (flag_Parse fs args)
                       else case args of [] \<Rightarrow> None | v # args \<Rightarrow> flag_cons k (name, v) (flag_Parse fs args))))"

declare flag_Parse.simps(2) [simp del]

text \<open>The value of a flag: the last setting, or the default.\<close>

definition flag_get :: "(string \<times> string) list \<Rightarrow> string \<Rightarrow> string \<Rightarrow> string" where
  "flag_get sets name dflt = (case map_of (rev sets) name of None \<Rightarrow> dflt | Some v \<Rightarrow> v)"

definition flag_bool :: "(string \<times> string) list \<Rightarrow> string \<Rightarrow> bool" where
  "flag_bool sets name = fst (ParseBool (flag_get sets name ''false''))"

definition flag_int :: "(string \<times> string) list \<Rightarrow> string \<Rightarrow> int" where
  "flag_int sets name = fst (ParseInt (flag_get sets name ''0'') 0 64)"

lemma flag_cons_Some:
  "flag_cons k nv r = Some (sets, rest) \<longleftrightarrow> flag_ok k (snd nv) \<and> (\<exists>ss. r = Some (ss, rest) \<and> sets = nv # ss)"
  by (auto simp: flag_cons_def)

text \<open>
  A command line whose flags are all consumed can be extended: what follows is parsed as if
  it were alone.
\<close>

lemma flag_Parse_append:
  assumes "flag_Parse fs as = Some (sets, [])" and "''--'' \<notin> set as"
  shows "flag_Parse fs (as @ bs) = map_option (\<lambda>(ss, rest). (sets @ ss, rest)) (flag_Parse fs bs)"
  using assms
proof (induction fs as arbitrary: sets rule: flag_Parse.induct)
  case (1 fs)
  then show ?case by (simp add: option.map_ident split_def)
next
  case (2 fs s args)
  let ?name = "drop (if s ! 1 = CHR ''-'' then 2 else 1) s"
  obtain name val where nv: "flag_name ?name = (name, val)" by fastforce
  from 2(4,5) have c: "\<not> (length s < 2 \<or> s ! 0 \<noteq> CHR ''-'')" "s \<noteq> ''--''"
      "\<not> (?name = [] \<or> ?name ! 0 = CHR ''-'' \<or> ?name ! 0 = CHR ''='')"
    by (auto simp: flag_Parse.simps(2) Let_def split: if_splits)
  from 2(4) c nv obtain k where k: "map_of fs name = Some k"
    by (auto simp: flag_Parse.simps(2) Let_def split: option.splits)
  have cons: "flag_cons k nv (map_option (\<lambda>(ss, rest). (sets' @ ss, rest)) r)
      = map_option (\<lambda>(ss, rest). ((nv # sets') @ ss, rest)) r"
    if "flag_ok k (snd nv)" for nv sets' and r :: "((string \<times> string) list \<times> string list) option"
    using that by (cases r) (auto simp: flag_cons_def)
  show ?case
  proof (cases val)
    case (Some v)
    from 2(4) c nv k Some obtain ss where ss: "flag_ok k v" "flag_Parse fs args = Some (ss, [])" "sets = (name, v) # ss"
      by (auto simp: flag_Parse.simps(2) Let_def flag_cons_Some)
    have "flag_Parse fs (args @ bs) = map_option (\<lambda>(s2, rest). (ss @ s2, rest)) (flag_Parse fs bs)"
      using 2(3) [OF c(1,2) refl c(3) nv [symmetric] k Some] ss(2) 2(5) by simp
    then show ?thesis
      using c nv k Some ss cons [of "(name, v)" ss] by (simp add: flag_Parse.simps(2) [of fs s] Let_def)
  next
    case None
    show ?thesis
    proof (cases "k = FlagBool")
      case True
      from 2(4) c nv k None True obtain ss where ss: "flag_ok k ''true''" "flag_Parse fs args = Some (ss, [])" "sets = (name, ''true'') # ss"
        by (auto simp: flag_Parse.simps(2) Let_def flag_cons_Some)
      have "flag_Parse fs (args @ bs) = map_option (\<lambda>(s2, rest). (ss @ s2, rest)) (flag_Parse fs bs)"
        using 2(1) [OF c(1,2) refl c(3) nv [symmetric] k None True] ss(2) 2(5) by simp
      then show ?thesis
        using c nv k None True ss cons [of "(name, ''true'')" ss] by (simp add: flag_Parse.simps(2) [of fs s] Let_def)
    next
      case False
      with 2(4) c nv k None obtain v args' where a: "args = v # args'"
        by (cases args) (auto simp: flag_Parse.simps(2) Let_def)
      from 2(4) c nv k None False a obtain ss where ss: "flag_ok k v" "flag_Parse fs args' = Some (ss, [])" "sets = (name, v) # ss"
        by (auto simp: flag_Parse.simps(2) [of fs s] Let_def flag_cons_Some)
      have "flag_Parse fs (args' @ bs) = map_option (\<lambda>(s2, rest). (ss @ s2, rest)) (flag_Parse fs bs)"
        using 2(2) [OF c(1,2) refl c(3) nv [symmetric] k None False a] ss(2) 2(5) a by simp
      then show ?thesis
        using c nv k None False a ss cons [of "(name, v)" ss] by (simp add: flag_Parse.simps(2) [of fs s] Let_def)
    qed
  qed
qed

end
