(* ===== verification/Stress_Copy.thy ===== *)
theory Stress_Copy
  imports Copying_Streams Go_Flag Step_Runs "HOL-Library.Sublist"
begin

section \<open>The stress tool\<close>

text \<open>
  The program of \<open>examples/stress/tcpcopy.go\<close>, which multiplies the traffic of one
  connection: every client it accepts is connected to the server under test as many times as
  \<open>-num\<close> says, what the client sends goes to all these connections, and the answer of the
  first goes back to the client. The answers of the others are read and counted. The tool
  uses the buffered reader of the proxy (\<open>proto/tcp\<close>), and its loops were copied from the
  tunnel, so the lemmas on reads of \<open>Copying\<close> and \<open>Copying_Streams\<close> carry the proofs.
\<close>

subsection \<open>The command line\<close>

record stress_opts =
  so_listen :: string
  so_server :: string
  so_num :: int
  so_connTimeout :: int
  so_writeTimeout :: int
  so_mustLen :: int
  so_panicLen :: int
  so_ignore :: bool
  so_debug :: int

definition stress_flags :: flagset where
  "stress_flags =
     [(''listen'', FlagString), (''server'', FlagString), (''num'', FlagInt), (''connTimeout'', FlagInt), (''writeTimeout'', FlagInt),
      (''mustLen'', FlagInt), (''panicLen'', FlagInt), (''ignoreDog'', FlagBool), (''debug'', FlagInt)]"

definition flag_int_or :: "(string \<times> string) list \<Rightarrow> string \<Rightarrow> string \<Rightarrow> int" where
  "flag_int_or sets name dflt = fst (ParseInt (flag_get sets name dflt) 0 64)"

definition stress_values :: "(string \<times> string) list \<Rightarrow> stress_opts" where
  "stress_values sets =
     \<lparr>so_listen = flag_get sets ''listen'' '':6000'', so_server = flag_get sets ''server'' '':8000'',
      so_num = flag_int_or sets ''num'' ''1'', so_connTimeout = flag_int_or sets ''connTimeout'' ''5'',
      so_writeTimeout = flag_int sets ''writeTimeout'', so_mustLen = flag_int sets ''mustLen'',
      so_panicLen = flag_int sets ''panicLen'', so_ignore = flag_bool sets ''ignoreDog'', so_debug = flag_int sets ''debug''\<rparr>"

text \<open>The settings \<open>main\<close> accepts connections with; \<open>None\<close> is the exit with a usage message.\<close>

definition stress_main :: "string list \<Rightarrow> stress_opts option" where
  "stress_main args =
     map_option (\<lambda>(sets, rest). let o' = stress_values sets in if so_num o' \<le> 0 then o'\<lparr>so_num := 1\<rparr> else o')
       (flag_Parse stress_flags args)"

subsection \<open>Accepting\<close>

datatype stress_accept_res = StressConn string conn_in | StressErr string bool

text \<open>
  The connections that are served, with the error that ended the loop; it is still running
  when there is none. A temporary error only costs five milliseconds.
\<close>

fun stress_accept :: "bool \<Rightarrow> stress_accept_res list \<Rightarrow> conn_in list \<times> string option" where
  "stress_accept ignore [] = ([], None)"
| "stress_accept ignore (StressErr text temporary # rs) =
     (if Contains text ''use of closed network connection'' then ([], Some text)
      else if temporary then stress_accept ignore rs
      else ([], Some text))"
| "stress_accept ignore (StressConn remote rw # rs) =
     (if ignore \<and> Contains remote ''127.0.0.1:'' then stress_accept ignore rs
      else case stress_accept ignore rs of (conns, err) \<Rightarrow> (rw # conns, err))"

subsection \<open>State\<close>

text \<open>
  A connection to the server under test: its reader, what was written to it, whether its
  writing side was closed, and the bytes read by its goroutine with whether that has ended.
\<close>

record stress_target =
  tg_reader :: tcp_reader
  tg_sent :: string
  tg_closeWrite :: bool
  tg_count :: int
  tg_done :: bool

text \<open>Where the goroutine of the request is: in its loop, behind the \<open>CloseWrite\<close>s, or returned.\<close>

datatype stress_pc = SqLoop | SqClosing | SqDone

record stress =
  st_client :: tcp_reader
  st_clientClosed :: bool
  st_down :: string
  st_targets :: "stress_target list"
  st_curState :: tun_state
  st_readSize :: int
  st_writeSize :: int
  st_closeWrite :: int
  st_reqErr :: "go_err option"
  st_srvErr :: "go_err option"
  st_req :: stress_pc
  st_srvDone :: bool
  st_errLenNum :: int
  st_finished :: bool
  st_panic :: bool

definition stress_newTunnel :: "conn_in \<Rightarrow> stress" where
  "stress_newTunnel client =
     \<lparr>st_client = NewReader client, st_clientClosed = False, st_down = '''', st_targets = [], st_curState = StNew,
      st_readSize = 0, st_writeSize = 0, st_closeWrite = 0, st_reqErr = None, st_srvErr = None, st_req = SqLoop,
      st_srvDone = False, st_errLenNum = 0, st_finished = False, st_panic = False\<rparr>"

definition new_target :: "conn_in \<Rightarrow> stress_target" where
  "new_target conn =
     \<lparr>tg_reader = NewReader conn, tg_sent = '''', tg_closeWrite = False, tg_count = 0, tg_done = False\<rparr>"

definition addTarget :: "conn_in \<Rightarrow> stress \<Rightarrow> stress" where
  "addTarget conn s = s\<lparr>st_targets := st_targets s @ [new_target conn]\<rparr>"

text \<open>
  \<open>dial i\<close> is what connecting for the \<open>i\<close>-th time gives. With an error the client is closed
  and nothing is copied (\<open>None\<close>).
\<close>

fun stress_dial :: "(nat \<Rightarrow> go_err + conn_in) \<Rightarrow> nat list \<Rightarrow> stress \<Rightarrow> stress option" where
  "stress_dial dial [] s = Some s"
| "stress_dial dial (i # is) s =
     (case dial i of Inl err \<Rightarrow> None | Inr conn \<Rightarrow> stress_dial dial is (addTarget conn s))"

text \<open>The state in which \<open>transfer\<close> starts its goroutines.\<close>

definition stress_conn :: "stress_opts \<Rightarrow> (nat \<Rightarrow> go_err + conn_in) \<Rightarrow> conn_in \<Rightarrow> stress option" where
  "stress_conn o' dial rwc =
     map_option (\<lambda>s. s\<lparr>st_curState := StActive\<rparr>) (stress_dial dial [0..<nat (so_num o')] (stress_newTunnel rwc))"

subsection \<open>The loops\<close>

text \<open>The text of an error.\<close>

fun err_Error :: "go_err \<Rightarrow> string" where
  "err_Error EOF = ''EOF''"
| "err_Error ErrShortWrite = ''short write''"
| "err_Error ErrNoProgress = ''multiple Read calls return no data or error''"
| "err_Error ErrBufferFull = ''tcpReader: buffer full''"
| "err_Error ErrNegativeCount = ''tcpReader: negative count''"
| "err_Error ErrSyntax = ''invalid syntax''"
| "err_Error ErrRange = ''value out of range''"
| "err_Error (ErrNet text) = text"
| "err_Error (ErrMsg text) = text"

definition stress_err :: "string \<Rightarrow> go_err \<Rightarrow> go_err" where
  "stress_err n err = ErrMsg (''id#'' @ n @ '' '' @ err_Error err)"

text \<open>The error of writing a chunk, as the loop reports it.\<close>

definition stress_write_err :: "writer \<Rightarrow> string \<Rightarrow> go_err option" where
  "stress_write_err w d =
     map_option (stress_err (if snd (w (length d)) \<noteq> None then ''1'' else ''2'')) (snd (copy_write w d))"

text \<open>A chunk goes to every connection, whatever the write to the first has given.\<close>

definition write_all :: "(nat \<Rightarrow> writer) \<Rightarrow> string \<Rightarrow> stress_target list \<Rightarrow> stress_target list" where
  "write_all w d ts = map (\<lambda>(k, t). t\<lparr>tg_sent := tg_sent t @ fst (copy_write (w k) d)\<rparr>) (enumerate 0 ts)"

definition close_all :: "(nat \<Rightarrow> bool) \<Rightarrow> stress_target list \<Rightarrow> stress_target list" where
  "close_all cw ts = map (\<lambda>(k, t). if cw k then t\<lparr>tg_closeWrite := True\<rparr> else t) (enumerate 0 ts)"

text \<open>The end of the request: \<open>cw k\<close> says whether \<open>CloseWrite\<close> of the \<open>k\<close>-th connection succeeds.\<close>

definition stress_request_end :: "(nat \<Rightarrow> bool) \<Rightarrow> go_err option \<Rightarrow> stress \<Rightarrow> stress" where
  "stress_request_end cw er s =
     (case er of
        None \<Rightarrow> s
      | Some e \<Rightarrow>
          let err = (if e \<noteq> EOF then Some (stress_err ''3'' e) else None);
              err = (if Contains (err_Error e) ''use of closed network connection'' then None else err)
          in s\<lparr>st_reqErr := err, st_targets := close_all cw (st_targets s),
               st_closeWrite := st_closeWrite s + int (length (filter cw [0..<length (st_targets s)])), st_req := SqClosing\<rparr>)"

definition stress_request_iter :: "(nat \<Rightarrow> writer) \<Rightarrow> (nat \<Rightarrow> bool) \<Rightarrow> stress \<Rightarrow> stress" where
  "stress_request_iter w cw s =
     (case Reader_Read copy_size (st_client s) of (d, er, b) \<Rightarrow>
        let s = s\<lparr>st_client := b\<rparr>
        in if d = [] then stress_request_end cw er s
           else
             let s = s\<lparr>st_targets := write_all w d (st_targets s),
                       st_readSize := st_readSize s + int (length (fst (copy_write (w 0) d)))\<rparr>
             in case stress_write_err (w 0) d of
                  Some err \<Rightarrow> s\<lparr>st_reqErr := Some err, st_req := SqDone\<rparr>
                | None \<Rightarrow> stress_request_end cw er s)"

definition stress_server_end :: "go_err option \<Rightarrow> stress \<Rightarrow> stress" where
  "stress_server_end er s =
     (case er of
        None \<Rightarrow> s
      | Some e \<Rightarrow>
          if e \<noteq> EOF then s\<lparr>st_srvErr := Some (stress_err ''3'' e), st_srvDone := True\<rparr>
          else if st_curState s \<noteq> StClosed then
            s\<lparr>st_client := (st_client s)\<lparr>rsrc := closed_conn\<rparr>, st_clientClosed := True, st_srvDone := True\<rparr>
          else s\<lparr>st_srvDone := True\<rparr>)"

definition set_reader :: "nat \<Rightarrow> tcp_reader \<Rightarrow> stress \<Rightarrow> stress" where
  "set_reader k b s = s\<lparr>st_targets := (st_targets s)[k := (st_targets s ! k)\<lparr>tg_reader := b\<rparr>]\<rparr>"

definition stress_server_iter :: "writer \<Rightarrow> stress \<Rightarrow> stress" where
  "stress_server_iter w s =
     (case Reader_Read copy_size (tg_reader (st_targets s ! 0)) of (d, er, b) \<Rightarrow>
        let s = set_reader 0 b s
        in if d = [] then stress_server_end er s
           else
             let out = fst (copy_write w d);
                 s = s\<lparr>st_down := st_down s @ out, st_writeSize := st_writeSize s + int (length out)\<rparr>
             in case stress_write_err w d of
                  Some err \<Rightarrow> s\<lparr>st_srvErr := Some err, st_srvDone := True\<rparr>
                | None \<Rightarrow> stress_server_end er s)"

text \<open>
  What becomes of an answer of \<open>c\<close> bytes on one of the other connections: \<open>None\<close> is the
  panic, otherwise the number to add to the counter of wrong lengths.
\<close>

definition wrong_len :: "stress_opts \<Rightarrow> int \<Rightarrow> bool" where
  "wrong_len o' c \<longleftrightarrow> so_mustLen o' > 0 \<and> c \<noteq> so_mustLen o'"

definition length_check :: "stress_opts \<Rightarrow> int \<Rightarrow> int option" where
  "length_check o' c =
     (if so_debug o' \<ge> 1 then
        (if so_panicLen o' > 0 \<and> c \<noteq> so_panicLen o' then None
         else if wrong_len o' c then Some 1 else Some 0)
      else if wrong_len o' c then Some 1 else Some 0)"

definition discard_iter :: "stress_opts \<Rightarrow> nat \<Rightarrow> stress \<Rightarrow> stress" where
  "discard_iter o' k s =
     (case Reader_Read copy_size (tg_reader (st_targets s ! k)) of (d, er, b) \<Rightarrow>
        let c = tg_count (st_targets s ! k) + int (length d);
            s = s\<lparr>st_targets := (st_targets s)[k := (st_targets s ! k)\<lparr>tg_reader := b, tg_count := c, tg_done := er \<noteq> None\<rparr>]\<rparr>
        in if er = None then s
           else case length_check o' c of
                  None \<Rightarrow> s\<lparr>st_panic := True\<rparr>
                | Some n \<Rightarrow> s\<lparr>st_errLenNum := st_errLenNum s + n\<rparr>)"

text \<open>The rest of \<open>transfer\<close>, when all goroutines have ended.\<close>

definition stress_ended :: "stress \<Rightarrow> bool" where
  "stress_ended s \<longleftrightarrow> st_srvDone s \<and> st_req s = SqDone \<and> (\<forall>t \<in> set (tl (st_targets s)). tg_done t)"

definition stress_finish :: "stress_opts \<Rightarrow> stress \<Rightarrow> stress" where
  "stress_finish o' s =
     s\<lparr>st_finished := True, st_errLenNum := st_errLenNum s + (if wrong_len o' (st_writeSize s) then 1 else 0)\<rparr>"

text \<open>
  A step of one of the goroutines. The size \<open>st_readSize\<close> and the counts are kept up to date
  by the steps, where the code assigns a local count at the end of a loop. \<open>H\<close> is a set of
  connections whose writes and \<open>CloseWrite\<close> do not fail; it may be empty.
\<close>

inductive stress_step :: "stress_opts \<Rightarrow> nat set \<Rightarrow> stress \<Rightarrow> stress \<Rightarrow> bool" for o' H where
  stress_request: "\<not> st_panic s \<Longrightarrow> st_req s = SqLoop \<Longrightarrow> (\<And>k. writer_ok (w k)) \<Longrightarrow>
     (\<And>k. k \<in> H \<Longrightarrow> w k = full_writer \<and> cw k) \<Longrightarrow> stress_step o' H s (stress_request_iter w cw s)"
| stress_closing: "\<not> st_panic s \<Longrightarrow> st_req s = SqClosing \<Longrightarrow>
     stress_step o' H s (s\<lparr>st_curState := StClosed, st_req := SqDone\<rparr>)"
| stress_server: "\<not> st_panic s \<Longrightarrow> \<not> st_srvDone s \<Longrightarrow> writer_ok w \<Longrightarrow> stress_step o' H s (stress_server_iter w s)"
| stress_discard: "\<not> st_panic s \<Longrightarrow> 0 < k \<Longrightarrow> k < length (st_targets s) \<Longrightarrow> \<not> tg_done (st_targets s ! k) \<Longrightarrow>
     stress_step o' H s (discard_iter o' k s)"
| stress_end: "\<not> st_panic s \<Longrightarrow> stress_ended s \<Longrightarrow> \<not> st_finished s \<Longrightarrow> stress_step o' H s (stress_finish o' s)"

inductive_cases stress_stepE: "stress_step o' H s s'"

abbreviation stress_run :: "stress_opts \<Rightarrow> nat set \<Rightarrow> stress \<Rightarrow> stress \<Rightarrow> bool" where
  "stress_run o' H \<equiv> (stress_step o' H)\<^sup>*\<^sup>*"

subsection \<open>Writes and iterations\<close>

lemma copy_write_full [simp]: "copy_write full_writer d = (d, None)"
  by (simp add: copy_write_def full_writer_def)

lemma copy_write_take: "\<exists>n. fst (copy_write w d) = take n d"
  using copy_write_spec [of w d "fst (copy_write w d)" "snd (copy_write w d)"] by auto

lemma copy_write_Nil [simp]: "fst (copy_write w '''') = ''''"
  using copy_write_take [of w "''''"] by auto

lemma stress_write_full: "stress_write_err w d = None \<Longrightarrow> fst (copy_write w d) = d"
  using copy_write_spec [of w d "fst (copy_write w d)" None] by (simp add: stress_write_err_def prod_eq_iff)

lemma length_all [simp]: "length (write_all w d ts) = length ts" "length (close_all cw ts) = length ts"
  by (simp_all add: write_all_def close_all_def)

lemma nth_write_all [simp]:
  "k < length ts \<Longrightarrow> write_all w d ts ! k = (ts ! k)\<lparr>tg_sent := tg_sent (ts ! k) @ fst (copy_write (w k) d)\<rparr>"
  by (simp add: write_all_def nth_enumerate_eq)

lemma nth_close_all [simp]:
  "k < length ts \<Longrightarrow> close_all cw ts ! k = (if cw k then (ts ! k)\<lparr>tg_closeWrite := True\<rparr> else ts ! k)"
  by (simp add: close_all_def nth_enumerate_eq)

lemma write_all_Nil [simp]: "write_all w '''' ts = ts"
  by (rule nth_equalityI) simp_all

text \<open>The state after a chunk was written.\<close>

definition stress_sent :: "(nat \<Rightarrow> writer) \<Rightarrow> string \<Rightarrow> tcp_reader \<Rightarrow> stress \<Rightarrow> stress" where
  "stress_sent w d b s = s\<lparr>st_client := b, st_targets := write_all w d (st_targets s),
     st_readSize := st_readSize s + int (length (fst (copy_write (w 0) d)))\<rparr>"

lemma stress_request_cases:
  assumes "Reader_Read copy_size (st_client s) = (d, er, b)"
  shows "stress_request_iter w cw s = stress_request_end cw er (stress_sent w d b s) \<and> fst (copy_write (w 0) d) = d
    \<or> (\<exists>err. stress_request_iter w cw s = (stress_sent w d b s)\<lparr>st_reqErr := Some err, st_req := SqDone\<rparr>)"
proof (cases "d = ''''")
  case True
  then show ?thesis using assms by (simp add: stress_request_iter_def stress_sent_def)
next
  case False
  show ?thesis
  proof (cases "stress_write_err (w 0) d")
    case None
    with False assms stress_write_full [OF None] show ?thesis by (simp add: stress_request_iter_def stress_sent_def)
  next
    case (Some err)
    with False assms have "stress_request_iter w cw s = (stress_sent w d b s)\<lparr>st_reqErr := Some err, st_req := SqDone\<rparr>"
      by (simp add: stress_request_iter_def stress_sent_def)
    then show ?thesis by blast
  qed
qed

definition stress_received :: "string \<Rightarrow> tcp_reader \<Rightarrow> stress \<Rightarrow> stress" where
  "stress_received out b s =
     (set_reader 0 b s)\<lparr>st_down := st_down s @ out, st_writeSize := st_writeSize s + int (length out)\<rparr>"

lemma stress_server_cases:
  assumes "Reader_Read copy_size (tg_reader (st_targets s ! 0)) = (d, er, b)"
  shows "stress_server_iter w s = stress_server_end er (stress_received d b s)
    \<or> (\<exists>n err. stress_server_iter w s = (stress_received (take n d) b s)\<lparr>st_srvErr := Some err, st_srvDone := True\<rparr>)"
proof (cases "d = ''''")
  case True
  then show ?thesis using assms by (simp add: stress_server_iter_def stress_received_def set_reader_def)
next
  case False
  obtain n where n: "fst (copy_write w d) = take n d" using copy_write_take by blast
  show ?thesis
  proof (cases "stress_write_err w d")
    case None
    with False assms stress_write_full [OF None] show ?thesis
      by (simp add: stress_server_iter_def stress_received_def set_reader_def)
  next
    case (Some err)
    with False assms n have "stress_server_iter w s = (stress_received (take n d) b s)\<lparr>st_srvErr := Some err, st_srvDone := True\<rparr>"
      by (simp add: stress_server_iter_def stress_received_def set_reader_def)
    then show ?thesis by blast
  qed
qed

subsection \<open>Readers\<close>

definition stress_ok :: "stress \<Rightarrow> bool" where
  "stress_ok s \<longleftrightarrow> st_targets s \<noteq> [] \<and> loop_reader (st_client s) \<and> (\<forall>t \<in> set (st_targets s). loop_reader (tg_reader t))"

lemma stress_ok_nth: "stress_ok s \<Longrightarrow> k < length (st_targets s) \<Longrightarrow> loop_reader (tg_reader (st_targets s ! k))"
  by (simp add: stress_ok_def)

lemma loop_reader_read:
  assumes "loop_reader b" and "Reader_Read copy_size b = (d, e, b')"
  shows "loop_reader b' \<and> pending b = d @ pending b' \<and> (e = None \<longrightarrow> reader_work b' < reader_work b)"
  using copy_read [OF _ _ assms(2)] assms(1) by (auto simp: loop_reader_def)

lemma map_update_same: "f y = f (xs ! k) \<Longrightarrow> map f (xs[k := y]) = map f xs"
  by (cases "k < length xs") (auto simp: nth_list_update not_less intro!: nth_equalityI)

lemma map_write_all:
  "map tg_reader (write_all w d ts) = map tg_reader ts" "map tg_closeWrite (write_all w d ts) = map tg_closeWrite ts"
  "map tg_count (write_all w d ts) = map tg_count ts" "map tg_done (write_all w d ts) = map tg_done ts"
  by (rule nth_equalityI; simp)+

lemma map_close_all:
  "map tg_reader (close_all cw ts) = map tg_reader ts" "map tg_sent (close_all cw ts) = map tg_sent ts"
  "map tg_count (close_all cw ts) = map tg_count ts" "map tg_done (close_all cw ts) = map tg_done ts"
  by (rule nth_equalityI; simp)+

lemma stress_request_end_simps [simp]:
  "st_client (stress_request_end cw er s) = st_client s" "st_clientClosed (stress_request_end cw er s) = st_clientClosed s"
  "st_down (stress_request_end cw er s) = st_down s" "st_curState (stress_request_end cw er s) = st_curState s"
  "st_writeSize (stress_request_end cw er s) = st_writeSize s" "st_srvErr (stress_request_end cw er s) = st_srvErr s"
  "st_srvDone (stress_request_end cw er s) = st_srvDone s" "st_errLenNum (stress_request_end cw er s) = st_errLenNum s"
  "st_finished (stress_request_end cw er s) = st_finished s" "st_panic (stress_request_end cw er s) = st_panic s"
  "map tg_reader (st_targets (stress_request_end cw er s)) = map tg_reader (st_targets s)"
  "map tg_sent (st_targets (stress_request_end cw er s)) = map tg_sent (st_targets s)"
  "map tg_count (st_targets (stress_request_end cw er s)) = map tg_count (st_targets s)"
  "map tg_done (st_targets (stress_request_end cw er s)) = map tg_done (st_targets s)"
  "length (st_targets (stress_request_end cw er s)) = length (st_targets s)"
  by (cases er; simp add: stress_request_end_def map_close_all)+

lemma stress_sent_simps [simp]:
  "st_client (stress_sent w d b s) = b" "st_clientClosed (stress_sent w d b s) = st_clientClosed s"
  "st_down (stress_sent w d b s) = st_down s" "st_curState (stress_sent w d b s) = st_curState s"
  "st_writeSize (stress_sent w d b s) = st_writeSize s" "st_srvErr (stress_sent w d b s) = st_srvErr s"
  "st_srvDone (stress_sent w d b s) = st_srvDone s" "st_errLenNum (stress_sent w d b s) = st_errLenNum s"
  "st_finished (stress_sent w d b s) = st_finished s" "st_panic (stress_sent w d b s) = st_panic s"
  "st_req (stress_sent w d b s) = st_req s" "st_reqErr (stress_sent w d b s) = st_reqErr s"
  "st_targets (stress_sent w d b s) = write_all w d (st_targets s)"
  by (simp_all add: stress_sent_def)

lemma stress_server_end_simps [simp]:
  "st_down (stress_server_end er s) = st_down s" "st_curState (stress_server_end er s) = st_curState s"
  "st_writeSize (stress_server_end er s) = st_writeSize s" "st_req (stress_server_end er s) = st_req s"
  "st_reqErr (stress_server_end er s) = st_reqErr s" "st_errLenNum (stress_server_end er s) = st_errLenNum s"
  "st_finished (stress_server_end er s) = st_finished s" "st_panic (stress_server_end er s) = st_panic s"
  "st_targets (stress_server_end er s) = st_targets s"
  by (cases er; simp add: stress_server_end_def)+

lemma stress_received_simps [simp]:
  "st_client (stress_received d b s) = st_client s" "st_clientClosed (stress_received d b s) = st_clientClosed s"
  "st_down (stress_received d b s) = st_down s @ d" "st_curState (stress_received d b s) = st_curState s"
  "st_writeSize (stress_received d b s) = st_writeSize s + int (length d)" "st_req (stress_received d b s) = st_req s"
  "st_reqErr (stress_received d b s) = st_reqErr s" "st_srvErr (stress_received d b s) = st_srvErr s"
  "st_srvDone (stress_received d b s) = st_srvDone s" "st_errLenNum (stress_received d b s) = st_errLenNum s"
  "st_finished (stress_received d b s) = st_finished s" "st_panic (stress_received d b s) = st_panic s"
  "st_targets (stress_received d b s) = (st_targets s)[0 := (st_targets s ! 0)\<lparr>tg_reader := b\<rparr>]"
  by (simp_all add: stress_received_def set_reader_def)

text \<open>What the two kinds of loops leave alone.\<close>

lemma stress_request_keeps:
  "st_down (stress_request_iter w cw s) = st_down s" "st_curState (stress_request_iter w cw s) = st_curState s"
  "st_writeSize (stress_request_iter w cw s) = st_writeSize s" "st_srvErr (stress_request_iter w cw s) = st_srvErr s"
  "st_srvDone (stress_request_iter w cw s) = st_srvDone s" "st_errLenNum (stress_request_iter w cw s) = st_errLenNum s"
  "st_finished (stress_request_iter w cw s) = st_finished s" "st_panic (stress_request_iter w cw s) = st_panic s"
  "st_clientClosed (stress_request_iter w cw s) = st_clientClosed s"
  "map tg_reader (st_targets (stress_request_iter w cw s)) = map tg_reader (st_targets s)"
  "map tg_count (st_targets (stress_request_iter w cw s)) = map tg_count (st_targets s)"
  "map tg_done (st_targets (stress_request_iter w cw s)) = map tg_done (st_targets s)"
  "length (st_targets (stress_request_iter w cw s)) = length (st_targets s)"
proof -
  obtain d er b where "Reader_Read copy_size (st_client s) = (d, er, b)" by (metis prod_cases3)
  note c = stress_request_cases [OF this, of w cw]
  show "st_down (stress_request_iter w cw s) = st_down s" "st_curState (stress_request_iter w cw s) = st_curState s"
    "st_writeSize (stress_request_iter w cw s) = st_writeSize s" "st_srvErr (stress_request_iter w cw s) = st_srvErr s"
    "st_srvDone (stress_request_iter w cw s) = st_srvDone s" "st_errLenNum (stress_request_iter w cw s) = st_errLenNum s"
    "st_finished (stress_request_iter w cw s) = st_finished s" "st_panic (stress_request_iter w cw s) = st_panic s"
    "st_clientClosed (stress_request_iter w cw s) = st_clientClosed s"
    "map tg_reader (st_targets (stress_request_iter w cw s)) = map tg_reader (st_targets s)"
    "map tg_count (st_targets (stress_request_iter w cw s)) = map tg_count (st_targets s)"
    "map tg_done (st_targets (stress_request_iter w cw s)) = map tg_done (st_targets s)"
    "length (st_targets (stress_request_iter w cw s)) = length (st_targets s)"
    using c by (auto simp: map_write_all)
qed

lemma stress_server_end_client: "st_client (stress_server_end er s) = st_client s \<and> st_clientClosed (stress_server_end er s) = st_clientClosed s
   \<or> st_client (stress_server_end er s) = (st_client s)\<lparr>rsrc := closed_conn\<rparr> \<and> st_clientClosed (stress_server_end er s)"
  by (cases er) (auto simp: stress_server_end_def)

lemma stress_server_keeps:
  "st_curState (stress_server_iter w s) = st_curState s" "st_req (stress_server_iter w s) = st_req s"
  "st_reqErr (stress_server_iter w s) = st_reqErr s" "st_errLenNum (stress_server_iter w s) = st_errLenNum s"
  "st_finished (stress_server_iter w s) = st_finished s" "st_panic (stress_server_iter w s) = st_panic s"
  "map tg_sent (st_targets (stress_server_iter w s)) = map tg_sent (st_targets s)"
  "map tg_closeWrite (st_targets (stress_server_iter w s)) = map tg_closeWrite (st_targets s)"
  "\<exists>b. st_targets (stress_server_iter w s) = (st_targets s)[0 := (st_targets s ! 0)\<lparr>tg_reader := b\<rparr>]"
  "st_client (stress_server_iter w s) = st_client s \<and> st_clientClosed (stress_server_iter w s) = st_clientClosed s
   \<or> st_client (stress_server_iter w s) = (st_client s)\<lparr>rsrc := closed_conn\<rparr> \<and> st_clientClosed (stress_server_iter w s)"
proof -
  obtain d er b where "Reader_Read copy_size (tg_reader (st_targets s ! 0)) = (d, er, b)" by (metis prod_cases3)
  note c = stress_server_cases [OF this, of w]
  show "st_curState (stress_server_iter w s) = st_curState s" "st_req (stress_server_iter w s) = st_req s"
    "st_reqErr (stress_server_iter w s) = st_reqErr s" "st_errLenNum (stress_server_iter w s) = st_errLenNum s"
    "st_finished (stress_server_iter w s) = st_finished s" "st_panic (stress_server_iter w s) = st_panic s"
    "map tg_sent (st_targets (stress_server_iter w s)) = map tg_sent (st_targets s)"
    "map tg_closeWrite (st_targets (stress_server_iter w s)) = map tg_closeWrite (st_targets s)"
    using c by (auto simp: map_update_same)
  show "\<exists>b. st_targets (stress_server_iter w s) = (st_targets s)[0 := (st_targets s ! 0)\<lparr>tg_reader := b\<rparr>]"
    using c by auto
  show "st_client (stress_server_iter w s) = st_client s \<and> st_clientClosed (stress_server_iter w s) = st_clientClosed s
   \<or> st_client (stress_server_iter w s) = (st_client s)\<lparr>rsrc := closed_conn\<rparr> \<and> st_clientClosed (stress_server_iter w s)"
    using c stress_server_end_client [of er "stress_received d b s"] by auto
qed

lemma discard_targets:
  assumes "Reader_Read copy_size (tg_reader (st_targets s ! k)) = (d, er, b)"
  shows "st_targets (discard_iter o' k s) = (st_targets s)[k := (st_targets s ! k)\<lparr>tg_reader := b,
    tg_count := tg_count (st_targets s ! k) + int (length d), tg_done := er \<noteq> None\<rparr>]"
  using assms by (auto simp: discard_iter_def Let_def split: option.split)

lemma discard_iter_keeps:
  "st_client (discard_iter o' k s) = st_client s" "st_clientClosed (discard_iter o' k s) = st_clientClosed s"
  "st_down (discard_iter o' k s) = st_down s" "st_curState (discard_iter o' k s) = st_curState s"
  "st_writeSize (discard_iter o' k s) = st_writeSize s" "st_req (discard_iter o' k s) = st_req s"
  "st_reqErr (discard_iter o' k s) = st_reqErr s" "st_srvErr (discard_iter o' k s) = st_srvErr s"
  "st_srvDone (discard_iter o' k s) = st_srvDone s" "st_finished (discard_iter o' k s) = st_finished s"
  "map tg_sent (st_targets (discard_iter o' k s)) = map tg_sent (st_targets s)"
  "map tg_closeWrite (st_targets (discard_iter o' k s)) = map tg_closeWrite (st_targets s)"
  by (auto simp: discard_iter_def Let_def map_update_same split: prod.split option.split)

lemma stress_ok_eq:
  "stress_ok s \<longleftrightarrow> map tg_reader (st_targets s) \<noteq> [] \<and> loop_reader (st_client s) \<and> (\<forall>b \<in> set (map tg_reader (st_targets s)). loop_reader b)"
  by (simp add: stress_ok_def)

lemma stress_ok_update:
  assumes "stress_ok s" and "st_targets s' = (st_targets s)[k := t]" and "loop_reader (tg_reader t)" and "loop_reader (st_client s')"
  shows "stress_ok s'"
  using assms set_update_subset_insert [of "st_targets s" k t] by (auto simp: stress_ok_def)

lemma loop_reader_rsrc [simp]: "loop_reader (b\<lparr>rsrc := c\<rparr>) = loop_reader b"
  by (simp add: loop_reader_def)

lemma stress_request_client:
  assumes "stress_ok s"
  shows "loop_reader (st_client (stress_request_iter w cw s))"
proof -
  obtain d er b where r: "Reader_Read copy_size (st_client s) = (d, er, b)" by (metis prod_cases3)
  have "loop_reader b" using loop_reader_read [OF _ r] assms by (simp add: stress_ok_def)
  then show ?thesis using stress_request_cases [OF r, of w cw] by auto
qed

lemma stress_server_reader:
  assumes "stress_ok s"
  shows "\<exists>b. st_targets (stress_server_iter w s) = (st_targets s)[0 := (st_targets s ! 0)\<lparr>tg_reader := b\<rparr>] \<and> loop_reader b"
proof -
  obtain d er b where r: "Reader_Read copy_size (tg_reader (st_targets s ! 0)) = (d, er, b)" by (metis prod_cases3)
  have "0 < length (st_targets s)" using assms by (simp add: stress_ok_def)
  then have "loop_reader b" using loop_reader_read [OF stress_ok_nth [OF assms] r] by blast
  then show ?thesis using stress_server_cases [OF r, of w] by auto
qed

lemma stress_step_ok:
  assumes "stress_step o' H s s'" and "stress_ok s"
  shows "stress_ok s'"
  using assms(1)
proof cases
  case (stress_request w cw)
  have "map tg_reader (st_targets s') = map tg_reader (st_targets s)" unfolding stress_request(1) by (rule stress_request_keeps)
  then show ?thesis
    using assms(2) stress_request_client [OF assms(2), of w cw] unfolding stress_ok_eq stress_request(1) by metis
next
  case (stress_server w)
  obtain b where "st_targets s' = (st_targets s)[0 := (st_targets s ! 0)\<lparr>tg_reader := b\<rparr>]" "loop_reader b"
    using stress_server_reader [OF assms(2), of w] stress_server(1) by blast
  moreover have "loop_reader (st_client s')"
    using stress_server_keeps(10) [of w s] assms(2) stress_server(1) by (auto simp: stress_ok_def)
  ultimately show ?thesis using stress_ok_update [OF assms(2)] by simp
next
  case (stress_discard k)
  obtain d er b where r: "Reader_Read copy_size (tg_reader (st_targets s ! k)) = (d, er, b)" by (metis prod_cases3)
  have "loop_reader b" using loop_reader_read [OF stress_ok_nth [OF assms(2) stress_discard(4)] r] by blast
  moreover have "loop_reader (st_client s')"
    using assms(2) by (simp add: stress_discard(1) discard_iter_keeps stress_ok_def)
  moreover note discard_targets [OF r, of o', folded stress_discard(1)]
  ultimately show ?thesis using stress_ok_update [OF assms(2)] by simp
qed (use assms(2) in \<open>simp_all add: stress_ok_def stress_finish_def\<close>)

subsection \<open>Every run ends\<close>

fun sq_rank :: "stress_pc \<Rightarrow> nat" where
  "sq_rank SqLoop = 2"
| "sq_rank SqClosing = 1"
| "sq_rank SqDone = 0"

definition undone :: "stress_target list \<Rightarrow> nat" where
  "undone ts = sum_list (map (\<lambda>t. of_bool (\<not> tg_done t)) ts)"

definition readers_work :: "stress_target list \<Rightarrow> nat" where
  "readers_work ts = sum_list (map (\<lambda>t. reader_work (tg_reader t)) ts)"

lemma undone_cong: "map tg_done ts' = map tg_done ts \<Longrightarrow> undone ts' = undone ts"
proof -
  have "undone ts = sum_list (map (\<lambda>d. of_bool (\<not> d)) (map tg_done ts))" for ts by (simp add: undone_def comp_def)
  then show "map tg_done ts' = map tg_done ts \<Longrightarrow> undone ts' = undone ts" by metis
qed

definition stress_order :: "(stress \<times> stress) set" where
  "stress_order = measures
     [\<lambda>s. of_bool (\<not> st_panic s), \<lambda>s. of_bool (\<not> st_srvDone s), \<lambda>s. sq_rank (st_req s),
      \<lambda>s. undone (st_targets s), \<lambda>s. of_bool (\<not> st_finished s),
      \<lambda>s. reader_work (st_client s), \<lambda>s. readers_work (st_targets s)]"

lemma sum_list_update_less:
  "k < length xs \<Longrightarrow> g y < g (xs ! k) \<Longrightarrow> sum_list (map g (xs[k := y])) < (sum_list (map g xs) :: nat)"
proof (induction xs arbitrary: k)
  case (Cons x xs)
  then show ?case by (cases k) auto
qed simp

lemma stress_request_order:
  assumes "stress_ok s" and "st_req s = SqLoop"
  shows "(stress_request_iter w cw s, s) \<in> stress_order"
proof -
  obtain d er b where r: "Reader_Read copy_size (st_client s) = (d, er, b)" by (metis prod_cases3)
  have b: "er = None \<longrightarrow> reader_work b < reader_work (st_client s)"
    using loop_reader_read [OF _ r] assms(1) by (simp add: stress_ok_def)
  let ?s = "stress_request_iter w cw s"
  have "sq_rank (st_req ?s) < sq_rank (st_req s)
      \<or> st_req ?s = st_req s \<and> reader_work (st_client ?s) < reader_work (st_client s)"
    using stress_request_cases [OF r, of w cw] b assms(2)
    by (cases er) (auto simp: stress_request_end_def)
  moreover have "undone (st_targets ?s) = undone (st_targets s)" by (rule undone_cong) (rule stress_request_keeps)
  ultimately show ?thesis by (auto simp: stress_order_def stress_request_keeps)
qed

lemma stress_server_order:
  assumes "stress_ok s" and "\<not> st_srvDone s"
  shows "(stress_server_iter w s, s) \<in> stress_order"
proof -
  obtain d er b where r: "Reader_Read copy_size (tg_reader (st_targets s ! 0)) = (d, er, b)" by (metis prod_cases3)
  have l: "0 < length (st_targets s)" using assms(1) by (simp add: stress_ok_def)
  have b: "er = None \<longrightarrow> reader_work b < reader_work (tg_reader (st_targets s ! 0))"
    using loop_reader_read [OF stress_ok_nth [OF assms(1) l] r] by simp
  let ?s = "stress_server_iter w s"
  consider "st_srvDone ?s" | "er = None" "?s = stress_received d b s"
    using stress_server_cases [OF r, of w] by (cases er) (auto simp: stress_server_end_def split: if_splits)
  then show ?thesis
  proof cases
    case 1
    then show ?thesis using assms(2) by (simp add: stress_order_def stress_server_keeps)
  next
    case 2
    have "readers_work (st_targets ?s) < readers_work (st_targets s)"
      unfolding 2(2) stress_received_simps readers_work_def by (rule sum_list_update_less) (use l b 2(1) in simp_all)
    moreover have "undone (st_targets ?s) = undone (st_targets s)" unfolding 2(2) by (rule undone_cong) (simp add: map_update_same)
    ultimately show ?thesis using 2(2) by (simp add: stress_order_def)
  qed
qed

lemma discard_order:
  assumes "stress_ok s" and "k < length (st_targets s)" and "\<not> tg_done (st_targets s ! k)" and "\<not> st_panic s"
  shows "(discard_iter o' k s, s) \<in> stress_order"
proof -
  obtain d er b where r: "Reader_Read copy_size (tg_reader (st_targets s ! k)) = (d, er, b)" by (metis prod_cases3)
  have b: "er = None \<longrightarrow> reader_work b < reader_work (tg_reader (st_targets s ! k))"
    using loop_reader_read [OF stress_ok_nth [OF assms(1,2)] r] by simp
  let ?s = "discard_iter o' k s"
  let ?t = "(st_targets s ! k)\<lparr>tg_reader := b, tg_count := tg_count (st_targets s ! k) + int (length d), tg_done := er \<noteq> None\<rparr>"
  have t: "st_targets ?s = (st_targets s)[k := ?t]" by (rule discard_targets [OF r])
  show ?thesis
  proof (cases er)
    case None
    have "readers_work (st_targets ?s) < readers_work (st_targets s)"
      unfolding t readers_work_def by (rule sum_list_update_less) (use assms(2) b None in simp_all)
    moreover have "undone (st_targets ?s) = undone (st_targets s)"
      unfolding t using assms(3) None by (intro undone_cong) (simp add: map_update_same)
    moreover have "st_panic ?s = st_panic s" using r None by (simp add: discard_iter_def)
    ultimately show ?thesis by (simp add: stress_order_def discard_iter_keeps)
  next
    case (Some e)
    have "undone (st_targets ?s) < undone (st_targets s)"
      unfolding t undone_def by (rule sum_list_update_less) (use assms(2,3) Some in simp_all)
    then show ?thesis using assms(4) by (cases "st_panic ?s") (simp_all add: stress_order_def discard_iter_keeps)
  qed
qed

lemma stress_step_order:
  assumes "stress_step o' H s s'" and "stress_ok s"
  shows "(s', s) \<in> stress_order"
  using assms(1)
proof cases
  case stress_request
  then show ?thesis using stress_request_order [OF assms(2)] by simp
next
  case stress_server
  then show ?thesis using stress_server_order [OF assms(2)] by simp
next
  case stress_discard
  then show ?thesis using discard_order [OF assms(2)] by simp
qed (simp_all add: stress_order_def stress_finish_def)

lemma stress_progress:
  assumes "\<not> st_panic s" and "\<not> st_finished s"
  shows "\<exists>s'. stress_step o' H s s'"
proof (cases "stress_ended s")
  case True
  then show ?thesis using assms stress_end by blast
next
  case False
  then consider "\<not> st_srvDone s" | "st_req s = SqLoop" | "st_req s = SqClosing"
    | k where "0 < k" "k < length (st_targets s)" "\<not> tg_done (st_targets s ! k)"
  proof -
    have "\<exists>k. 0 < k \<and> k < length (st_targets s) \<and> \<not> tg_done (st_targets s ! k)"
      if "t \<in> set (tl (st_targets s))" "\<not> tg_done t" for t
    proof -
      obtain i where "i < length (tl (st_targets s))" "tl (st_targets s) ! i = t" using \<open>t \<in> _\<close> by (meson in_set_conv_nth)
      then show ?thesis using \<open>\<not> tg_done t\<close> by (intro exI [of _ "Suc i"]) (simp add: nth_tl)
    qed
    then show ?thesis using False that by (cases "st_req s") (auto simp: stress_ended_def)
  qed
  then show ?thesis
  proof cases
    case 2
    then show ?thesis using assms(1) stress_request [of s "\<lambda>_. full_writer" H "\<lambda>_. True"] by auto
  qed (use assms(1) in \<open>auto intro: stress_step.intros full_writer_ok\<close>)
qed

interpretation stress_runs: terminating_steps "stress_step o' H" stress_ok "\<lambda>s. st_finished s \<or> st_panic s" stress_order for o' H
proof
  show "wf stress_order" by (simp add: stress_order_def)
qed (auto intro: stress_step_ok stress_step_order stress_progress)

subsection \<open>The bytes of the client\<close>

text \<open>
  \<open>xs\<close> is what was written to the connections, \<open>x\<close> what was read from the client: the first
  connection has a prefix of it, every other lost at most the ends of some chunks, and one
  whose writes do not fail has all of it.
\<close>

definition copies_of :: "nat set \<Rightarrow> string list \<Rightarrow> string \<Rightarrow> bool" where
  "copies_of H xs x \<longleftrightarrow> prefix (xs ! 0) x \<and> (\<forall>k < length xs. subseq (xs ! k) x \<and> (k \<in> H \<longrightarrow> xs ! k = x))"

lemma copies_of_write:
  assumes "copies_of H (map tg_sent ts) x" and "tg_sent (ts ! 0) = x" and "ts \<noteq> []" and "\<And>k. k \<in> H \<Longrightarrow> w k = full_writer"
  shows "copies_of H (map tg_sent (write_all w d ts)) (x @ d)"
proof -
  have "prefix (x @ fst (copy_write (w 0) d)) (x @ d)"
    using copy_write_take [of "w 0" d] by (metis same_prefix_prefix take_is_prefix)
  moreover have "subseq (y @ fst (copy_write (w k) d)) (x @ d)" if "subseq y x" for y k
    using copy_write_take [of "w k" d] that by (metis list_emb_append_mono prefix_imp_subseq take_is_prefix)
  ultimately show ?thesis using assms by (auto simp: copies_of_def)
qed

definition request_part :: "nat set \<Rightarrow> bool \<Rightarrow> stress \<Rightarrow> string \<Rightarrow> string \<Rightarrow> bool" where
  "request_part H cl s x fut \<longleftrightarrow>
     (st_req s = SqLoop \<longrightarrow> map tg_sent (st_targets s) ! 0 = x \<and> True \<notin> set (map tg_closeWrite (st_targets s))
        \<and> (\<exists>z. fut = pending (st_client s) @ z
             \<and> (cl \<and> \<not> st_clientClosed s \<longrightarrow> z = '''' \<and> rerr (st_client s) = None \<and> clean (rsrc (st_client s)))))
     \<and> (st_req s \<noteq> SqLoop \<and> st_reqErr s = None \<longrightarrow> map tg_sent (st_targets s) ! 0 = x
        \<and> (\<forall>k \<in> H. k < length (st_targets s) \<longrightarrow> map tg_closeWrite (st_targets s) ! k)
        \<and> (cl \<and> \<not> st_clientClosed s \<longrightarrow> fut = ''''))"

definition request_inv :: "nat set \<Rightarrow> string \<Rightarrow> bool \<Rightarrow> stress \<Rightarrow> bool" where
  "request_inv H c0 cl s \<longleftrightarrow>
     (\<exists>x fut. c0 = x @ fut \<and> copies_of H (map tg_sent (st_targets s)) x \<and> request_part H cl s x fut)"

lemma request_inv_cong:
  assumes "request_inv H c0 cl s" and "map tg_sent (st_targets s') = map tg_sent (st_targets s)"
    and "map tg_closeWrite (st_targets s') = map tg_closeWrite (st_targets s)" and "st_reqErr s' = st_reqErr s"
    and "(st_req s' = SqLoop) = (st_req s = SqLoop)"
    and "st_client s' = st_client s \<and> st_clientClosed s' = st_clientClosed s
      \<or> st_client s' = (st_client s)\<lparr>rsrc := closed_conn\<rparr> \<and> st_clientClosed s'"
  shows "request_inv H c0 cl s'"
proof -
  have l: "length (st_targets s') = length (st_targets s)" using assms(2) by (metis length_map)
  obtain x fut where x: "c0 = x @ fut" "copies_of H (map tg_sent (st_targets s)) x" "request_part H cl s x fut"
    using assms(1) unfolding request_inv_def by blast
  have "request_part H cl s' x fut"
    using assms(6)
  proof
    assume "st_client s' = st_client s \<and> st_clientClosed s' = st_clientClosed s"
    then show ?thesis using x(3) unfolding request_part_def assms(2-5) l by metis
  next
    assume c: "st_client s' = (st_client s)\<lparr>rsrc := closed_conn\<rparr> \<and> st_clientClosed s'"
    then have p: "pending (st_client s) = pending (st_client s') @ conn_bytes (rsrc (st_client s))"
      by (simp add: pending_rsrc) (simp add: pending_def)
    have "\<exists>z. fut = pending (st_client s') @ z" if "\<exists>z. fut = pending (st_client s) @ z"
      using that p by auto
    then show ?thesis using x(3) c unfolding request_part_def assms(2-5) l by blast
  qed
  then show ?thesis using x(1,2) unfolding request_inv_def assms(2) by blast
qed

lemma closed_text_EOF: "\<not> Contains (err_Error EOF) ''use of closed network connection''"
  by code_simp

lemma request_end_inv:
  assumes "copies_of H (map tg_sent (st_targets s)) x" and "map tg_sent (st_targets s) ! 0 = x" and "c0 = x @ pending (st_client s) @ z"
    and "st_req s = SqLoop" and "True \<notin> set (map tg_closeWrite (st_targets s))" and "st_reqErr s = None"
    and "\<And>k. k \<in> H \<Longrightarrow> cw k"
    and "cl \<and> \<not> st_clientClosed s \<Longrightarrow> z = '''' \<and> rerr (st_client s) = None \<and> clean (rsrc (st_client s))
      \<and> (er = None \<or> er = Some EOF \<and> pending (st_client s) = '''')"
  shows "request_inv H c0 cl (stress_request_end cw er s)"
proof (cases er)
  case None
  then show ?thesis
    using assms unfolding request_inv_def request_part_def
    by (intro exI [of _ x] exI [of _ "pending (st_client s) @ z"]) (simp add: stress_request_end_def)
next
  case (Some e)
  have n: "st_req (stress_request_end cw er s) \<noteq> SqLoop" using Some by (simp add: stress_request_end_def)
  have "map tg_closeWrite (st_targets (stress_request_end cw er s)) ! k" if "k \<in> H" "k < length (st_targets s)" for k
    using that assms(7) Some by (simp add: stress_request_end_def)
  then have "request_part H cl (stress_request_end cw er s) x (pending (st_client s) @ z)"
    using n assms(2,8) Some unfolding request_part_def by auto
  then show ?thesis using assms(1,3) unfolding request_inv_def by auto
qed

lemma request_inv_iter:
  assumes "request_inv H c0 cl s" and "stress_ok s" and "st_req s = SqLoop" and "st_reqErr s = None"
    and "\<And>k. k \<in> H \<Longrightarrow> w k = full_writer \<and> cw k"
  shows "request_inv H c0 cl (stress_request_iter w cw s)"
proof -
  obtain d er b where r: "Reader_Read copy_size (st_client s) = (d, er, b)" by (metis prod_cases3)
  have lr: "loop_reader (st_client s)" and ne: "st_targets s \<noteq> []" using assms(2) by (simp_all add: stress_ok_def)
  have p: "pending (st_client s) = d @ pending b" using loop_reader_read [OF lr r] by blast
  obtain x z where x: "c0 = x @ pending (st_client s) @ z" "copies_of H (map tg_sent (st_targets s)) x"
    "map tg_sent (st_targets s) ! 0 = x" "True \<notin> set (map tg_closeWrite (st_targets s))"
    "cl \<and> \<not> st_clientClosed s \<longrightarrow> z = '''' \<and> rerr (st_client s) = None \<and> clean (rsrc (st_client s))"
    using assms(1,3) unfolding request_inv_def request_part_def by blast
  have c: "copies_of H (map tg_sent (write_all w d (st_targets s))) (x @ d)"
    by (rule copies_of_write) (use x assms(5) ne in auto)
  have c0: "c0 = (x @ d) @ pending b @ z" using x(1) p by simp
  from stress_request_cases [OF r, of w cw] show ?thesis
  proof
    assume i: "stress_request_iter w cw s = stress_request_end cw er (stress_sent w d b s) \<and> fst (copy_write (w 0) d) = d"
    show ?thesis unfolding conjunct1 [OF i]
    proof (rule request_end_inv [of H _ "x @ d" c0 z])
      show "copies_of H (map tg_sent (st_targets (stress_sent w d b s))) (x @ d)" using c by simp
      show "map tg_sent (st_targets (stress_sent w d b s)) ! 0 = x @ d" using i x(3) ne by simp
      show "True \<notin> set (map tg_closeWrite (st_targets (stress_sent w d b s)))" using x(4) by (simp add: map_write_all)
      show "z = '''' \<and> rerr (st_client (stress_sent w d b s)) = None \<and> clean (rsrc (st_client (stress_sent w d b s)))
        \<and> (er = None \<or> er = Some EOF \<and> pending (st_client (stress_sent w d b s)) = '''')"
        if "cl \<and> \<not> st_clientClosed (stress_sent w d b s)"
        using that x(5) Reader_Read_clean [OF lr _ _ r] by auto
    qed (use c0 assms(3-5) in auto)
  next
    assume "\<exists>err. stress_request_iter w cw s = (stress_sent w d b s)\<lparr>st_reqErr := Some err, st_req := SqDone\<rparr>"
    then obtain err where i: "stress_request_iter w cw s = (stress_sent w d b s)\<lparr>st_reqErr := Some err, st_req := SqDone\<rparr>" ..
    have "request_part H cl (stress_request_iter w cw s) (x @ d) (pending b @ z)"
      unfolding i request_part_def by simp
    moreover have "copies_of H (map tg_sent (st_targets (stress_request_iter w cw s))) (x @ d)" unfolding i using c by simp
    ultimately show ?thesis using c0 unfolding request_inv_def by blast
  qed
qed

text \<open>The state of the tunnel, and when the connections may have been closed for writing.\<close>

definition closing_inv :: "stress \<Rightarrow> bool" where
  "closing_inv s \<longleftrightarrow>
     (st_req s = SqLoop \<longrightarrow> st_reqErr s = None) \<and> (st_req s \<noteq> SqDone \<longrightarrow> st_curState s = StActive)
     \<and> (st_curState s = StActive \<and> st_req s \<noteq> SqClosing \<longrightarrow> True \<notin> set (map tg_closeWrite (st_targets s)))
     \<and> (st_curState s = StActive \<or> st_curState s = StClosed)"

lemma closing_inv_cong:
  "closing_inv s \<Longrightarrow> map tg_closeWrite (st_targets s') = map tg_closeWrite (st_targets s) \<Longrightarrow> st_reqErr s' = st_reqErr s \<Longrightarrow>
   st_req s' = st_req s \<Longrightarrow> st_curState s' = st_curState s \<Longrightarrow> closing_inv s'"
  unfolding closing_inv_def by metis

lemma closing_inv_step:
  assumes "stress_step o' H s s'" and "closing_inv s"
  shows "closing_inv s'"
  using assms(1)
proof cases
  case (stress_request w cw)
  obtain d er b where r: "Reader_Read copy_size (st_client s) = (d, er, b)" by (metis prod_cases3)
  have a: "st_curState s = StActive" "True \<notin> set (map tg_closeWrite (st_targets s))" "st_reqErr s = None"
    using assms(2) stress_request(3) by (simp_all add: closing_inv_def)
  have m: "map tg_closeWrite (write_all w d (st_targets s)) = map tg_closeWrite (st_targets s)" by (rule map_write_all)
  have e: "er = None \<Longrightarrow> stress_request_end cw er t = t" for t by (simp add: stress_request_end_def)
  have e': "er \<noteq> None \<Longrightarrow> st_req (stress_request_end cw er t) = SqClosing" for t by (auto simp: stress_request_end_def)
  from stress_request_cases [OF r, of w cw] show ?thesis
  proof
    assume "stress_request_iter w cw s = stress_request_end cw er (stress_sent w d b s) \<and> fst (copy_write (w 0) d) = d"
    then show ?thesis using a m e e' stress_request(1,3) by (cases "er = None") (simp_all add: closing_inv_def del: set_map)
  next
    assume "\<exists>err. stress_request_iter w cw s = (stress_sent w d b s)\<lparr>st_reqErr := Some err, st_req := SqDone\<rparr>"
    then show ?thesis using a m stress_request(1) by (elim exE) (simp add: closing_inv_def del: set_map)
  qed
next
  case (stress_server w)
  show ?thesis unfolding stress_server(1) by (rule closing_inv_cong [OF assms(2)]) (rule stress_server_keeps)+
next
  case (stress_discard k)
  show ?thesis unfolding stress_discard(1) by (rule closing_inv_cong [OF assms(2)]) (rule discard_iter_keeps)+
qed (use assms(2) in \<open>simp_all add: closing_inv_def stress_finish_def\<close>)

lemma request_inv_step:
  assumes "stress_step o' H s s'" and "stress_ok s" and "closing_inv s" and "request_inv H c0 cl s"
  shows "request_inv H c0 cl s'"
  using assms(1)
proof cases
  case (stress_request w cw)
  then show ?thesis using request_inv_iter [OF assms(4,2)] assms(3) by (simp add: closing_inv_def)
next
  case (stress_server w)
  show ?thesis unfolding stress_server(1)
    by (rule request_inv_cong [OF assms(4)]) (simp_all only: stress_server_keeps)
next
  case (stress_discard k)
  show ?thesis unfolding stress_discard(1)
    by (rule request_inv_cong [OF assms(4)]) (simp_all only: discard_iter_keeps simp_thms)
next
  case stress_closing
  show ?thesis unfolding stress_closing(1)
    by (rule request_inv_cong [OF assms(4)]) (simp_all add: stress_closing(3))
next
  case stress_end
  show ?thesis unfolding stress_end(1)
    by (rule request_inv_cong [OF assms(4)]) (simp_all add: stress_finish_def)
qed

subsection \<open>The answers\<close>

text \<open>
  \<open>c\<close> is what a connection delivers, \<open>n\<close> how many bytes of it were taken: the rest is still
  to be read, and nothing of it is left when the reading has ended well.
\<close>

definition reading :: "conn_in \<Rightarrow> nat \<Rightarrow> tcp_reader \<Rightarrow> bool \<Rightarrow> bool" where
  "reading c n b ended \<longleftrightarrow> n \<le> length (conn_bytes c)
     \<and> (\<not> ended \<longrightarrow> pending b = drop n (conn_bytes c) \<and> (clean c \<longrightarrow> rerr b = None \<and> clean (rsrc b)))
     \<and> (ended \<and> clean c \<longrightarrow> n = length (conn_bytes c))"

lemma reading_start: "reading c 0 (NewReader c) False"
  by (simp add: reading_def pending_NewReader NewReader_work_simps)

lemma reading_step:
  assumes "loop_reader b" and "reading c n b False" and "Reader_Read copy_size b = (d, er, b')"
  shows "reading c (n + length d) b' (er \<noteq> None)" and "d = take (length d) (drop n (conn_bytes c))"
proof -
  have p: "drop n (conn_bytes c) = d @ pending b'"
    using loop_reader_read [OF assms(1,3)] assms(2) by (simp add: reading_def)
  then have l: "length (conn_bytes c) - n = length d + length (pending b')" by (metis length_append length_drop)
  have n: "n \<le> length (conn_bytes c)" using assms(2) by (simp add: reading_def)
  have q: "pending b' = drop (n + length d) (conn_bytes c)" using p by (metis append_eq_conv_conj drop_drop add.commute)
  have "rerr b' = None \<and> clean (rsrc b') \<and> (er = None \<or> er = Some EOF \<and> d = '''' \<and> pending b' = '''')" if "clean c"
    using Reader_Read_clean [OF assms(1) _ _ assms(3)] assms(2) that by (simp add: reading_def)
  then show "reading c (n + length d) b' (er \<noteq> None)" using l n q by (auto simp: reading_def)
  show "d = take (length d) (drop n (conn_bytes c))" unfolding p by simp
qed

text \<open>The connection whose answer goes back to the client.\<close>

definition answer_inv :: "conn_in \<Rightarrow> stress \<Rightarrow> bool" where
  "answer_inv c s \<longleftrightarrow> prefix (st_down s) (conn_bytes c) \<and> st_writeSize s = int (length (st_down s))
     \<and> (\<not> st_srvDone s \<longrightarrow> st_srvErr s = None)
     \<and> (st_srvErr s = None \<longrightarrow> reading c (length (st_down s)) (map tg_reader (st_targets s) ! 0) (st_srvDone s))"

lemma answer_inv_cong:
  assumes "answer_inv c s" and "st_down s' = st_down s" and "st_writeSize s' = st_writeSize s" and "st_srvDone s' = st_srvDone s"
    and "st_srvErr s' = st_srvErr s" and "map tg_reader (st_targets s') ! 0 = map tg_reader (st_targets s) ! 0"
  shows "answer_inv c s'"
  using assms(1) unfolding answer_inv_def assms(2-6) .

lemma answer_inv_server:
  assumes "stress_ok s" and "\<not> st_srvDone s" and "answer_inv c s"
  shows "answer_inv c (stress_server_iter w s)"
proof -
  have ne: "st_targets s \<noteq> []" using assms(1) by (simp add: stress_ok_def)
  obtain d er b where r: "Reader_Read copy_size (tg_reader (st_targets s ! 0)) = (d, er, b)" by (metis prod_cases3)
  have a: "reading c (length (st_down s)) (tg_reader (st_targets s ! 0)) False" "prefix (st_down s) (conn_bytes c)"
    "st_srvErr s = None" "st_writeSize s = int (length (st_down s))"
    using assms(2,3) ne by (simp_all add: answer_inv_def)
  note rd = reading_step [OF stress_ok_nth [OF assms(1)] a(1) r]
  have "st_down s = take (length (st_down s)) (conn_bytes c)" using a(2) by (auto simp: prefix_def)
  then have pre: "st_down s @ d = take (length (st_down s) + length d) (conn_bytes c)"
    using rd(2) ne by (simp add: take_add)
  then have p: "prefix (st_down s @ take n d) (conn_bytes c)" for n
    by (metis append_take_drop_id append_assoc prefixI take_is_prefix prefix_order.trans)
  have rd': "reading c (length (st_down s @ d)) b (er \<noteq> None)" using rd(1) ne by simp
  from stress_server_cases [OF r, of w] show ?thesis
  proof
    assume i: "stress_server_iter w s = stress_server_end er (stress_received d b s)"
    have "st_srvErr (stress_server_iter w s) = None \<longrightarrow> st_srvDone (stress_server_iter w s) = (er \<noteq> None)"
      and "\<not> st_srvDone (stress_server_iter w s) \<longrightarrow> st_srvErr (stress_server_iter w s) = None"
      unfolding i using assms(2) a(3) by (cases er; simp add: stress_server_end_def)+
    then show ?thesis using rd' p [of "length d"] a(4) ne unfolding answer_inv_def i by simp
  next
    assume "\<exists>n err. stress_server_iter w s = (stress_received (take n d) b s)\<lparr>st_srvErr := Some err, st_srvDone := True\<rparr>"
    then show ?thesis using p a(4) by (auto simp: answer_inv_def)
  qed
qed

lemma answer_inv_step:
  assumes "stress_step o' H s s'" and "stress_ok s" and "answer_inv c s"
  shows "answer_inv c s'"
  using assms(1)
proof cases
  case (stress_request w cw)
  show ?thesis unfolding stress_request(1)
    by (rule answer_inv_cong [OF assms(3)]) (rule stress_request_keeps | simp only: stress_request_keeps)+
next
  case (stress_server w)
  then show ?thesis using answer_inv_server [OF assms(2) _ assms(3)] by simp
next
  case (stress_discard k)
  obtain d er b where r: "Reader_Read copy_size (tg_reader (st_targets s ! k)) = (d, er, b)" by (metis prod_cases3)
  have "map tg_reader (st_targets (discard_iter o' k s)) ! 0 = map tg_reader (st_targets s) ! 0"
    using stress_discard(3) by (simp add: discard_targets [OF r] map_update)
  then show ?thesis unfolding stress_discard(1)
    by (intro answer_inv_cong [OF assms(3)]) (simp_all add: discard_iter_keeps)
qed (rule answer_inv_cong [OF assms(3)]; simp add: stress_finish_def)+

text \<open>The other connections, and the counter of wrong lengths.\<close>

definition panicking :: "stress_opts \<Rightarrow> bool" where
  "panicking o' \<longleftrightarrow> so_debug o' \<ge> 1 \<and> so_panicLen o' > 0"

definition target_inv :: "stress_opts \<Rightarrow> bool \<Rightarrow> conn_in \<Rightarrow> tcp_reader \<Rightarrow> int \<Rightarrow> bool \<Rightarrow> bool" where
  "target_inv o' pan c b n ended \<longleftrightarrow> 0 \<le> n \<and> reading c (nat n) b ended
     \<and> (panicking o' \<and> \<not> pan \<and> ended \<longrightarrow> n = so_panicLen o')"

definition wrong_answers :: "stress_opts \<Rightarrow> bool list \<Rightarrow> int list \<Rightarrow> int" where
  "wrong_answers o' ds ns = (\<Sum>k = 1..<length ns. of_bool (ds ! k \<and> wrong_len o' (ns ! k)))"

definition targets_inv :: "stress_opts \<Rightarrow> conn_in list \<Rightarrow> stress \<Rightarrow> bool" where
  "targets_inv o' cs s \<longleftrightarrow> length (st_targets s) = length cs \<and> (st_panic s \<longrightarrow> panicking o') \<and> (st_finished s \<longrightarrow> stress_ended s \<and> \<not> st_panic s)
     \<and> (\<forall>k. 0 < k \<and> k < length cs \<longrightarrow> target_inv o' (st_panic s) (cs ! k) (tg_reader (st_targets s ! k))
          (tg_count (st_targets s ! k)) (tg_done (st_targets s ! k)))
     \<and> (\<not> st_panic s \<longrightarrow> st_errLenNum s =
          wrong_answers o' (map tg_done (st_targets s)) (map tg_count (st_targets s))
          + of_bool (st_finished s \<and> wrong_len o' (st_writeSize s)))"

lemma ended_nth: "stress_ended s \<Longrightarrow> 0 < k \<Longrightarrow> k < length (st_targets s) \<Longrightarrow> tg_done (st_targets s ! k)"
  by (cases k) (auto simp: stress_ended_def nth_tl dest!: bspec [OF _ nth_mem [of "k - 1" "tl (st_targets s)"]])

lemma map_nth_eq: "map f xs = map f ys \<Longrightarrow> k < length ys \<Longrightarrow> f (xs ! k) = f (ys ! k)"
  by (metis length_map nth_map)

lemma targets_inv_cong:
  assumes "targets_inv o' cs s" and "length (st_targets s') = length (st_targets s)" and "st_panic s' = st_panic s"
    and "\<And>k. 0 < k \<Longrightarrow> k < length cs \<Longrightarrow> tg_reader (st_targets s' ! k) = tg_reader (st_targets s ! k)"
    and "map tg_count (st_targets s') = map tg_count (st_targets s)" and "map tg_done (st_targets s') = map tg_done (st_targets s)"
    and "st_errLenNum s' = st_errLenNum s" and "\<not> st_finished s" and "\<not> st_finished s'"
  shows "targets_inv o' cs s'"
proof -
  have "length (st_targets s) = length cs" using assms(1) by (simp add: targets_inv_def)
  then show ?thesis
    using assms(1) map_nth_eq [OF assms(5)] map_nth_eq [OF assms(6)]
    unfolding targets_inv_def assms(2,3,5-7) by (simp add: assms(4,8,9) del: map_eq_conv)
qed

lemma length_check_cases:
  "length_check o' c = (if panicking o' \<and> c \<noteq> so_panicLen o' then None else Some (of_bool (wrong_len o' c)))"
  by (simp add: length_check_def panicking_def)

lemma sum_update:
  fixes f :: "nat \<Rightarrow> int"
  assumes "k \<in> A" and "finite A" and "\<And>i. i \<in> A \<Longrightarrow> i \<noteq> k \<Longrightarrow> g i = f i"
  shows "sum g A = sum f A - f k + g k"
proof -
  have "sum g (A - {k}) = sum f (A - {k})" by (rule sum.cong) (use assms(3) in auto)
  then show ?thesis using sum.remove [OF assms(2,1), of g] sum.remove [OF assms(2,1), of f] by simp
qed

lemma wrong_answers_update:
  assumes "0 < k" and "k < length ns" and "length ds = length ns" and "\<not> ds ! k"
  shows "wrong_answers o' (ds[k := e]) (ns[k := c]) = wrong_answers o' ds ns + of_bool (e \<and> wrong_len o' c)"
proof -
  let ?f = "\<lambda>ds ns i. of_bool (ds ! i \<and> wrong_len o' (ns ! i)) :: int"
  have "sum (?f (ds[k := e]) (ns[k := c])) {1..<length ns} = sum (?f ds ns) {1..<length ns} - ?f ds ns k + ?f (ds[k := e]) (ns[k := c]) k"
    by (rule sum_update) (use assms(1,2) in auto)
  then show ?thesis using assms by (simp add: wrong_answers_def del: sum_of_bool_eq)
qed

lemma targets_inv_discard:
  assumes "targets_inv o' cs s" and "stress_ok s" and "0 < k" and "k < length (st_targets s)" and "\<not> tg_done (st_targets s ! k)"
    and "\<not> st_panic s"
  shows "targets_inv o' cs (discard_iter o' k s)"
proof -
  obtain d er b where r: "Reader_Read copy_size (tg_reader (st_targets s ! k)) = (d, er, b)" by (metis prod_cases3)
  let ?s = "discard_iter o' k s" let ?c = "tg_count (st_targets s ! k) + int (length d)"
  note t = discard_targets [OF r, of o']
  have l: "length (st_targets s) = length cs" using assms(1) by (simp add: targets_inv_def)
  have nf: "\<not> st_finished s" using assms(1,3-5) ended_nth by (auto simp: targets_inv_def)
  have inv: "target_inv o' False (cs ! k) (tg_reader (st_targets s ! k)) (tg_count (st_targets s ! k)) False"
    using assms(1,3-6) l by (auto simp: targets_inv_def)
  have "nat ?c = nat (tg_count (st_targets s ! k)) + length d" using inv by (simp add: target_inv_def nat_add_distrib)
  then have rd: "reading (cs ! k) (nat ?c) b (er \<noteq> None)" "0 \<le> ?c"
    using reading_step(1) [OF stress_ok_nth [OF assms(2,4)] _ r, of "cs ! k" "nat (tg_count (st_targets s ! k))"] inv
    by (simp_all add: target_inv_def)
  have p: "st_panic ?s \<longleftrightarrow> er \<noteq> None \<and> panicking o' \<and> ?c \<noteq> so_panicLen o'"
    and e: "\<not> st_panic ?s \<Longrightarrow> st_errLenNum ?s = st_errLenNum s + of_bool (er \<noteq> None \<and> wrong_len o' ?c)"
    using r assms(6) by (auto simp: discard_iter_def length_check_cases Let_def)
  have ti: "target_inv o' (st_panic ?s) (cs ! i) (tg_reader (st_targets ?s ! i)) (tg_count (st_targets ?s ! i)) (tg_done (st_targets ?s ! i))"
    if "0 < i" "i < length cs" for i
  proof (cases "i = k")
    case True
    then show ?thesis using rd p assms(4) by (auto simp: target_inv_def t)
  next
    case False
    then show ?thesis using assms(1,6) that by (auto simp: targets_inv_def target_inv_def t)
  qed
  have "wrong_answers o' (map tg_done (st_targets ?s)) (map tg_count (st_targets ?s)) =
      wrong_answers o' (map tg_done (st_targets s)) (map tg_count (st_targets s)) + of_bool (er \<noteq> None \<and> wrong_len o' ?c)"
    unfolding t map_update using wrong_answers_update [of k "map tg_count (st_targets s)" "map tg_done (st_targets s)" o' "er \<noteq> None" ?c]
      assms(3-5) by simp
  moreover have "st_errLenNum s = wrong_answers o' (map tg_done (st_targets s)) (map tg_count (st_targets s))"
    using assms(1,6) nf by (simp add: targets_inv_def)
  moreover have "length (st_targets ?s) = length cs" "\<not> st_finished ?s" using l nf by (simp_all add: t discard_iter_keeps)
  ultimately show ?thesis using p e ti unfolding targets_inv_def by simp
qed

lemma targets_inv_step:
  assumes "stress_step o' H s s'" and "stress_ok s" and "targets_inv o' cs s"
  shows "targets_inv o' cs s'"
  using assms(1)
proof cases
  case (stress_request w cw)
  have f: "\<not> st_finished s" using assms(3) stress_request(3) by (auto simp: targets_inv_def stress_ended_def)
  show ?thesis unfolding stress_request(1)
    by (rule targets_inv_cong [OF assms(3)], rule stress_request_keeps, rule stress_request_keeps,
        rule map_nth_eq [OF stress_request_keeps(10)])
      (use assms(3) in \<open>simp_all only: stress_request_keeps f not_False_eq_True targets_inv_def\<close>)
next
  case stress_closing
  have f: "\<not> st_finished s" using assms(3) stress_closing(3) by (auto simp: targets_inv_def stress_ended_def)
  show ?thesis unfolding stress_closing(1) by (rule targets_inv_cong [OF assms(3)]) (simp_all add: f)
next
  case (stress_server w)
  have f: "\<not> st_finished s" using assms(3) stress_server(3) by (auto simp: targets_inv_def stress_ended_def)
  obtain b where b: "st_targets (stress_server_iter w s) = (st_targets s)[0 := (st_targets s ! 0)\<lparr>tg_reader := b\<rparr>]"
    using stress_server_keeps(9) by blast
  show ?thesis unfolding stress_server(1)
    by (rule targets_inv_cong [OF assms(3)]) (simp_all add: f b stress_server_keeps map_update_same)
next
  case (stress_discard k)
  then show ?thesis using targets_inv_discard [OF assms(3,2)] by simp
next
  case stress_end
  then show ?thesis using assms(3) by (simp add: targets_inv_def stress_finish_def stress_ended_def)
qed

subsection \<open>Runs\<close>

definition stress_inv :: "stress_opts \<Rightarrow> nat set \<Rightarrow> conn_in \<Rightarrow> conn_in list \<Rightarrow> stress \<Rightarrow> bool" where
  "stress_inv o' H client cs s \<longleftrightarrow> stress_ok s \<and> closing_inv s \<and> request_inv H (conn_bytes client) (clean client) s
     \<and> answer_inv (cs ! 0) s \<and> targets_inv o' cs s"

lemma stress_inv_step: "stress_step o' H s s' \<Longrightarrow> stress_inv o' H client cs s \<Longrightarrow> stress_inv o' H client cs s'"
  unfolding stress_inv_def
  by (auto intro: stress_step_ok closing_inv_step request_inv_step answer_inv_step targets_inv_step)

lemma stress_inv_run: "stress_run o' H s s' \<Longrightarrow> stress_inv o' H client cs s \<Longrightarrow> stress_inv o' H client cs s'"
  by (induction rule: rtranclp_induct) (auto intro: stress_inv_step)

text \<open>All connections that \<open>conn\<close> has made when it starts to copy.\<close>

lemma stress_dial_Some:
  "stress_dial dial is s = Some s' \<longleftrightarrow>
     (\<exists>cs. list_all2 (\<lambda>i c. dial i = Inr c) is cs \<and> s' = s\<lparr>st_targets := st_targets s @ map new_target cs\<rparr>)"
proof (induction "is" arbitrary: s)
  case (Cons i "is")
  show ?case
  proof (cases "dial i")
    case (Inr c)
    then show ?thesis by (auto simp: Cons.IH addTarget_def list_all2_Cons1)
  qed (simp add: list_all2_Cons1)
qed auto

definition stress_start :: "conn_in \<Rightarrow> conn_in list \<Rightarrow> stress" where
  "stress_start client cs = (stress_newTunnel client)\<lparr>st_targets := map new_target cs, st_curState := StActive\<rparr>"

lemma stress_conn_Some:
  "stress_conn o' dial client = Some s \<longleftrightarrow>
     (\<exists>cs. length cs = nat (so_num o') \<and> (\<forall>i < nat (so_num o'). dial i = Inr (cs ! i)) \<and> s = stress_start client cs)"
proof -
  have "list_all2 (\<lambda>i c. dial i = Inr c) [0..<nat (so_num o')] cs \<longleftrightarrow>
      length cs = nat (so_num o') \<and> (\<forall>i < nat (so_num o'). dial i = Inr (cs ! i))" for cs
    by (auto simp: list_all2_conv_all_nth)
  moreover have "st_targets (stress_newTunnel client) = []" by (simp add: stress_newTunnel_def)
  ultimately show ?thesis unfolding stress_conn_def stress_start_def map_option_eq_Some stress_dial_Some by auto
qed

lemma stress_inv_start:
  assumes "cs \<noteq> []"
  shows "stress_inv o' H client cs (stress_start client cs)"
proof -
  let ?s = "stress_start client cs"
  have t: "st_targets ?s = map new_target cs" "st_client ?s = NewReader client" "st_req ?s = SqLoop" "st_curState ?s = StActive"
    "st_reqErr ?s = None" "st_srvErr ?s = None" "st_down ?s = ''''" "st_writeSize ?s = 0" "\<not> st_srvDone ?s" "\<not> st_panic ?s"
    "\<not> st_finished ?s" "st_errLenNum ?s = 0" "\<not> st_clientClosed ?s"
    by (simp_all add: stress_start_def stress_newTunnel_def)
  have w: "wrong_answers o' (map tg_done (map new_target cs)) (map tg_count (map new_target cs)) = 0"
    by (simp add: wrong_answers_def new_target_def del: sum_of_bool_eq)
  have "copies_of H (map tg_sent (map new_target cs)) ''''" using assms by (auto simp: copies_of_def new_target_def)
  moreover have "request_part H (clean client) ?s '''' (conn_bytes client)"
    using assms unfolding request_part_def t
    by (auto simp: new_target_def pending_NewReader NewReader_work_simps)
  ultimately have "request_inv H (conn_bytes client) (clean client) ?s" unfolding request_inv_def t by auto
  moreover have "stress_ok ?s" using assms by (auto simp: stress_ok_def t new_target_def loop_reader_NewReader)
  moreover have "closing_inv ?s" by (auto simp: closing_inv_def t new_target_def)
  moreover have "answer_inv (cs ! 0) ?s" using assms reading_start by (simp add: answer_inv_def t new_target_def)
  moreover have "targets_inv o' cs ?s"
    using w reading_start by (simp add: targets_inv_def t target_inv_def) (simp add: new_target_def)
  ultimately show ?thesis by (simp add: stress_inv_def)
qed

lemma stress_main_num: "stress_main args = Some o' \<Longrightarrow> 0 < so_num o'"
proof -
  assume "stress_main args = Some o'"
  then obtain sets where "o' = (let v = stress_values sets in if so_num v \<le> 0 then v\<lparr>so_num := 1\<rparr> else v)"
    by (auto simp: stress_main_def)
  then show ?thesis by (cases "so_num (stress_values sets) \<le> 0") simp_all
qed

lemma stress_conn_run:
  assumes "stress_conn o' dial client = Some s0" and "stress_main args = Some o'" and "stress_run o' H s0 s"
  shows "\<exists>cs. length cs = nat (so_num o') \<and> (\<forall>i < nat (so_num o'). dial i = Inr (cs ! i)) \<and> stress_inv o' H client cs s"
proof -
  obtain cs where cs: "length cs = nat (so_num o')" "\<forall>i < nat (so_num o'). dial i = Inr (cs ! i)" "s0 = stress_start client cs"
    using assms(1) by (auto simp: stress_conn_Some)
  then have "stress_inv o' H client cs s" using stress_main_num [OF assms(2)] assms(3) stress_inv_run [OF _ stress_inv_start] by fastforce
  then show ?thesis using cs by blast
qed

subsection \<open>Properties\<close>

text \<open>
  C33: The stress tool multiplies the client's bytes. At every moment, in whatever order the
  goroutines run, some prefix \<open>x\<close> of what the client sent was read; the first connection has
  received a prefix of it, every other can only miss the ends of chunks whose write failed,
  and one whose writes do not fail has received \<open>x\<close>. When the client's bytes have ended
  without an error, \<open>x\<close> is all of them, the first connection has it, and these connections
  are closed for writing. The client receives a prefix of what the first connection delivers, all of it
  when the loop ends without an error.
\<close>

theorem stress_copies:
  assumes "stress_main args = Some o'" and "stress_conn o' dial client = Some s0" and "stress_run o' H s0 s"
  shows "(\<exists>x. prefix x (conn_bytes client) \<and> prefix (tg_sent (st_targets s ! 0)) x
      \<and> (\<forall>k < nat (so_num o'). subseq (tg_sent (st_targets s ! k)) x \<and> (k \<in> H \<longrightarrow> tg_sent (st_targets s ! k) = x))
      \<and> (st_req s \<noteq> SqLoop \<and> st_reqErr s = None \<longrightarrow> tg_sent (st_targets s ! 0) = x
          \<and> (\<forall>k \<in> H. k < nat (so_num o') \<longrightarrow> tg_closeWrite (st_targets s ! k))
          \<and> (clean client \<and> \<not> st_clientClosed s \<longrightarrow> x = conn_bytes client)))
    \<and> (\<exists>c. dial 0 = Inr c \<and> prefix (st_down s) (conn_bytes c) \<and> st_writeSize s = int (length (st_down s))
      \<and> (clean c \<and> st_srvDone s \<and> st_srvErr s = None \<longrightarrow> st_down s = conn_bytes c))"
proof -
  obtain cs where cs: "length cs = nat (so_num o')" "\<forall>i < nat (so_num o'). dial i = Inr (cs ! i)"
      "request_inv H (conn_bytes client) (clean client) s" "answer_inv (cs ! 0) s" "targets_inv o' cs s"
    using stress_conn_run [OF assms(2,1,3)] unfolding stress_inv_def by blast
  have l: "length (st_targets s) = nat (so_num o')" "0 < nat (so_num o')" using cs(1,5) stress_main_num [OF assms(1)] by (simp_all add: targets_inv_def)
  obtain x fut where x: "conn_bytes client = x @ fut" "copies_of H (map tg_sent (st_targets s)) x" "request_part H (clean client) s x fut"
    using cs(3) by (auto simp: request_inv_def)
  have "st_down s = conn_bytes (cs ! 0)" if "clean (cs ! 0)" "st_srvDone s" "st_srvErr s = None"
  proof -
    obtain z where "conn_bytes (cs ! 0) = st_down s @ z" using cs(4) by (auto simp: answer_inv_def prefix_def)
    moreover have "length (st_down s) = length (conn_bytes (cs ! 0))" using cs(4) that by (simp add: answer_inv_def reading_def)
    ultimately show ?thesis by simp
  qed
  then have "\<exists>c. dial 0 = Inr c \<and> prefix (st_down s) (conn_bytes c) \<and> st_writeSize s = int (length (st_down s))
      \<and> (clean c \<and> st_srvDone s \<and> st_srvErr s = None \<longrightarrow> st_down s = conn_bytes c)"
    using cs(2,4) l(2) by (intro exI [of _ "cs ! 0"]) (simp add: answer_inv_def)
  then show ?thesis using x l by (intro conjI exI [of _ x]) (auto simp: copies_of_def request_part_def)
qed


text \<open>
  The tool always comes to an end with a client: no run of its goroutines is infinite, and
  every run can be continued until \<open>transfer\<close> has returned or the process has panicked,
  which needs a debug level and \<open>-panicLen\<close>.
\<close>

theorem stress_ends:
  assumes "stress_main args = Some o'" and "stress_conn o' dial client = Some s0" and "stress_run o' H s0 s"
  shows "\<not> (\<exists>f. f 0 = s \<and> (\<forall>i. stress_step o' H (f i) (f (Suc i))))
    \<and> (\<exists>s'. stress_run o' H s s' \<and> (st_finished s' \<or> st_panic s' \<and> 1 \<le> so_debug o' \<and> 0 < so_panicLen o'))"
proof -
  obtain cs where cs: "stress_inv o' H client cs s" using stress_conn_run [OF assms(2,1,3)] by blast
  then have ok: "stress_ok s" by (simp add: stress_inv_def)
  obtain s' where s': "stress_run o' H s s'" "st_finished s' \<or> st_panic s'" using stress_runs.reaches_final [OF ok] by blast
  have "st_panic s' \<longrightarrow> panicking o'"
    using stress_inv_run [OF s'(1) cs] by (simp add: stress_inv_def targets_inv_def)
  then show ?thesis using s' stress_runs.no_infinite_run [of _ o' H] ok by (auto simp: panicking_def)
qed

text \<open>
  After a failed write to the first connection no connection is ever closed for writing, so
  a server that waits for the end of the request keeps the tool waiting.
\<close>

theorem failed_write_leaves_open:
  assumes "stress_main args = Some o'" and "stress_conn o' dial client = Some s0" and "stress_run o' H s0 s" and "st_req s = SqLoop"
    and "Reader_Read copy_size (st_client s) = (d, er, b)" and "stress_write_err (w 0) d = Some err" and "d \<noteq> ''''"
    and "stress_run o' H (stress_request_iter w cw s) s'" and "t \<in> set (st_targets s')"
  shows "\<not> tg_closeWrite t"
proof -
  have c: "closing_inv s" using stress_conn_run [OF assms(2,1,3)] by (auto simp: stress_inv_def)
  define stopped where "stopped s \<longleftrightarrow> st_req s = SqDone \<and> st_curState s = StActive \<and> closing_inv s" for s
  have "stopped s2" if "stress_step o' H s1 s2" and s: "stopped s1" for s1 s2
  proof -
    have "closing_inv s2" using closing_inv_step [OF that(1)] s by (simp add: stopped_def)
    with that(1) s show ?thesis
      by cases (auto simp: stopped_def stress_server_keeps discard_iter_keeps stress_finish_def)
  qed
  then have "stopped s1 \<Longrightarrow> stress_run o' H s1 s2 \<Longrightarrow> stopped s2" for s1 s2
    by (rotate_tac 1) (induction rule: rtranclp_induct; blast)
  moreover have "stopped (stress_request_iter w cw s)"
    using assms(4-7) c map_write_all(2) [of w d "st_targets s"]
    by (simp add: stopped_def closing_inv_def stress_request_iter_def del: map_eq_conv set_map)
  ultimately have "stopped s'" using assms(8) by blast
  then show ?thesis using assms(9) by (auto simp: stopped_def closing_inv_def)
qed

text \<open>The connections that are served: all but the ignored ones, until an error that is not temporary.\<close>

definition fatal_accept :: "stress_accept_res \<Rightarrow> bool" where
  "fatal_accept a = (case a of StressErr text temporary \<Rightarrow> \<not> temporary \<or> Contains text ''use of closed network connection''
    | StressConn remote rw \<Rightarrow> False)"

lemma stress_accept_served:
  "fst (stress_accept ignore rs) =
     concat (map (\<lambda>a. case a of StressConn remote rw \<Rightarrow> if ignore \<and> Contains remote ''127.0.0.1:'' then [] else [rw] | _ \<Rightarrow> [])
       (takeWhile (\<lambda>a. \<not> fatal_accept a) rs))"
  "snd (stress_accept ignore rs) = None \<longleftrightarrow> (\<forall>a \<in> set rs. \<not> fatal_accept a)"
  by (induction ignore rs rule: stress_accept.induct) (auto simp: fatal_accept_def split: prod.splits)

subsection \<open>Examples\<close>

definition demo_stress_args :: "string list" where
  "demo_stress_args = [''-num'', ''2'', ''-mustLen=2'']"

definition demo_dial :: "nat \<Rightarrow> go_err + conn_in" where
  "demo_dial i = (if i = 0 then Inr [(''xy'', None)] else if i = 1 then Inr [(''z'', None)] else Inl (ErrNet ''refused''))"

lemma demo_numbers: "ParseInt ''2'' 0 64 = (2, None)" "ParseInt ''0'' 0 64 = (0, None)"
  by (simp_all add: ParseInt_def ParseUint_def base_prefix_def digit_val_def)

lemma demo_stress_main:
  "\<exists>o'. stress_main demo_stress_args = Some o' \<and> so_num o' = 2 \<and> so_mustLen o' = 2 \<and> so_panicLen o' = 0"
proof -
  have "map_of stress_flags ''num'' = Some FlagInt" "map_of stress_flags ''mustLen'' = Some FlagInt" by (simp_all add: stress_flags_def)
  then have "flag_Parse stress_flags demo_stress_args = Some ([(''num'', ''2''), (''mustLen'', ''2'')], [])"
    by (simp add: demo_stress_args_def flag_Parse.simps(2) flag_name_def flag_cons_def flag_ok_def demo_numbers)
  then show ?thesis
    by (simp add: stress_main_def stress_values_def flag_int_or_def flag_int_def flag_get_def demo_numbers)
qed

lemma demo_stress_run:
  "\<exists>o' s0 s. stress_main demo_stress_args = Some o' \<and> so_num o' = 2 \<and> so_mustLen o' = 2 \<and> so_panicLen o' = 0
     \<and> stress_conn o' demo_dial [(''ab'', None)] = Some s0 \<and> stress_run o' {0, 1} s0 s \<and> st_finished s"
proof -
  obtain o' where o': "stress_main demo_stress_args = Some o'" "so_num o' = 2" "so_mustLen o' = 2" "so_panicLen o' = 0"
    using demo_stress_main by auto
  have "stress_conn o' demo_dial [(''ab'', None)] = Some (stress_start [(''ab'', None)] [[(''xy'', None)], [(''z'', None)]])"
    using o'(2) by (auto simp: stress_conn_Some demo_dial_def less_2_cases_iff intro!: exI [of _ "[[(''xy'', None)], [(''z'', None)]]"])
  moreover from stress_ends [OF o'(1) this rtranclp.rtrancl_refl, of "{0, 1}"] o'(4)
  obtain s where "stress_run o' {0, 1} (stress_start [(''ab'', None)] [[(''xy'', None)], [(''z'', None)]]) s" "st_finished s" by auto
  ultimately show ?thesis using o' by blast
qed

theorem stress_copies_witness:
  "\<exists>o' s0 s. stress_main demo_stress_args = Some o' \<and> stress_conn o' demo_dial [(''ab'', None)] = Some s0
     \<and> stress_run o' {0, 1} s0 s \<and> st_finished s
     \<and> (\<exists>x. prefix x ''ab'' \<and> tg_sent (st_targets s ! 0) = x \<and> tg_sent (st_targets s ! 1) = x) \<and> prefix (st_down s) ''xy''"
proof -
  obtain o' s0 s where s: "stress_main demo_stress_args = Some o'" "so_num o' = 2"
    "stress_conn o' demo_dial [(''ab'', None)] = Some s0" "stress_run o' {0, 1} s0 s" "st_finished s"
    using demo_stress_run by blast
  have "conn_bytes [(''ab'', None)] = ''ab''" "conn_bytes [(''xy'', None)] = ''xy''" by (simp_all add: conn_bytes_def)
  moreover have "(0 :: nat) < nat (so_num o')" "(1 :: nat) < nat (so_num o')" using s(2) by simp_all
  moreover have "demo_dial 0 = Inr [(''xy'', None)]" by (simp add: demo_dial_def)
  moreover note stress_copies [OF s(1,3,4)]
  ultimately have "\<exists>x. prefix x ''ab'' \<and> tg_sent (st_targets s ! 0) = x \<and> tg_sent (st_targets s ! 1) = x" "prefix (st_down s) ''xy''"
    by (metis insertI1 insertI2, metis Inr_inject)
  with s show ?thesis by blast
qed


theorem stress_ends_witness:
  "\<exists>o' s0 s. stress_main demo_stress_args = Some o' \<and> stress_conn o' demo_dial [(''ab'', None)] = Some s0
     \<and> stress_run o' {} s0 s \<and> st_finished s"
proof -
  obtain o' s0 where s: "stress_main demo_stress_args = Some o'" "so_panicLen o' = 0" "stress_conn o' demo_dial [(''ab'', None)] = Some s0"
    using demo_stress_run by blast
  from stress_ends [OF s(1,3) rtranclp.rtrancl_refl, of "{}"] s show ?thesis by auto
qed

theorem failed_write_leaves_open_witness:
  "\<exists>o' s0. stress_main demo_stress_args = Some o' \<and> stress_conn o' demo_dial [(''ab'', None)] = Some s0
     \<and> (let s = stress_request_iter (\<lambda>k n. (0, Some (ErrNet ''reset''))) (\<lambda>k. True) s0
        in st_req s = SqDone \<and> st_targets s \<noteq> [] \<and> (\<forall>t \<in> set (st_targets s). \<not> tg_closeWrite t))"
proof -
  obtain o' s0 where s: "stress_main demo_stress_args = Some o'" "so_num o' = 2" "stress_conn o' demo_dial [(''ab'', None)] = Some s0"
    using demo_stress_run by blast
  let ?w = "\<lambda>(k :: nat) (n :: nat). (0 :: nat, Some (ErrNet ''reset''))"
  let ?s = "stress_request_iter ?w (\<lambda>k. True) s0"
  obtain cs where cs: "length cs = 2" "s0 = stress_start [(''ab'', None)] cs" using s(2,3) by (auto simp: stress_conn_Some)
  then have s0: "st_client s0 = NewReader [(''ab'', None)]" "st_req s0 = SqLoop" "length (st_targets s0) = 2"
    by (simp_all add: stress_start_def stress_newTunnel_def)
  obtain b where rd: "Reader_Read copy_size (st_client s0) = (''ab'', None, b)"
    using read_one_chunk [of "''ab''"] s0(1) by (auto simp: copy_size_def)
  have e: "stress_write_err (?w 0) ''ab'' = Some (stress_err ''1'' (ErrNet ''reset''))"
    by (simp add: stress_write_err_def copy_write_def)
  have "\<forall>t \<in> set (st_targets ?s). \<not> tg_closeWrite t"
    using failed_write_leaves_open [where w = ?w and cw = "\<lambda>k. True" and H = "{}" and s' = ?s,
        OF s(1,3) rtranclp.rtrancl_refl s0(2) rd e _ rtranclp.rtrancl_refl] by blast
  moreover have "st_req ?s = SqDone" using rd e by (simp add: stress_request_iter_def)
  moreover have "length (st_targets ?s) = 2" using s0(3) by (simp add: stress_request_keeps)
  ultimately have "let s = ?s in st_req s = SqDone \<and> st_targets s \<noteq> [] \<and> (\<forall>t \<in> set (st_targets s). \<not> tg_closeWrite t)"
    by (auto simp: Let_def)
  with s(1,3) show ?thesis by blast
qed

end
