(* ===== verification/Example_Programs.thy ===== *)
theory Example_Programs
  imports Nat_Hub Net_Url
begin

section \<open>The example programs\<close>

text \<open>
  The smaller programs under \<open>src/examples\<close> that try out what the proxy is built on: the
  chat of the websocket library (\<open>websocket/\<close>), whose hub is the one the hubs of \<open>src/nat\<close> were
  made from, the behaviour of channels in a \<open>select\<close> (\<open>chan/send.go\<close>) and of parsed URLs
  (\<open>parseurl/test.go\<close>). The hub is an instance of the interface of the other hubs; the two
  others are run on the models of channels and of \<open>net/url\<close>.
\<close>

subsection \<open>websocket/hub.go\<close>

record chat_hub =
  chat_heap :: "nat \<Rightarrow> string chan"
  chat_clients :: "nat list"

definition chat_newHub :: chat_hub where
  "chat_newHub = \<lparr>chat_heap = (\<lambda>_. make_chan 0), chat_clients = []\<rparr>"

definition set_chat :: "nat \<Rightarrow> string chan \<Rightarrow> chat_hub \<Rightarrow> chat_hub" where
  "set_chat p c h = h\<lparr>chat_heap := (chat_heap h)(p := c)\<rparr>"

definition chat_drop :: "nat \<Rightarrow> chat_hub \<Rightarrow> chat_hub outcome" where
  "chat_drop p h =
     (case close_chan (chat_heap h p) of
        Panics \<Rightarrow> Panics
      | Returns c \<Rightarrow> Returns ((set_chat p c h)\<lparr>chat_clients := remove1 p (chat_clients h)\<rparr>))"

definition chat_unregister :: "nat \<Rightarrow> chat_hub \<Rightarrow> chat_hub outcome" where
  "chat_unregister p h = (if p \<in> set (chat_clients h) then chat_drop p h else Returns h)"

fun chat_broadcast_loop :: "nat list \<Rightarrow> string \<Rightarrow> chat_hub \<Rightarrow> chat_hub outcome" where
  "chat_broadcast_loop [] m h = Returns h"
| "chat_broadcast_loop (client # rest) m h =
     (case try_send m (chat_heap h client) of
        Panics \<Rightarrow> Panics
      | Returns (True, c) \<Rightarrow> chat_broadcast_loop rest m (set_chat client c h)
      | Returns (False, c) \<Rightarrow>
          (case chat_drop client h of Panics \<Rightarrow> Panics | Returns h \<Rightarrow> chat_broadcast_loop rest m h))"

definition chat_broadcast :: "(nat \<Rightarrow> nat) \<Rightarrow> string \<Rightarrow> chat_hub \<Rightarrow> chat_hub outcome" where
  "chat_broadcast ord m h = chat_broadcast_loop (map_range ord (chat_clients h)) m h"

subsection \<open>websocket/conn.go\<close>

text \<open>\<open>serveWs\<close> gives a new client its channel and hands it to the hub; \<open>p\<close> is the pointer.\<close>

definition chat_serveWs :: "nat \<Rightarrow> chat_hub \<Rightarrow> chat_hub" where
  "chat_serveWs p h = (set_chat p (make_chan 256) h)\<lparr>chat_clients := List.insert p (chat_clients h)\<rparr>"

definition chat_pump :: "nat \<Rightarrow> chat_hub \<Rightarrow> string option \<times> chat_hub" where
  "chat_pump p h = (case chan_recv (chat_heap h p) of None \<Rightarrow> (None, h) | Some (m, c) \<Rightarrow> (m, set_chat p c h))"

text \<open>
  \<open>writePump\<close>: the messages received, each with the errors of \<open>NextWriter\<close> and of \<open>Close\<close>; the
  frames that are sent, and whether the closing frame is, when the channel was closed.
\<close>

fun chat_writePump :: "(string \<times> go_err option \<times> go_err option) list \<Rightarrow> bool \<Rightarrow> string list \<times> bool" where
  "chat_writePump [] closed = ([], closed)"
| "chat_writePump ((message, err1, err2) # rest) closed =
     (if err1 \<noteq> None \<or> err2 \<noteq> None then ([], False)
      else case chat_writePump rest closed of (frames, fin) \<Rightarrow> (message # frames, fin))"

datatype chat_event = ChatRegister nat | ChatUnregister nat | ChatBroadcast "nat \<Rightarrow> nat" string | ChatPump nat

fun chat_run :: "chat_event \<Rightarrow> chat_hub \<Rightarrow> chat_hub outcome" where
  "chat_run (ChatRegister p) h = Returns (chat_serveWs p h)"
| "chat_run (ChatUnregister p) h = chat_unregister p h"
| "chat_run (ChatBroadcast ord m) h = chat_broadcast ord m h"
| "chat_run (ChatPump p) h = Returns (snd (chat_pump p h))"

subsection \<open>chan/send.go\<close>

text \<open>A \<open>select\<close> with one receive and a default branch: what is logged of the value, or \<open>default\<close>.\<close>

datatype chan_log = LogValue nat | LogPair nat bool | LogDefault

definition chan_test1 :: "chan_log list outcome" where
  "chan_test1 =
     (case close_chan (make_chan 0 :: nat chan) of
        Panics \<Rightarrow> Panics
      | Returns send \<Rightarrow> Returns [case chan_recv send of
            Some (Some t, c) \<Rightarrow> LogValue t | Some (None, c) \<Rightarrow> LogValue 0 | None \<Rightarrow> LogDefault])"

definition chan_test2 :: "chan_log list outcome" where
  "chan_test2 =
     (case close_chan (make_chan 0 :: nat chan) of
        Panics \<Rightarrow> Panics
      | Returns send \<Rightarrow> Returns [case chan_recv send of
            Some (Some t, c) \<Rightarrow> LogPair t True | Some (None, c) \<Rightarrow> LogPair 0 False | None \<Rightarrow> LogDefault])"

text \<open>Without a default branch the receive of an open empty channel would wait: no log.\<close>

definition chan_test3 :: "chan_log list outcome" where
  "chan_test3 =
     (case close_chan (make_chan 0 :: nat chan) of
        Panics \<Rightarrow> Panics
      | Returns send \<Rightarrow> Returns (case chan_recv send of
            Some (Some t, c) \<Rightarrow> [LogPair t True] | Some (None, c) \<Rightarrow> [LogPair 0 False] | None \<Rightarrow> []))"

text \<open>
  \<open>test4\<close> and \<open>test5\<close>: a goroutine offers the numbers below ten on a channel without a buffer,
  so a receive gets the next one when the goroutine waits in its send. \<open>ready\<close> says for each
  turn of the loop with a default branch whether it does; without one the receive waits, for
  ever when nothing is offered any more.
\<close>

fun chan_test4_loop :: "bool list \<Rightarrow> nat list \<Rightarrow> chan_log list" where
  "chan_test4_loop [] offered = []"
| "chan_test4_loop (r # ready) offered =
     (case offered of
        i # rest \<Rightarrow> if r then LogPair i True # chan_test4_loop ready rest else LogDefault # chan_test4_loop ready offered
      | [] \<Rightarrow> LogDefault # chan_test4_loop ready [])"

definition chan_test4 :: "bool list \<Rightarrow> chan_log list" where
  "chan_test4 ready = chan_test4_loop (take 20 ready) [0..<10]"

fun chan_test5_loop :: "nat \<Rightarrow> nat list \<Rightarrow> chan_log list" where
  "chan_test5_loop 0 offered = []"
| "chan_test5_loop (Suc n) [] = []"
| "chan_test5_loop (Suc n) (i # rest) = LogPair i True # chan_test5_loop n rest"

definition chan_test5 :: "chan_log list" where
  "chan_test5 = chan_test5_loop 10 [0..<10]"

fun chan_test6_loop :: "nat list \<Rightarrow> nat chan \<Rightarrow> chan_log list outcome" where
  "chan_test6_loop [] send = Returns []"
| "chan_test6_loop (i # is) send =
     (case try_send i send of
        Panics \<Rightarrow> Panics
      | Returns (ok, send) \<Rightarrow>
          (case chan_test6_loop is send of
             Panics \<Rightarrow> Panics
           | Returns log \<Rightarrow> Returns ((if ok then LogValue i else LogDefault) # log)))"

definition chan_test6 :: "chan_log list outcome" where
  "chan_test6 = chan_test6_loop [0..<5] (make_chan 1)"

subsection \<open>parseurl/test.go\<close>

text \<open>The host, the port and the text of a URL (the third it prints without its text); a URL that
  does not parse is a nil pointer.\<close>

definition print_url :: "string \<Rightarrow> (string \<times> string \<times> string) outcome" where
  "print_url rawurl =
     (case ParseRequestURI rawurl of None \<Rightarrow> Panics | Some xx \<Rightarrow> Returns (u_Host xx, url_Port xx, url_String xx))"

subsection \<open>The chat hub keeps the promise of a hub\<close>

lemma chat_simps [simp]:
  "chat_clients (set_chat p c h) = chat_clients h" "chat_heap (set_chat p c h) q = (if q = p then c else chat_heap h q)"
  by (simp_all add: set_chat_def)

definition chat_live :: "chat_hub \<Rightarrow> bool" where
  "chat_live h \<longleftrightarrow> members_live (chat_clients h) (chat_heap h)"

lemma chat_drop_eq:
  "\<not> ch_closed (chat_heap h p) \<Longrightarrow> chat_drop p h =
     Returns ((set_chat p ((chat_heap h p)\<lparr>ch_closed := True\<rparr>) h)\<lparr>chat_clients := remove1 p (chat_clients h)\<rparr>)"
  by (simp add: chat_drop_def close_chan_def)

text \<open>A broadcast reaches every client with room in its channel and drops every other.\<close>

definition has_room :: "'m chan \<Rightarrow> bool" where
  "has_room c \<longleftrightarrow> length (ch_buf c) < ch_cap c"

lemma chat_broadcast_loop_eq:
  assumes "chat_live h" and "distinct ks" and "set ks \<subseteq> set (chat_clients h)"
  shows "\<exists>h'. chat_broadcast_loop ks m h = Returns h' \<and> chat_live h'
    \<and> set (chat_clients h') = set (chat_clients h) - {q \<in> set ks. \<not> has_room (chat_heap h q)}
    \<and> (\<forall>q. ch_buf (chat_heap h' q) = ch_buf (chat_heap h q) @ (if q \<in> set ks \<and> has_room (chat_heap h q) then [m] else []))"
  using assms
proof (induction ks arbitrary: h)
  case (Cons k ks)
  have live: "members_live (chat_clients h) (chat_heap h)" using Cons.prems(1) by (simp add: chat_live_def)
  have k: "\<not> ch_closed (chat_heap h k)" "k \<in> set (chat_clients h)" "k \<notin> set ks" "distinct ks" "set ks \<subseteq> set (chat_clients h) - {k}"
    using live Cons.prems(2,3) by (auto simp: members_live_def)
  show ?case
  proof (cases "has_room (chat_heap h k)")
    case True
    let ?h = "set_chat k ((chat_heap h k)\<lparr>ch_buf := ch_buf (chat_heap h k) @ [m]\<rparr>) h"
    have "chat_live ?h" using live True by (auto simp: chat_live_def members_live_def has_room_def)
    from Cons.IH [OF this k(4)] k(5) obtain h' where h': "chat_broadcast_loop ks m ?h = Returns h'" "chat_live h'"
      "set (chat_clients h') = set (chat_clients h) - {q \<in> set ks. \<not> has_room (chat_heap ?h q)}"
      "\<forall>q. ch_buf (chat_heap h' q) = ch_buf (chat_heap ?h q) @ (if q \<in> set ks \<and> has_room (chat_heap ?h q) then [m] else [])"
      by auto
    have "chat_broadcast_loop (k # ks) m h = Returns h'" using True k(1) h'(1) by (simp add: try_send_def has_room_def)
    moreover have "{q \<in> set ks. \<not> has_room (chat_heap ?h q)} = {q \<in> set (k # ks). \<not> has_room (chat_heap h q)}"
      using True k(3) by auto
    moreover have "ch_buf (chat_heap h' q) = ch_buf (chat_heap h q) @ (if q \<in> set (k # ks) \<and> has_room (chat_heap h q) then [m] else [])" for q
      using h'(4) True k(3) by (cases "q = k") auto
    ultimately show ?thesis using h'(2,3) by simp
  next
    case False
    let ?h = "(set_chat k ((chat_heap h k)\<lparr>ch_closed := True\<rparr>) h)\<lparr>chat_clients := remove1 k (chat_clients h)\<rparr>"
    have "chat_live ?h" using live by (auto simp: chat_live_def members_live_def)
    moreover have s: "set (chat_clients ?h) = set (chat_clients h) - {k}" using live by (simp add: members_live_def)
    ultimately obtain h' where h': "chat_broadcast_loop ks m ?h = Returns h'" "chat_live h'"
      "set (chat_clients h') = set (chat_clients ?h) - {q \<in> set ks. \<not> has_room (chat_heap ?h q)}"
      "\<forall>q. ch_buf (chat_heap h' q) = ch_buf (chat_heap ?h q) @ (if q \<in> set ks \<and> has_room (chat_heap ?h q) then [m] else [])"
      using Cons.IH [of ?h] k(4,5) by metis
    have "chat_broadcast_loop (k # ks) m h = Returns h'" using False k(1) h'(1) by (simp add: try_send_def has_room_def chat_drop_eq)
    moreover have "set (chat_clients h') = set (chat_clients h) - {q \<in> set (k # ks). \<not> has_room (chat_heap h q)}"
      unfolding h'(3) s using False k(3) by auto
    moreover have "ch_buf (chat_heap h' q) = ch_buf (chat_heap h q) @ (if q \<in> set (k # ks) \<and> has_room (chat_heap h q) then [m] else [])" for q
      using h'(4) False k(3) by (cases "q = k") (auto simp: has_room_def)
    ultimately show ?thesis using h'(2) by simp
  qed
qed simp

lemma chat_broadcast_eq:
  assumes "chat_live h"
  shows "\<exists>h'. chat_broadcast ord m h = Returns h' \<and> chat_live h'
    \<and> set (chat_clients h') = {q \<in> set (chat_clients h). has_room (chat_heap h q)}
    \<and> (\<forall>q. ch_buf (chat_heap h' q) = ch_buf (chat_heap h q) @ (if q \<in> set (chat_clients h') then [m] else []))"
proof -
  have "distinct (map_range ord (chat_clients h))" using assms by (simp add: chat_live_def members_live_def)
  from chat_broadcast_loop_eq [OF assms this, of m] show ?thesis unfolding chat_broadcast_def by fastforce
qed

lemma chat_unregister_eq:
  assumes "chat_live h"
  shows "\<exists>h'. chat_unregister p h = Returns h' \<and> chat_live h' \<and> set (chat_clients h') = set (chat_clients h) - {p}
    \<and> (\<forall>q. ch_buf (chat_heap h' q) = ch_buf (chat_heap h q))"
proof (cases "p \<in> set (chat_clients h)")
  case True
  then have "\<not> ch_closed (chat_heap h p)" using assms by (simp add: chat_live_def members_live_def)
  with True assms show ?thesis by (auto simp: chat_unregister_def chat_drop_eq chat_live_def members_live_def)
qed (use assms in \<open>simp add: chat_unregister_def\<close>)

lemma chat_pump_eq:
  "chat_pump p h = (case ch_buf (chat_heap h p) of
     m # ms \<Rightarrow> (Some m, set_chat p ((chat_heap h p)\<lparr>ch_buf := ms\<rparr>) h) | [] \<Rightarrow> (None, h))"
  by (simp add: chat_pump_def chan_recv_def set_chat_def split: list.splits)

fun chat_joins :: "chat_event \<Rightarrow> nat option" where
  "chat_joins (ChatRegister p) = Some p"
| "chat_joins _ = None"

fun chat_offers :: "nat \<Rightarrow> chat_event \<Rightarrow> chat_hub \<Rightarrow> string list" where
  "chat_offers q (ChatBroadcast ord m) h = [m]"
| "chat_offers q _ h = []"

fun chat_takes :: "nat \<Rightarrow> chat_event \<Rightarrow> chat_hub \<Rightarrow> string list" where
  "chat_takes q (ChatPump p) h = (case chat_pump p h of (Some m, h') \<Rightarrow> if p = q then [m] else [] | (None, h') \<Rightarrow> [])"
| "chat_takes q _ h = []"

lemma chat_step_live:
  assumes "chat_live h"
  shows "\<exists>h'. chat_run e h = Returns h' \<and> chat_live h'"
proof (cases e)
  case (ChatRegister p)
  then show ?thesis using assms by (auto simp: chat_serveWs_def chat_live_def members_live_def make_chan_def)
next
  case (ChatUnregister p)
  then show ?thesis using chat_unregister_eq [OF assms] by fastforce
next
  case (ChatBroadcast ord m)
  then show ?thesis using chat_broadcast_eq [OF assms] by fastforce
next
  case (ChatPump p)
  then show ?thesis using assms by (auto simp: chat_pump_eq chat_live_def members_live_def split: list.splits)
qed

lemma chat_step_queue:
  assumes "chat_live h" and "chat_run e h = Returns h'" and "chat_joins e \<noteq> Some p"
  shows "(p \<in> set (chat_clients h) \<longrightarrow> chat_takes p e h @ ch_buf (chat_heap h' p) =
      ch_buf (chat_heap h p) @ (if p \<in> set (chat_clients h') then chat_offers p e h else []))
    \<and> (p \<notin> set (chat_clients h) \<longrightarrow> p \<notin> set (chat_clients h') \<and> chat_takes p e h @ ch_buf (chat_heap h' p) = ch_buf (chat_heap h p))"
proof (cases e)
  case (ChatRegister q)
  then show ?thesis using assms by (auto simp: chat_serveWs_def)
next
  case (ChatUnregister q)
  then show ?thesis using chat_unregister_eq [OF assms(1), of q] assms(2) by auto
next
  case (ChatBroadcast ord m)
  obtain h2 where h2: "chat_broadcast ord m h = Returns h2" "set (chat_clients h2) \<subseteq> set (chat_clients h)"
    "\<forall>q. ch_buf (chat_heap h2 q) = ch_buf (chat_heap h q) @ (if q \<in> set (chat_clients h2) then [m] else [])"
    using chat_broadcast_eq [OF assms(1), of ord m] by blast
  then have "h2 = h'" using ChatBroadcast assms(2) by simp
  then show ?thesis using h2(2,3) ChatBroadcast by auto
next
  case (ChatPump q)
  then show ?thesis using assms by (auto simp: chat_pump_eq split: list.splits)
qed

interpretation chat: hub_queues chat_run chat_clients chat_heap chat_joins "\<lambda>_ _. True" chat_live chat_offers chat_takes
proof
  show "\<exists>s'. chat_run e s = Returns s' \<and> members_live (chat_clients s') (chat_heap s')"
    if "members_live (chat_clients s) (chat_heap s)" for s e
    using chat_step_live [of s e] that by (simp add: chat_live_def)
  show "chat_live s'" if "chat_live s" "True" "chat_run e s = Returns s'" for s e s'
    using chat_step_live [of s e] that by simp
qed (use chat_step_queue in \<open>auto simp: chat_live_def\<close>)

subsection \<open>What the programs do\<close>

definition broadcasts :: "chat_event list \<Rightarrow> string list" where
  "broadcasts es = concat (map (\<lambda>e. case e of ChatBroadcast ord m \<Rightarrow> [m] | _ \<Rightarrow> []) es)"

lemma log_broadcasts: "exec chat_run es h = Returns h' \<Longrightarrow> log_of chat_run (chat_offers p) es h = broadcasts es"
proof (induction es arbitrary: h)
  case (Cons e es)
  then show ?case by (cases e) (auto simp: broadcasts_def split: outcome.splits)
qed (simp add: broadcasts_def)

text \<open>
  The chat: no order of events makes the hub panic, and what the goroutine of a client takes
  from its channel is a prefix of what is broadcast after it has joined; as long as it is in
  the hub the rest is in its channel, at most 256 messages.
\<close>

theorem chat_delivers:
  assumes "exec chat_run (es1 @ [ChatRegister p]) chat_newHub = Returns h" and "\<forall>e \<in> set es. chat_joins e \<noteq> Some p"
  shows "\<exists>h'. exec chat_run es h = Returns h'
    \<and> prefix (log_of chat_run (chat_takes p) es h) (broadcasts es)
    \<and> (p \<in> set (chat_clients h') \<longrightarrow> length (ch_buf (chat_heap h' p)) \<le> ch_cap (chat_heap h' p)
        \<and> log_of chat_run (chat_takes p) es h @ ch_buf (chat_heap h' p) = broadcasts es)"
proof -
  have n: "members_live (chat_clients chat_newHub) (chat_heap chat_newHub)" by (simp add: chat_newHub_def members_live_def)
  have h: "chat_live h" "p \<in> set (chat_clients h)" "ch_buf (chat_heap h p) = []"
  proof -
    obtain h0 where h0: "exec chat_run es1 chat_newHub = Returns h0" "members_live (chat_clients h0) (chat_heap h0)"
      using chat.exec_live [OF n] by blast
    have "exec chat_run (es @ [e]) s = Returns t \<Longrightarrow> exec chat_run es s = Returns u \<Longrightarrow> chat_run e u = Returns t" for es e s t u
      by (induction es arbitrary: s) (auto split: outcome.splits)
    then have "h = chat_serveWs p h0" using assms(1) h0(1) by fastforce
    then show "chat_live h" "p \<in> set (chat_clients h)" "ch_buf (chat_heap h p) = []"
      using h0(2) by (auto simp: chat_serveWs_def chat_live_def members_live_def make_chan_def)
  qed
  have a: "chat.run_allowed es s" for es s by (induction es arbitrary: s) auto
  obtain h' where h': "exec chat_run es h = Returns h'" "members_live (chat_clients h') (chat_heap h')"
    using chat.exec_live h(1) unfolding chat_live_def by blast
  from chat.queue_run [OF h(1) a h'(1) assms(2) h(2)] h(3) log_broadcasts [OF h'(1)]
  have "prefix (log_of chat_run (chat_takes p) es h @ ch_buf (chat_heap h' p)) (broadcasts es)"
    "p \<in> set (chat_clients h') \<longrightarrow> log_of chat_run (chat_takes p) es h @ ch_buf (chat_heap h' p) = broadcasts es" by simp_all
  moreover have "p \<in> set (chat_clients h') \<longrightarrow> length (ch_buf (chat_heap h' p)) \<le> ch_cap (chat_heap h' p)"
    using h'(2) by (simp add: members_live_def)
  ultimately show ?thesis using h'(1) by (meson append_prefixD)
qed

text \<open>
  The channels behave as the comments of \<open>send.go\<close> say: a receive from a closed channel does
  not wait and says so, and of five sends to a channel with one place one succeeds.
\<close>

lemma chan_tests:
  "chan_test1 = Returns [LogValue 0]" "chan_test2 = Returns [LogPair 0 False]" "chan_test3 = Returns [LogPair 0 False]"
  "chan_test5 = map (\<lambda>i. LogPair i True) [0..<10]"
  "chan_test6 = Returns [LogValue 0, LogDefault, LogDefault, LogDefault, LogDefault]"
  by code_simp+

text \<open>Whatever the scheduler does, the values that arrive are the first ones offered, in order.\<close>

lemma chan_test4_order:
  "filter (\<lambda>l. l \<noteq> LogDefault) (chan_test4_loop ready offered) =
     map (\<lambda>i. LogPair i True) (take (length (filter id ready)) offered)"
  by (induction ready offered rule: chan_test4_loop.induct) (auto split: list.splits)

lemma parseurl_output:
  "print_url ''http://www.example.com:443'' = Returns (''www.example.com:443'', ''443'', ''http://www.example.com:443'')"
  "print_url ''http://www.example.com:80'' = Returns (''www.example.com:80'', ''80'', ''http://www.example.com:80'')"
  "print_url ''http:///test.html'' = Returns ('''', '''', ''http:///test.html'')"
  by code_simp+

theorem chat_delivers_witness:
  "\<exists>h h'. exec chat_run ([] @ [ChatRegister 1]) chat_newHub = Returns h
     \<and> exec chat_run [ChatBroadcast id ''a'', ChatPump 1, ChatBroadcast id ''b''] h = Returns h'
     \<and> prefix (log_of chat_run (chat_takes 1) [ChatBroadcast id ''a'', ChatPump 1, ChatBroadcast id ''b''] h) [''a'', ''b'']"
proof -
  let ?es = "[ChatBroadcast id ''a'', ChatPump 1, ChatBroadcast id ''b'']"
  have "exec chat_run ([] @ [ChatRegister 1]) chat_newHub = Returns (chat_serveWs 1 chat_newHub)" by simp
  moreover have "\<forall>e \<in> set ?es. chat_joins e \<noteq> Some 1" by simp
  moreover have "broadcasts ?es = [''a'', ''b'']" by (simp add: broadcasts_def)
  ultimately show ?thesis using chat_delivers [of "[]" 1 _ ?es] by metis
qed

text \<open>Every message is sent as one frame, up to the first write that fails; the closing frame is the last.\<close>

lemma chat_writePump_frames:
  "chat_writePump ms closed = (frames, fin) \<Longrightarrow> prefix frames (map fst ms) \<and> (fin \<longrightarrow> closed \<and> frames = map fst ms)"
  by (induction ms closed arbitrary: frames fin rule: chat_writePump.induct) (auto split: if_splits prod.splits)

end
