(* ===== verification/Go_Time.thy ===== *)
theory Go_Time
  imports Go_Prelude
begin

section \<open>Package time and zero-padded numbers\<close>

text \<open>
  The part of the packages \<open>time\<close> and \<open>fmt\<close> the log files use: the calendar, local dates,
  the zero-padded decimal verbs, and the parsing of a date. An instant is the number of
  seconds since 1970; the local location has a fixed offset to UTC, in seconds, as long as
  no change to or from summer time lies between the instants that are compared.
\<close>

subsection \<open>The calendar\<close>

definition leap :: "int \<Rightarrow> bool" where
  "leap y \<longleftrightarrow> y mod 4 = 0 \<and> (y mod 100 \<noteq> 0 \<or> y mod 400 = 0)"

definition month_len :: "int \<Rightarrow> int \<Rightarrow> int" where
  "month_len y m = (if m = 2 then (if leap y then 29 else 28) else if m \<in> {4, 6, 9, 11} then 30 else 31)"

type_synonym date = "int \<times> int \<times> int"

definition valid_date :: "date \<Rightarrow> bool" where
  "valid_date = (\<lambda>(y, m, d). 0 \<le> y \<and> 1 \<le> m \<and> m \<le> 12 \<and> 1 \<le> d \<and> d \<le> month_len y m)"

text \<open>Days before the first of January of a year and before the first of a month of it.\<close>

definition year_days :: "int \<Rightarrow> int" where
  "year_days y = 365 * y + (y + 3) div 4 - (y + 99) div 100 + (y + 399) div 400"

definition month_days :: "int \<Rightarrow> int \<Rightarrow> int" where
  "month_days y m = sum_list (map (month_len y) [1 .. m - 1])"

text \<open>The number of a day, 1 January 1970 being 0.\<close>

definition day_number :: "date \<Rightarrow> int" where
  "day_number = (\<lambda>(y, m, d). year_days y + month_days y m + d - 1 - 719528)"

definition next_date :: "date \<Rightarrow> date" where
  "next_date = (\<lambda>(y, m, d).
     if d < month_len y m then (y, m, d + 1) else if m < 12 then (y, m + 1, 1) else (y + 1, 1, 1))"

text \<open>The calendar day number \<open>n\<close> after 1970.\<close>

fun nth_date :: "nat \<Rightarrow> date" where
  "nth_date 0 = (1970, 1, 1)"
| "nth_date (Suc n) = next_date (nth_date n)"

lemma month_len_bounds: "28 \<le> month_len y m" "month_len y m \<le> 31"
  by (auto simp: month_len_def)

lemma valid_next_date: "valid_date x \<Longrightarrow> valid_date (next_date x)"
  using month_len_bounds by (auto simp: valid_date_def next_date_def split: prod.splits intro: order_trans [of 1 28])

lemma month_days_Suc: "1 \<le> m \<Longrightarrow> month_days y (m + 1) = month_days y m + month_len y m"
  by (simp add: month_days_def upto_rec2)

lemma month_days_1 [simp]: "month_days y 1 = 0"
  by (simp add: month_days_def)

lemma month_days_year: "month_days y 12 + month_len y 12 = (if leap y then 366 else 365)"
proof -
  have "[1 .. 12 - 1] = [1, 2, 3, 4, 5, 6, 7, 8, 9, 10, 11 :: int]" by (simp add: upto.simps)
  then show ?thesis unfolding month_days_def by (simp add: month_len_def)
qed

lemma div_step:
  assumes "0 < k"
  shows "(y + k) div k = (y + (k - 1)) div k + (if y mod k = 0 then 1 else (0 :: int))"
proof -
  have y: "y + (k - 1) = (y mod k + (k - 1)) + y div k * k" using div_mult_mod_eq [of y k] by linarith
  have "(y + (k - 1)) div k = (y mod k + (k - 1)) div k + y div k"
    by (metis y assms div_mult_self1 less_irrefl add.commute)
  moreover have "(y mod k + (k - 1)) div k = (if y mod k = 0 then 0 else 1)"
  proof (cases "y mod k = 0")
    case False
    then have "0 \<le> y mod k - 1" "y mod k - 1 < k" using assms pos_mod_sign [of k y] pos_mod_bound [of k y] by linarith+
    then have "((y mod k - 1) + k) div k = 1"
      using assms by (subst div_add_self2) (simp_all add: div_pos_pos_trivial)
    with False show ?thesis by (simp add: algebra_simps)
  qed (use assms in \<open>simp add: div_pos_pos_trivial\<close>)
  moreover have "(y + k) div k = y div k + 1" using assms by (intro div_add_self2) simp
  ultimately show ?thesis by simp
qed

lemma div_step': "0 < k \<Longrightarrow> j = k - 1 \<Longrightarrow> (y + k) div k = (y + j) div k + (if y mod k = 0 then 1 else (0 :: int))"
  using div_step by simp

lemma four_dvd_hundred: "(4 :: int) dvd 100" and hundred_dvd_400: "(100 :: int) dvd 400"
  by simp_all

lemma leap_count:
  "(q \<Longrightarrow> p) \<Longrightarrow> (r \<Longrightarrow> q) \<Longrightarrow>
     (if p \<and> (\<not> q \<or> r) then 1 else (0 :: int)) = (if p then 1 else 0) - (if q then 1 else 0) + (if r then 1 else 0)"
  by (cases p; cases q; cases r) simp_all

lemma count_arith:
  "365 * (y + 1) + (a + p) - (b + q) + (c + r) = 365 * y + a - b + c + (365 + (p - q + (r :: int)))"
  by simp

lemma year_days_Suc: "year_days (y + 1) = year_days y + (if leap y then 366 else 365)"
proof -
  have d: "(y + 4) div 4 = (y + 3) div 4 + (if y mod 4 = 0 then 1 else 0)"
    "(y + 100) div 100 = (y + 99) div 100 + (if y mod 100 = 0 then 1 else 0)"
    "(y + 400) div 400 = (y + 399) div 400 + (if y mod 400 = 0 then 1 else 0)"
    by (rule div_step', simp, simp)+
  have "y mod 100 = 0 \<Longrightarrow> y mod 4 = 0" and "y mod 400 = 0 \<Longrightarrow> y mod 100 = 0"
    by (metis mod_mod_cancel four_dvd_hundred mod_0, metis mod_mod_cancel hundred_dvd_400 mod_0)
  then have "(if leap y then 1 else (0 :: int)) = (if y mod 4 = 0 then 1 else 0) - (if y mod 100 = 0 then 1 else 0)
      + (if y mod 400 = 0 then 1 else 0)" unfolding leap_def by (rule leap_count)
  moreover have "(if leap y then 366 else 365) = 365 + (if leap y then 1 else (0 :: int))" by simp
  moreover have "y + 1 + 3 = y + 4" "y + 1 + 99 = y + 100" "y + 1 + 399 = y + 400" by simp_all
  ultimately show ?thesis unfolding year_days_def by (simp only: d count_arith)
qed

lemma day_number_next: "valid_date x \<Longrightarrow> day_number (next_date x) = day_number x + 1"
proof -
  assume "valid_date x"
  moreover obtain y m d where x: "x = (y, m, d)" by (cases x)
  ultimately have v: "1 \<le> m" "m \<le> 12" "1 \<le> d" "d \<le> month_len y m" by (auto simp: valid_date_def)
  consider "d < month_len y m" | "d = month_len y m" "m < 12" | "d = month_len y m" "m = 12" using v by linarith
  then show ?thesis
  proof cases
    case 2
    then show ?thesis using v by (simp add: x next_date_def day_number_def month_days_Suc)
  next
    case 3
    then show ?thesis using month_days_year [of y] by (simp add: x next_date_def day_number_def year_days_Suc)
  qed (simp add: x next_date_def day_number_def)
qed

lemma day_number_nth: "valid_date (nth_date n) \<and> day_number (nth_date n) = int n"
proof (induction n)
  case 0
  show ?case by (simp add: valid_date_def month_len_def day_number_def year_days_def)
next
  case (Suc n)
  then show ?case using valid_next_date day_number_next by simp
qed

text \<open>The number of a day determines it.\<close>

lemma nth_date_inject: "nth_date m = nth_date n \<longleftrightarrow> m = n"
  using day_number_nth by (metis of_nat_eq_iff)

subsection \<open>Local dates\<close>

text \<open>\<open>t.Date()\<close> in a location \<open>off\<close> seconds ahead of UTC, for instants from 1970 on.\<close>

definition Date :: "int \<Rightarrow> int \<Rightarrow> date" where
  "Date off t = nth_date (nat ((t + off) div 86400))"

definition midnight :: "int \<Rightarrow> date \<Rightarrow> int" where
  "midnight off x = day_number x * 86400 - off"

lemma midnight_Date:
  "0 \<le> t + off \<Longrightarrow> midnight off (Date off t) = t - (t + off) mod 86400"
proof -
  assume "0 \<le> t + off"
  then have "midnight off (Date off t) = (t + off) div 86400 * 86400 - off"
    by (simp add: midnight_def Date_def day_number_nth pos_imp_zdiv_nonneg_iff)
  then show ?thesis using div_mult_mod_eq [of "t + off" 86400] by linarith
qed

lemma Date_eq_iff:
  "0 \<le> s + off \<Longrightarrow> 0 \<le> t + off \<Longrightarrow> Date off s = Date off t \<longleftrightarrow> (s + off) div 86400 = (t + off) div 86400"
  by (simp add: Date_def nth_date_inject nat_eq_iff pos_imp_zdiv_nonneg_iff)

subsection \<open>Zero-padded decimals\<close>

text \<open>\<open>fmt.Sprintf("%0wd", n)\<close>; the sign counts towards the width.\<close>

definition pad_dec :: "nat \<Rightarrow> int \<Rightarrow> string" where
  "pad_dec w n =
     (if n < 0 then CHR ''-'' # replicate (w - 1 - length (dec_digits (nat (- n)))) (CHR ''0'') @ dec_digits (nat (- n))
      else replicate (w - length (dec_digits (nat n))) (CHR ''0'') @ dec_digits (nat n))"

lemma length_dec_digits: "n < 10 ^ Suc k \<Longrightarrow> length (dec_digits n) \<le> Suc k"
proof (induction n arbitrary: k rule: dec_digits.induct)
  case (1 n)
  then show ?case
  proof (cases "n < 10")
    case False
    then obtain j where "k = Suc j" using 1(2) by (cases k) auto
    with 1 False show ?thesis by (subst dec_digits.simps) (auto simp: less_mult_imp_div_less)
  qed (subst dec_digits.simps, simp)
qed

lemma length_pad_dec: "0 \<le> n \<Longrightarrow> nat n < 10 ^ Suc k \<Longrightarrow> length (pad_dec (Suc k) n) = Suc k"
  using length_dec_digits [of "nat n" k] by (simp add: pad_dec_def)

lemma parse_zeros: "parse_digits b0 10 maxv 0 (replicate k (CHR ''0'') @ ds) = parse_digits b0 10 maxv 0 ds"
proof (induction k)
  case (Suc k)
  have "digit_val (CHR ''0'') = Some 0" by (simp add: digit_val_def)
  with Suc show ?case by simp
qed simp

lemma pad_dec_notin: "0 \<le> n \<Longrightarrow> of_char c < (48::nat) \<or> 57 < (of_char c :: nat) \<Longrightarrow> c \<notin> set (pad_dec w n)"
  using dec_digits_notin [of c "nat n"] by (auto simp: pad_dec_def)

text \<open>Parsing reads back what padding wrote.\<close>

lemma ParseInt_pad_dec [go_trip]:
  assumes "0 \<le> n" and "n < 2 ^ 63"
  shows "ParseInt (pad_dec w n) 10 64 = (n, None)"
proof -
  have c: "CHR ''+'' \<notin> set (pad_dec w n)" "CHR ''-'' \<notin> set (pad_dec w n)"
    using pad_dec_notin [OF assms(1)] by auto
  have ne: "pad_dec w n \<noteq> []" using assms(1) by (simp add: pad_dec_def)
  have "nat n \<le> 2 ^ 64 - 1" using assms by simp
  then have "ParseUint (pad_dec w n) 10 64 = (nat n, None)"
    using ne assms(1) parse_dec_digits [of "nat n" "2 ^ 64 - 1" False]
    by (simp add: ParseUint_def pad_dec_def parse_zeros)
  moreover obtain d ds where "pad_dec w n = d # ds" using ne by (cases "pad_dec w n") auto
  ultimately show ?thesis using c assms by (auto simp: ParseInt_def Let_def)
qed

end
