(* ===== verification/Log_Writer.thy ===== *)
theory Log_Writer
  imports Go_Time Conf_Router Tools
begin

section \<open>The log files\<close>

text \<open>
  The package \<open>logging\<close>: the writer that opens a file per day (\<open>timewriter.go\<close>), the removal
  and compression of old files, and the set-up of the standard logger (\<open>logger.go\<close>). Files
  are named strings with contents; the outcomes of the system calls, gzip and the location
  of the clock are parameters. Every operation reads the clock once; that a date changes
  between two readings inside one call is not modelled. The mutex makes writes atomic.
\<close>

subsection \<open>Package path/filepath\<close>

definition path_base :: "string \<Rightarrow> string" where
  "path_base p =
     (if p = '''' then ''.''
      else let q = rev (dropWhile (\<lambda>c. c = CHR ''/'') (rev p)); b = rev (takeWhile (\<lambda>c. c \<noteq> CHR ''/'') (rev q))
           in if b = '''' then ''/'' else b)"

definition path_ext :: "string \<Rightarrow> string" where
  "path_ext p =
     (let r = takeWhile (\<lambda>c. c \<noteq> CHR ''/'' \<and> c \<noteq> CHR ''.'') (rev p)
      in if length r < length p \<and> rev p ! length r = CHR ''.'' then CHR ''.'' # rev r else '''')"

subsection \<open>timewriter.go: the file of a day\<close>

definition compressSuffix :: string where
  "compressSuffix = ''.gz''"

text \<open>
  An open file: one that was opened to append, or one that was created, with the offset the
  next write goes to.
\<close>

datatype log_file = AppendTo string | WriteAt string nat

record TimeWriter =
  tw_Dir :: string
  tw_Prefix :: string
  tw_Compress :: bool
  tw_ReserveDay :: int
  tw_curFilename :: string
  tw_file :: "log_file option"
  tw_mill :: bool

text \<open>
  The system: the offset of the local time, the directory for temporary files, what \<open>Stat\<close>
  says of a path apart from its existence, and the errors of creating the directory, of
  opening a file (to append, and to create) and of writing a number of bytes.
\<close>

record log_sys =
  ls_off :: int
  ls_TempDir :: string
  ls_Stat :: "string \<Rightarrow> go_err option"
  ls_MkdirAll :: "string \<Rightarrow> go_err option"
  ls_Append :: "string \<Rightarrow> go_err option"
  ls_Create :: "string \<Rightarrow> go_err option"
  ls_Write :: "nat \<Rightarrow> nat \<times> go_err option"

type_synonym files = "string \<Rightarrow> string option"

definition date_string :: "date \<Rightarrow> string" where
  "date_string = (\<lambda>(y, m, d). pad_dec 4 y @ pad_dec 2 m @ pad_dec 2 d)"

definition log_name :: "TimeWriter \<Rightarrow> date \<Rightarrow> string" where
  "log_name l x = tw_Prefix l @ ''.'' @ date_string x @ ''.log''"

definition filename :: "log_sys \<Rightarrow> int \<Rightarrow> TimeWriter \<Rightarrow> string" where
  "filename sys now l =
     path_join [if tw_Dir l \<noteq> '''' then tw_Dir l else ls_TempDir sys, log_name l (Date (ls_off sys) now)]"

definition openNew :: "log_sys \<Rightarrow> int \<Rightarrow> TimeWriter \<Rightarrow> files \<Rightarrow> go_err option \<times> TimeWriter \<times> files" where
  "openNew sys now l fs =
     (let name = filename sys now l
      in case ls_MkdirAll sys (tw_Dir l) of
           Some err \<Rightarrow> (Some (ErrMsg ''can't make directories for new logfile''), l, fs)
         | None \<Rightarrow>
             (case ls_Create sys name of
                Some err \<Rightarrow> (Some (ErrMsg ''can't open new logfile''), l, fs)
              | None \<Rightarrow> (None, l\<lparr>tw_curFilename := name, tw_file := Some (WriteAt name 0)\<rparr>, fs(name \<mapsto> ''''))))"

definition openExistingOrNew :: "log_sys \<Rightarrow> int \<Rightarrow> TimeWriter \<Rightarrow> files \<Rightarrow> go_err option \<times> TimeWriter \<times> files" where
  "openExistingOrNew sys now l fs =
     (let name = filename sys now l
      in if ls_Stat sys name = None \<and> fs name = None then openNew sys now l fs
         else if ls_Stat sys name \<noteq> None then (Some (ErrMsg ''error getting log file info''), l, fs)
         else if ls_Append sys name \<noteq> None then openNew sys now l fs
         else (None, l\<lparr>tw_curFilename := name, tw_file := Some (AppendTo name)\<rparr>, fs))"

definition tw_close :: "TimeWriter \<Rightarrow> TimeWriter" where
  "tw_close l = l\<lparr>tw_file := None\<rparr>"

text \<open>The channel of the mill goroutine holds one request; more are dropped.\<close>

definition mill :: "TimeWriter \<Rightarrow> TimeWriter" where
  "mill l = l\<lparr>tw_mill := True\<rparr>"

definition rotate :: "log_sys \<Rightarrow> int \<Rightarrow> TimeWriter \<Rightarrow> files \<Rightarrow> go_err option \<times> TimeWriter \<times> files" where
  "rotate sys now l fs =
     (case openNew sys now (tw_close l) fs of
        (Some err, l, fs) \<Rightarrow> (Some err, l, fs)
      | (None, l, fs) \<Rightarrow> (None, mill l, fs))"

text \<open>Writing to an open file; past the end the gap is filled with zero bytes.\<close>

definition put_at :: "nat \<Rightarrow> string \<Rightarrow> string \<Rightarrow> string" where
  "put_at i p s = take i s @ replicate (i - length s) (CHR 0x00) @ p @ drop (i + length p) s"

definition file_write :: "log_file \<Rightarrow> string \<Rightarrow> files \<Rightarrow> log_file \<times> files" where
  "file_write f p fs =
     (case f of
        AppendTo name \<Rightarrow> (f, (case fs name of None \<Rightarrow> fs | Some s \<Rightarrow> fs(name \<mapsto> s @ p)))
      | WriteAt name i \<Rightarrow> (WriteAt name (i + length p), (case fs name of None \<Rightarrow> fs | Some s \<Rightarrow> fs(name \<mapsto> put_at i p s))))"

text \<open>The errors of \<open>rotate\<close> are ignored; a nil file refuses the write.\<close>

definition TimeWriter_Write ::
  "log_sys \<Rightarrow> int \<Rightarrow> string \<Rightarrow> TimeWriter \<Rightarrow> files \<Rightarrow> nat go_ret \<times> TimeWriter \<times> files" where
  "TimeWriter_Write sys now p l fs =
     (case (if tw_file l = None then openExistingOrNew sys now l fs else (None, l, fs)) of
        (Some err, l, fs) \<Rightarrow> ((0, Some err), l, fs)
      | (None, l, fs) \<Rightarrow>
          (case (if tw_curFilename l \<noteq> filename sys now l then snd (rotate sys now l fs) else (l, fs)) of (l, fs) \<Rightarrow>
             (case tw_file l of
                None \<Rightarrow> ((0, Some (ErrMsg ''invalid argument'')), l, fs)
              | Some f \<Rightarrow>
                  (let (n, err) = ls_Write sys (length p); (f, fs) = file_write f (take n p) fs
                   in ((n, err), l\<lparr>tw_file := Some f\<rparr>, fs)))))"

text \<open>The exported \<open>Rotate\<close> and \<open>Close\<close>.\<close>

definition TimeWriter_Rotate :: "log_sys \<Rightarrow> int \<Rightarrow> TimeWriter \<Rightarrow> files \<Rightarrow> go_err option \<times> TimeWriter \<times> files" where
  "TimeWriter_Rotate = rotate"

definition TimeWriter_Close :: "TimeWriter \<Rightarrow> go_err option \<times> TimeWriter" where
  "TimeWriter_Close l = (None, tw_close l)"

subsection \<open>timewriter.go: old files\<close>

text \<open>\<open>time.ParseInLocation\<close> on the text the year, the month and the day are printed to.\<close>

definition parse_day :: "int \<Rightarrow> int \<Rightarrow> int \<Rightarrow> int \<Rightarrow> int go_ret" where
  "parse_day off year month day =
     (if length (pad_dec 4 year) = 4 \<and> 0 \<le> year \<and> length (pad_dec 2 month) = 2 \<and> length (pad_dec 2 day) = 2
         \<and> valid_date (year, month, day)
      then (midnight off (year, month, day), None) else (0, Some (ErrMsg ''parsing time'')))"

text \<open>
  The errors of parsing the month and the day are dropped; only that of the year is tested.
  The slice panics when prefix and extension overlap in the name.
\<close>

definition timeFromName :: "int \<Rightarrow> string \<Rightarrow> string \<Rightarrow> string \<Rightarrow> int go_ret outcome" where
  "timeFromName off name prefix ext =
     (if \<not> HasPrefix name prefix then Returns (0, Some (ErrMsg ''mismatched prefix''))
      else if \<not> HasSuffix name ext then Returns (0, Some (ErrMsg ''mismatched extension''))
      else if length name - length ext < length prefix then Panics
      else
        let ts = drop (length prefix) (take (length name - length ext) name)
        in if length ts \<noteq> 8 then Returns (0, Some (ErrMsg ''mismatched date''))
           else
             (case ParseInt (take 4 ts) 10 64 of
                (year, Some err) \<Rightarrow> Returns (0, Some err)
              | (year, None) \<Rightarrow>
                  let month = fst (ParseInt (take 2 (drop 4 ts)) 10 64); day = fst (ParseInt (take 2 (drop 6 ts)) 10 64)
                  in Returns (parse_day off year month day)))"

text \<open>The slice that drops the eight digits of the date panics when the name is shorter.\<close>

definition prefixAndExt :: "log_sys \<Rightarrow> int \<Rightarrow> TimeWriter \<Rightarrow> (string \<times> string) outcome" where
  "prefixAndExt sys now l =
     (let name = path_base (filename sys now l); ext = path_ext name
      in if length name < length ext + 8 then Panics
         else Returns (take (length name - length ext - 8) name, ext))"

text \<open>
  The loop over the entries of the directory, each a name and whether it is a directory; it
  gives the old files with their dates. They are then sorted, the newest first.
\<close>

fun old_loop :: "int \<Rightarrow> string \<Rightarrow> string \<Rightarrow> string \<Rightarrow> (string \<times> bool) list \<Rightarrow> (int \<times> string) list outcome" where
  "old_loop off cur prefix ext [] = Returns []"
| "old_loop off cur prefix ext ((name, isDir) # es) =
     (if isDir \<or> name = cur then old_loop off cur prefix ext es
      else
        (case timeFromName off name prefix ext of
           Panics \<Rightarrow> Panics
         | Returns (t, None) \<Rightarrow>
             (case old_loop off cur prefix ext es of Panics \<Rightarrow> Panics | Returns fs \<Rightarrow> Returns ((t, name) # fs))
         | Returns (t, Some err) \<Rightarrow>
             (case timeFromName off name prefix (ext @ compressSuffix) of
                Panics \<Rightarrow> Panics
              | Returns (t, None) \<Rightarrow>
                  (case old_loop off cur prefix ext es of Panics \<Rightarrow> Panics | Returns fs \<Rightarrow> Returns ((t, name) # fs))
              | Returns (t, Some err) \<Rightarrow> old_loop off cur prefix ext es)))"

definition oldLogFiles ::
  "log_sys \<Rightarrow> int \<Rightarrow> TimeWriter \<Rightarrow> (string \<times> bool) list go_ret \<Rightarrow> (int \<times> string) list go_ret outcome" where
  "oldLogFiles sys now l entries =
     (case entries of
        (es, Some err) \<Rightarrow> Returns ([], Some (ErrMsg ''can't read log file directory''))
      | (es, None) \<Rightarrow>
          (case prefixAndExt sys now l of
             Panics \<Rightarrow> Panics
           | Returns (prefix, ext) \<Rightarrow>
               (case old_loop (ls_off sys) (path_base (tw_curFilename l)) prefix ext es of
                  Panics \<Rightarrow> Panics
                | Returns fs \<Rightarrow> Returns (sort_key (\<lambda>f. - fst f) fs, None))))"

text \<open>
  The files \<open>millRunOnce\<close> removes and those it compresses. A day is 24 hours; the duration
  is an \<open>int64\<close> of nanoseconds, which does not overflow below 106,751 days.
\<close>

definition mill_plan :: "int \<Rightarrow> TimeWriter \<Rightarrow> (int \<times> string) list \<Rightarrow> (int \<times> string) list \<times> (int \<times> string) list" where
  "mill_plan now l files =
     (let cutoff = now - 86400 * tw_ReserveDay l;
          remove = (if tw_ReserveDay l > 0 then filter (\<lambda>f. fst f < cutoff) files else []);
          files = (if tw_ReserveDay l > 0 then filter (\<lambda>f. \<not> fst f < cutoff) files else files)
      in (remove, if tw_Compress l then filter (\<lambda>f. \<not> HasSuffix (snd f) compressSuffix) files else []))"

text \<open>
  Compressing a file: the steps that can fail, in the order of the code. The deferred
  function removes the target when an error is returned after it was created.
\<close>

datatype compress_step = CsOpen | CsStat | CsCreate | CsCopy | CsGzClose | CsClose | CsSrcClose | CsRemove

definition compressLogFile ::
  "(string \<Rightarrow> string) \<Rightarrow> (compress_step \<Rightarrow> go_err option) \<Rightarrow> string \<Rightarrow> string \<Rightarrow> files \<Rightarrow> go_err option \<times> files" where
  "compressLogFile gzip fails src dst fs =
     (case fs src of
        None \<Rightarrow> (Some (ErrMsg ''failed to open log file''), fs)
      | Some s \<Rightarrow>
          if fails CsOpen \<noteq> None then (Some (ErrMsg ''failed to open log file''), fs)
          else if fails CsStat \<noteq> None then (Some (ErrMsg ''failed to stat log file''), fs)
          else if fails CsCreate \<noteq> None then (Some (ErrMsg ''failed to open compressed log file''), fs)
          else if fails CsCopy \<noteq> None \<or> fails CsGzClose \<noteq> None \<or> fails CsClose \<noteq> None \<or> fails CsSrcClose \<noteq> None
              \<or> fails CsRemove \<noteq> None
          then (Some (ErrMsg ''failed to compress log file''), fs(dst := None))
          else (None, (fs(dst \<mapsto> gzip s))(src := None)))"

text \<open>The loops over the two lists; the first error is kept and the loops go on.\<close>

fun remove_loop :: "(string \<Rightarrow> go_err option) \<Rightarrow> string \<Rightarrow> (int \<times> string) list \<Rightarrow> go_err option \<Rightarrow> files \<Rightarrow> go_err option \<times> files" where
  "remove_loop rm dir [] err fs = (err, fs)"
| "remove_loop rm dir ((t, f) # xs) err fs =
     (let p = path_join [dir, f]; e = rm p
      in remove_loop rm dir xs (if err = None \<and> e \<noteq> None then e else err) (if e = None then fs(p := None) else fs))"

fun compress_loop ::
  "(string \<Rightarrow> string) \<Rightarrow> (string \<Rightarrow> compress_step \<Rightarrow> go_err option) \<Rightarrow> string \<Rightarrow> (int \<times> string) list \<Rightarrow> go_err option \<Rightarrow> files
     \<Rightarrow> go_err option \<times> files" where
  "compress_loop gzip fails dir [] err fs = (err, fs)"
| "compress_loop gzip fails dir ((t, f) # xs) err fs =
     (let fn = path_join [dir, f]; (e, fs) = compressLogFile gzip (fails fn) fn (fn @ compressSuffix) fs
      in compress_loop gzip fails dir xs (if err = None \<and> e \<noteq> None then e else err) fs)"

definition millRunOnce ::
  "log_sys \<Rightarrow> (string \<Rightarrow> string) \<Rightarrow> (string \<Rightarrow> go_err option) \<Rightarrow> (string \<Rightarrow> compress_step \<Rightarrow> go_err option) \<Rightarrow> int
     \<Rightarrow> (string \<times> bool) list go_ret \<Rightarrow> TimeWriter \<Rightarrow> files \<Rightarrow> (go_err option \<times> files) outcome" where
  "millRunOnce sys gzip rm fails now entries l fs =
     (if tw_ReserveDay l = 0 \<and> \<not> tw_Compress l then Returns (None, fs)
      else
        (case oldLogFiles sys now l entries of
           Panics \<Rightarrow> Panics
         | Returns (files, Some err) \<Rightarrow> Returns (Some err, fs)
         | Returns (files, None) \<Rightarrow>
             (let (remove, compress) = mill_plan now l files;
                  (err, fs) = remove_loop rm (tw_Dir l) remove None fs
              in Returns (compress_loop gzip fails (tw_Dir l) compress err fs))))"

subsection \<open>logger.go\<close>

text \<open>The flag bits of the package \<open>log\<close> and the debug levels of \<open>config\<close>.\<close>

definition Ldate :: nat where "Ldate = 1"
definition Ltime :: nat where "Ltime = 2"
definition Lmicroseconds :: nat where "Lmicroseconds = 4"
definition Llongfile :: nat where "Llongfile = 8"
definition Lshortfile :: nat where "Lshortfile = 16"
definition LstdFlags :: nat where "LstdFlags = Ldate OR Ltime"

definition LevelShort :: int where "LevelShort = 0"
definition LevelLong :: int where "LevelLong = 1"
definition LevelDebug :: int where "LevelDebug = 2"
definition LevelDebugBody :: int where "LevelDebugBody = 3"

definition logger_flags :: "int \<Rightarrow> nat" where
  "logger_flags level =
     (if level = LevelLong then Lshortfile OR Ldate OR Lmicroseconds
      else if level = LevelDebug then Llongfile OR Ldate OR Lmicroseconds
      else if level = LevelDebugBody then Lshortfile OR Ldate OR Lmicroseconds
      else Lshortfile OR LstdFlags)"

text \<open>
  The standard logger: its time writer, whether it also writes to the writer given (the
  standard output of a process in the foreground), and its flags.
\<close>

record logger =
  lg_file :: TimeWriter
  lg_stdout :: bool
  lg_flags :: nat

definition SetDefaultLogger :: "settings \<Rightarrow> string \<Rightarrow> string \<Rightarrow> bool \<Rightarrow> int \<Rightarrow> bool \<Rightarrow> logger" where
  "SetDefaultLogger cfg dir prefix compress reserveDay w =
     \<lparr>lg_file = \<lparr>tw_Dir = dir, tw_Prefix = prefix, tw_Compress = compress, tw_ReserveDay = reserveDay,
        tw_curFilename = '''', tw_file = None, tw_mill = False\<rparr>,
      lg_stdout = w, lg_flags = logger_flags (DebugLevel cfg)\<rparr>"

text \<open>
  One line of the logger through \<open>io.MultiWriter\<close>: the standard output gets it only when
  the file has taken all of it.
\<close>

definition logger_Write ::
  "log_sys \<Rightarrow> int \<Rightarrow> string \<Rightarrow> logger \<Rightarrow> files \<Rightarrow> string \<Rightarrow> logger \<times> files \<times> string" where
  "logger_Write sys now p lg fs out =
     (case TimeWriter_Write sys now p (lg_file lg) fs of
        ((n, err), l, fs) \<Rightarrow>
          (lg\<lparr>lg_file := l\<rparr>, fs, if lg_stdout lg \<and> err = None \<and> n = length p then out @ p else out))"

text \<open>The file for the standard error of a daemon; \<open>None\<close> is \<open>log.Fatalln\<close>.\<close>

definition ErrlogFd :: "stat_result \<Rightarrow> go_err option \<Rightarrow> (string \<Rightarrow> go_err option) \<Rightarrow> string \<Rightarrow> string \<Rightarrow> string option" where
  "ErrlogFd stat mkdir open_err logDir cmdName =
     (if stat = StatNotExist \<and> mkdir \<noteq> None then None
      else
        let errFile = path_join [logDir, cmdName @ ''.err.log'']
        in if open_err errFile \<noteq> None then None else Some errFile)"

subsection \<open>Paths\<close>

lemma Split_snoc_byte:
  assumes "b \<notin> set t"
  shows "Split (s @ b # t) [b] = Split s [b] @ [t]"
proof (induction "length s" arbitrary: s rule: less_induct)
  case less
  show ?case
  proof (cases "b \<in> set s")
    case False
    then show ?thesis using assms by (simp add: Split_byte_append Split_byte_none)
  next
    case True
    then obtain u v where s: "s = u @ b # v" "b \<notin> set u" by (meson split_list_first)
    with less [of v] show ?thesis by (simp add: Split_byte_append)
  qed
qed

definition plain_name :: "string \<Rightarrow> bool" where
  "plain_name n \<longleftrightarrow> CHR ''/'' \<notin> set n \<and> n \<notin> {'''', ''.'', ''..''}"

lemma clean_parts_snoc:
  "plain_name n \<Longrightarrow> clean_parts rooted acc (ps @ [n]) = clean_parts rooted acc ps @ [n]"
  by (induction rooted acc ps rule: clean_parts.induct) (auto simp: plain_name_def split: list.splits)

lemma Join_snoc: "Join (xs @ [x]) sep = (if xs = [] then x else Join xs sep @ sep @ x)"
  by (induction xs) (auto simp: Join_Cons)

lemma path_clean_snoc:
  assumes "plain_name n"
  shows "\<exists>x. path_clean (dir @ ''/'' @ n) = x @ n \<and> (x = '''' \<or> last x = CHR ''/'')"
proof -
  have "Split (dir @ ''/'' @ n) ''/'' = Split dir ''/'' @ [n]"
    using Split_snoc_byte assms by (simp add: plain_name_def)
  moreover have "n \<noteq> ''''" using assms by (simp add: plain_name_def)
  ultimately show ?thesis
    using clean_parts_snoc [OF assms] by (auto simp: path_clean_def Let_def Join_snoc)
qed

lemma path_base_snoc:
  assumes "plain_name n" and "x = '''' \<or> last x = CHR ''/''"
  shows "path_base (x @ n) = n"
proof -
  have n: "n \<noteq> ''''" "CHR ''/'' \<notin> set (rev n)" using assms(1) by (auto simp: plain_name_def)
  then have "dropWhile (\<lambda>c. c = CHR ''/'') (rev n @ rev x) = rev n @ rev x"
    by (cases "rev n") auto
  moreover have "takeWhile (\<lambda>c. c \<noteq> CHR ''/'') (rev n @ rev x) = rev n @ takeWhile (\<lambda>c. c \<noteq> CHR ''/'') (rev x)"
    by (rule takeWhile_append2) (use n(2) in metis)
  moreover have "takeWhile (\<lambda>c. c \<noteq> CHR ''/'') (rev x) = ''''"
    using assms(2) by (cases x rule: rev_cases) auto
  ultimately show ?thesis using n(1) by (simp add: path_base_def Let_def)
qed

lemma path_clean_plain: "plain_name n \<Longrightarrow> path_clean n = n"
  using Split_byte_none [of "CHR ''/''" n]
  by (cases n) (auto simp: path_clean_def Let_def plain_name_def HasPrefix_def)

text \<open>The last element of a joined path.\<close>

lemma base_join: "plain_name n \<Longrightarrow> path_base (path_join [dir, n]) = n"
proof (cases "dir = ''''")
  case True
  assume n: "plain_name n"
  then have "path_join [dir, n] = n"
    using True path_clean_plain [OF n] by (auto simp: path_join_def Let_def plain_name_def)
  then show ?thesis using path_base_snoc [OF n disjI1 [OF refl]] by simp
next
  case False
  assume n: "plain_name n"
  then have "path_join [dir, n] = path_clean (dir @ ''/'' @ n)" using False by (simp add: path_join_def)
  moreover obtain x where x: "path_clean (dir @ ''/'' @ n) = x @ n" "x = '''' \<or> last x = CHR ''/''"
    using path_clean_snoc [OF n] by blast
  ultimately show ?thesis using path_base_snoc [OF n x(2)] by simp
qed

subsection \<open>The names of log files\<close>

definition log_ext :: string where
  "log_ext = ''.log''"

text \<open>A date the eight digits of a name can hold.\<close>

definition four_digit :: "date \<Rightarrow> bool" where
  "four_digit = (\<lambda>(y, m, d). y < 10000)"

lemma date_parts:
  assumes "valid_date (y, m, d)" and "four_digit (y, m, d)"
  shows "length (pad_dec 4 y) = 4" "length (pad_dec 2 m) = 2" "length (pad_dec 2 d) = 2"
    "0 \<le> y" "0 \<le> m" "0 \<le> d" "y < 2 ^ 63" "m < 2 ^ 63" "d < 2 ^ 63"
proof -
  have b: "0 \<le> y" "y < 10000" "1 \<le> m" "m \<le> 12" "1 \<le> d" "d \<le> 31"
    using assms month_len_bounds [of y m] by (auto simp: valid_date_def four_digit_def)
  then show "length (pad_dec 4 y) = 4" "length (pad_dec 2 m) = 2" "length (pad_dec 2 d) = 2"
    using length_pad_dec [of y 3] length_pad_dec [of m 1] length_pad_dec [of d 1] by (simp_all add: numeral_2_eq_2)
  show "0 \<le> y" "0 \<le> m" "0 \<le> d" "y < 2 ^ 63" "m < 2 ^ 63" "d < 2 ^ 63" using b by simp_all
qed

lemma length_date_string: "valid_date x \<Longrightarrow> four_digit x \<Longrightarrow> length (date_string x) = 8"
  by (cases x) (simp add: date_string_def date_parts)

lemma date_string_notin:
  "valid_date x \<Longrightarrow> of_char c < (48::nat) \<or> 57 < (of_char c :: nat) \<Longrightarrow> c \<notin> set (date_string x)"
  using month_len_bounds by (cases x) (auto simp: date_string_def valid_date_def pad_dec_notin)

text \<open>The pieces of a date string parse back to the date.\<close>

lemma timeFromName_date:
  assumes "valid_date x" and "four_digit x"
  shows "timeFromName off (p @ date_string x @ e) p e = Returns (midnight off x, None)"
proof -
  obtain y m d where x: "x = (y, m, d)" by (cases x)
  note dp = date_parts [OF assms [unfolded x]]
  have l: "length (date_string x) = 8" by (rule length_date_string [OF assms])
  have ts: "take 4 (date_string x) = pad_dec 4 y" "take 2 (drop 4 (date_string x)) = pad_dec 2 m"
      "take 2 (drop 6 (date_string x)) = pad_dec 2 d"
    using dp(1-3) by (simp_all add: x date_string_def)
  have "parse_day off y m d = (midnight off x, None)"
    using assms dp(1-4) by (simp add: parse_day_def x)
  then show ?thesis
    using l dp by (simp add: timeFromName_def HasSuffix_def Let_def ts ParseInt_pad_dec)
qed

text \<open>Prefix and extension as the writer computes them from the name of any day.\<close>

definition log_prefix :: "TimeWriter \<Rightarrow> string" where
  "log_prefix l = tw_Prefix l @ ''.''"

lemma log_name_split: "log_name l x = log_prefix l @ date_string x @ log_ext"
  by (simp add: log_name_def log_prefix_def log_ext_def)

lemma plain_log_name:
  assumes "CHR ''/'' \<notin> set (tw_Prefix l)" and "valid_date x"
  shows "plain_name (log_name l x)" and "plain_name (log_name l x @ compressSuffix)"
proof -
  have "CHR ''/'' \<notin> set (date_string x)" by (rule date_string_notin [OF assms(2)]) simp
  moreover have "4 < length (log_name l x)" by (simp add: log_name_def)
  ultimately show "plain_name (log_name l x)" "plain_name (log_name l x @ compressSuffix)"
    using assms(1) by (auto simp: plain_name_def log_name_def compressSuffix_def)
qed

lemma path_ext_log: "path_ext (s @ ''.log'') = ''.log''"
  by (simp add: path_ext_def Let_def)

lemma base_filename:
  "CHR ''/'' \<notin> set (tw_Prefix l) \<Longrightarrow> path_base (filename sys now l) = log_name l (Date (ls_off sys) now)"
  using base_join [OF plain_log_name(1)] day_number_nth by (simp add: filename_def Date_def)

lemma prefixAndExt_eq:
  assumes "CHR ''/'' \<notin> set (tw_Prefix l)" and "four_digit (Date (ls_off sys) now)"
  shows "prefixAndExt sys now l = Returns (log_prefix l, log_ext)"
proof -
  have "valid_date (Date (ls_off sys) now)" using day_number_nth by (simp add: Date_def)
  from length_date_string [OF this assms(2)] show ?thesis
    using path_ext_log [of "log_prefix l @ date_string (Date (ls_off sys) now)"]
    by (simp add: prefixAndExt_def base_filename [OF assms(1)] log_name_split log_ext_def Let_def)
qed

lemma gz_not_log: "\<not> HasSuffix (s @ compressSuffix) log_ext"
  by (auto simp: HasSuffix_def compressSuffix_def log_ext_def drop_Cons' dest!: arg_cong [where f = last])

lemma log_not_gz: "\<not> HasSuffix (s @ log_ext) compressSuffix"
  by (auto simp: HasSuffix_def compressSuffix_def log_ext_def drop_Cons' dest!: arg_cong [where f = last])

subsection \<open>Old log files\<close>

lemma valid_Date: "valid_date (Date off t)"
  using day_number_nth by (simp add: Date_def)

lemma timeFromName_log:
  assumes "valid_date x" and "four_digit x"
  shows "timeFromName off (log_name l x) (log_prefix l) log_ext = Returns (midnight off x, None)"
    and "timeFromName off (log_name l x @ compressSuffix) (log_prefix l) log_ext = Returns (0, Some (ErrMsg ''mismatched extension''))"
    and "timeFromName off (log_name l x @ compressSuffix) (log_prefix l) (log_ext @ compressSuffix) = Returns (midnight off x, None)"
  using timeFromName_date [OF assms, of off "log_prefix l" log_ext]
    timeFromName_date [OF assms, of off "log_prefix l" "log_ext @ compressSuffix"]
    gz_not_log [of "log_prefix l @ date_string x @ log_ext"]
  by (simp_all add: log_name_split timeFromName_def)

text \<open>
  The names of log files can be read back: the prefix and the extension the writer
  computes on one day take the date out of the name it chose on any other day, whether or
  not the file has been compressed since, and tell the two cases apart.
\<close>

theorem log_name_round_trip:
  assumes "CHR ''/'' \<notin> set (tw_Prefix l)"
    and "four_digit (Date (ls_off sys) now)" and "four_digit (Date (ls_off sys) t)"
  shows "\<exists>prefix ext. prefixAndExt sys now l = Returns (prefix, ext)
    \<and> timeFromName off (path_base (filename sys t l)) prefix ext = Returns (midnight off (Date (ls_off sys) t), None)
    \<and> (\<exists>err. timeFromName off (path_base (filename sys t l) @ compressSuffix) prefix ext = Returns (0, Some err))
    \<and> timeFromName off (path_base (filename sys t l) @ compressSuffix) prefix (ext @ compressSuffix)
        = Returns (midnight off (Date (ls_off sys) t), None)"
  using timeFromName_log [OF valid_Date assms(3)]
  by (simp add: prefixAndExt_eq [OF assms(1,2)] base_filename [OF assms(1)])

text \<open>The time the loop finds in a name.\<close>

definition entry_time :: "int \<Rightarrow> string \<Rightarrow> string \<Rightarrow> string \<Rightarrow> int option" where
  "entry_time off prefix ext name =
     (case timeFromName off name prefix ext of
        Returns (t, None) \<Rightarrow> Some t
      | _ \<Rightarrow> (case timeFromName off name prefix (ext @ compressSuffix) of Returns (t, None) \<Rightarrow> Some t | _ \<Rightarrow> None))"

lemma old_loop_set:
  "old_loop off cur prefix ext es = Returns fs \<Longrightarrow>
     set fs = {(t, n). (n, False) \<in> set es \<and> n \<noteq> cur \<and> entry_time off prefix ext n = Some t}"
proof (induction es arbitrary: fs)
  case (Cons x es)
  obtain name isDir where x: "x = (name, isDir)" by fastforce
  show ?case
  proof (cases "isDir \<or> name = cur")
    case True
    with Cons x show ?thesis by auto
  next
    case False
    obtain t e where t: "timeFromName off name prefix ext = Returns (t, e)"
      using Cons.prems x False by (cases "timeFromName off name prefix ext") auto
    show ?thesis
    proof (cases e)
      case None
      with Cons.prems x False t obtain gs where "old_loop off cur prefix ext es = Returns gs" "fs = (t, name) # gs"
        by (auto split: outcome.splits)
      with Cons.IH [of gs] x False t None show ?thesis by (auto simp: entry_time_def)
    next
      case (Some err)
      with Cons.prems x False t obtain u e' where u: "timeFromName off name prefix (ext @ compressSuffix) = Returns (u, e')"
        by (cases "timeFromName off name prefix (ext @ compressSuffix)") auto
      show ?thesis
      proof (cases e')
        case None
        with Cons.prems x False t Some u obtain gs where "old_loop off cur prefix ext es = Returns gs" "fs = (u, name) # gs"
          by (auto split: outcome.splits)
        with Cons.IH [of gs] x False t Some u None show ?thesis by (auto simp: entry_time_def)
      next
        case (Some err')
        with Cons.prems x False t \<open>e = Some err\<close> u have "old_loop off cur prefix ext es = Returns fs" by simp
        with Cons.IH [of fs] x False t \<open>e = Some err\<close> u Some show ?thesis by (auto simp: entry_time_def)
      qed
    qed
  qed
qed simp

lemma entry_time_log:
  assumes "valid_date x" and "four_digit x" and "n = log_name l x \<or> n = log_name l x @ compressSuffix"
  shows "entry_time off (log_prefix l) log_ext n = Some (midnight off x)"
  using timeFromName_log [OF assms(1,2), of off l] assms(3) by (auto simp: entry_time_def)

lemma entry_time_prefix: "entry_time off prefix ext n = Some t \<Longrightarrow> HasPrefix n prefix"
  by (rule ccontr) (simp add: entry_time_def timeFromName_def)

text \<open>
  The clean-up takes exactly the old files of this writer. Among the regular files of
  the directory, a log file of the writer for a day \<open>x\<close>, compressed or not, is removed
  exactly when that day began before the cut-off, and is compressed exactly when it is not
  removed and not compressed yet. Nothing else is touched: everything removed or
  compressed is a regular file of the directory that carries the writer's prefix, and it is
  not the file being written.
\<close>

theorem mill_takes_old_logs:
  assumes "CHR ''/'' \<notin> set (tw_Prefix l)" and "four_digit (Date (ls_off sys) now)"
    and "tw_ReserveDay l > 0" and "tw_Compress l"
    and "oldLogFiles sys now l (es, None) = Returns (files, None)" and "mill_plan now l files = (remove, compress)"
  shows "(\<forall>x n. valid_date x \<and> four_digit x \<and> (n = log_name l x \<or> n = log_name l x @ compressSuffix)
        \<and> (n, False) \<in> set es \<and> n \<noteq> path_base (tw_curFilename l) \<longrightarrow>
        (n \<in> snd ` set remove \<longleftrightarrow> midnight (ls_off sys) x < now - 86400 * tw_ReserveDay l)
        \<and> (n \<in> snd ` set compress \<longleftrightarrow> n \<notin> snd ` set remove \<and> n = log_name l x))
    \<and> (\<forall>n \<in> snd ` (set remove \<union> set compress).
        (n, False) \<in> set es \<and> HasPrefix n (log_prefix l) \<and> n \<noteq> path_base (tw_curFilename l))"
proof -
  let ?T = "entry_time (ls_off sys) (log_prefix l) log_ext"
  obtain fs where fs: "old_loop (ls_off sys) (path_base (tw_curFilename l)) (log_prefix l) log_ext es = Returns fs"
      and files: "files = sort_key (\<lambda>f. - fst f) fs"
    using assms(5) prefixAndExt_eq [OF assms(1,2)] by (auto simp: oldLogFiles_def split: outcome.splits)
  have mem: "(t, n) \<in> set files \<longleftrightarrow> (n, False) \<in> set es \<and> n \<noteq> path_base (tw_curFilename l) \<and> ?T n = Some t" for t n
    using old_loop_set [OF fs] by (simp add: files)
  let ?cut = "now - 86400 * tw_ReserveDay l"
  have im: "n \<in> snd ` S \<longleftrightarrow> (\<exists>t. (t, n) \<in> S)" for n :: string and S :: "(int \<times> string) set" by force
  have r: "(t, n) \<in> set remove \<longleftrightarrow> (t, n) \<in> set files \<and> t < ?cut" for t n
    using assms(3,6) by (auto simp: mill_plan_def Let_def)
  have c: "(t, n) \<in> set compress \<longleftrightarrow> (t, n) \<in> set files \<and> \<not> t < ?cut \<and> \<not> HasSuffix n compressSuffix" for t n
    using assms(3,4,6) by (auto simp: mill_plan_def Let_def)
  have gz: "HasSuffix (log_name l x @ compressSuffix) compressSuffix" "\<not> HasSuffix (log_name l x) compressSuffix" for x
    using log_not_gz [of "log_prefix l @ date_string x"] by (simp_all add: HasSuffix_def log_name_split)
  show ?thesis
  proof (intro conjI allI impI ballI)
    fix x n
    assume a: "valid_date x \<and> four_digit x \<and> (n = log_name l x \<or> n = log_name l x @ compressSuffix)
        \<and> (n, False) \<in> set es \<and> n \<noteq> path_base (tw_curFilename l)"
    then have t: "?T n = Some (midnight (ls_off sys) x)" using entry_time_log by blast
    then show rm: "n \<in> snd ` set remove \<longleftrightarrow> midnight (ls_off sys) x < ?cut"
      using a by (auto simp: im r mem)
    have "n \<in> snd ` set compress \<longleftrightarrow> \<not> midnight (ls_off sys) x < ?cut \<and> \<not> HasSuffix n compressSuffix"
      using a t by (auto simp: im c mem)
    then show "n \<in> snd ` set compress \<longleftrightarrow> n \<notin> snd ` set remove \<and> n = log_name l x"
      using rm a gz [of x] by (elim conjE disjE) (simp_all add: compressSuffix_def)
  next
    fix n assume "n \<in> snd ` (set remove \<union> set compress)"
    then obtain t where m: "(t, n) \<in> set files" using r c by auto
    then have T: "(n, False) \<in> set es" "n \<noteq> path_base (tw_curFilename l)" "?T n = Some t" using mem by auto
    show "(n, False) \<in> set es" "n \<noteq> path_base (tw_curFilename l)" by (rule T)+
    show "HasPrefix n (log_prefix l)" by (rule entry_time_prefix [OF T(3)])
  qed
qed

text \<open>
  A stray file whose name is the writer's prefix directly followed by the extension
  crashes the process: prefix and extension overlap in the name by the dot, and slicing the
  date out of it panics in the clean-up goroutine, which recovers nothing.
\<close>

theorem stray_log_name_panics:
  assumes "CHR ''/'' \<notin> set (tw_Prefix l)" and "four_digit (Date (ls_off sys) now)"
    and "tw_ReserveDay l \<noteq> 0 \<or> tw_Compress l"
    and "(tw_Prefix l @ log_ext, False) \<in> set es" and "path_base (tw_curFilename l) \<noteq> tw_Prefix l @ log_ext"
  shows "millRunOnce sys gzip rm fails now (es, None) l fs = Panics"
proof -
  let ?n = "tw_Prefix l @ log_ext"
  have "HasPrefix ?n (log_prefix l)" and "HasSuffix ?n log_ext"
    by (simp_all add: HasPrefix_def HasSuffix_def log_prefix_def log_ext_def)
  then have p: "timeFromName off ?n (log_prefix l) log_ext = Panics" for off
    by (simp add: timeFromName_def log_prefix_def log_ext_def)
  have "old_loop off cur (log_prefix l) log_ext es = Panics" if "(?n, False) \<in> set es" "cur \<noteq> ?n" for off cur
    using that(1)
  proof (induction es)
    case (Cons x es)
    show ?case
    proof (cases "x = (?n, False)")
      case True
      then show ?thesis using p that(2) by simp
    next
      case False
      with Cons show ?thesis by (cases x) (auto split: outcome.splits prod.splits option.splits)
    qed
  qed simp
  then have "old_loop (ls_off sys) (path_base (tw_curFilename l)) (log_prefix l) log_ext es = Panics" using assms(4,5) by blast
  then show ?thesis
    using assms(3) by (auto simp: millRunOnce_def oldLogFiles_def prefixAndExt_eq [OF assms(1,2)])
qed

lemma compress_file:
  assumes "compressLogFile gzip fails src dst fs = (err, fs')" and "src \<noteq> dst"
  shows "f \<noteq> src \<Longrightarrow> f \<noteq> dst \<Longrightarrow> fs' f = fs f"
    and "fs src = Some s \<Longrightarrow> fs' src = Some s \<or> fs' src = None \<and> fs' dst = Some (gzip s)"
    and "fs src = None \<Longrightarrow> fs' = fs"
  using assms by (auto simp: compressLogFile_def split: if_splits option.splits)

lemma join_plain: "\<exists>x. \<forall>n. plain_name n \<longrightarrow> path_join [dir, n] = x @ n"
proof (cases "dir = ''''")
  case True
  then show ?thesis
    by (intro exI [of _ "''''"]) (auto simp: path_join_def path_clean_plain plain_name_def)
next
  case False
  let ?r = "HasPrefix dir ''/''"
  let ?c = "clean_parts ?r [] (Split dir ''/'')"
  let ?x = "(if ?r then ''/'' else '''') @ (if ?c = [] then '''' else Join ?c ''/'' @ ''/'')"
  have "path_join [dir, n] = ?x @ n" if n: "plain_name n" for n
  proof -
    have "Split (dir @ ''/'' @ n) ''/'' = Split dir ''/'' @ [n]" using n Split_snoc_byte by (simp add: plain_name_def)
    moreover have "HasPrefix (dir @ ''/'' @ n) ''/'' = ?r" using False by (cases dir) (auto simp: HasPrefix_def)
    ultimately show ?thesis
      using False n clean_parts_snoc [OF n] by (simp add: path_join_def path_clean_def Let_def Join_snoc plain_name_def)
  qed
  then show ?thesis by blast
qed

text \<open>
  The compression loop over files of a directory whose paths are \<open>x @ name\<close>: a file that
  is no other file's target keeps its contents, in place or compressed.
\<close>

definition compressible :: "string \<Rightarrow> string \<Rightarrow> string \<Rightarrow> (int \<times> string) list \<Rightarrow> bool" where
  "compressible dir x n xs \<longleftrightarrow>
     (\<forall>(t, m) \<in> set xs. path_join [dir, m] = x @ m \<and> \<not> HasSuffix m compressSuffix \<and> n \<noteq> m @ compressSuffix)"

lemma compressible_Cons:
  "compressible dir x n ((t, m) # xs) \<longleftrightarrow>
     path_join [dir, m] = x @ m \<and> m \<noteq> n @ compressSuffix \<and> \<not> HasSuffix m compressSuffix \<and> n \<noteq> m @ compressSuffix
     \<and> compressible dir x n xs"
  by (auto simp: compressible_def HasSuffix_def)

lemma compress_loop_stays:
  assumes "compress_loop gzip fails dir xs err fs = (err', fs')" and "compressible dir x n xs"
    and "fs (x @ n) = None" and "fs (x @ n @ compressSuffix) = Some g"
  shows "fs' (x @ n) = None \<and> fs' (x @ n @ compressSuffix) = Some g"
  using assms
proof (induction xs arbitrary: err fs)
  case (Cons y xs)
  obtain t m where y: "y = (t, m)" by fastforce
  obtain e fs1 where c: "compressLogFile gzip (fails (x @ m)) (x @ m) (x @ m @ compressSuffix) fs = (e, fs1)" by fastforce
  have ab: "x @ m \<noteq> x @ m @ compressSuffix" by (simp add: compressSuffix_def)
  have "fs1 (x @ n) = None \<and> fs1 (x @ n @ compressSuffix) = Some g"
    using compress_file(1,3) [OF c ab] Cons.prems(2-4) y by (cases "m = n") (auto simp: compressible_Cons)
  then show ?case using Cons.IH [of _ fs1] Cons.prems(1,2) c y by (auto simp: Let_def compressible_Cons)
qed simp

lemma compress_loop_keeps:
  assumes "compress_loop gzip fails dir xs err fs = (err', fs')" and "compressible dir x n xs"
    and "fs (x @ n) = Some s"
  shows "fs' (x @ n) = Some s \<or> fs' (x @ n) = None \<and> fs' (x @ n @ compressSuffix) = Some (gzip s)"
  using assms
proof (induction xs arbitrary: err fs)
  case (Cons y xs)
  obtain t m where y: "y = (t, m)" by fastforce
  obtain e fs1 where c: "compressLogFile gzip (fails (x @ m)) (x @ m) (x @ m @ compressSuffix) fs = (e, fs1)" by fastforce
  have ab: "x @ m \<noteq> x @ m @ compressSuffix" by (simp add: compressSuffix_def)
  obtain err1 where r: "compress_loop gzip fails dir xs err1 fs1 = (err', fs')" and cx: "compressible dir x n xs"
    using Cons.prems(1,2) c y by (auto simp: Let_def compressible_Cons)
  have "fs1 (x @ n) = Some s \<or> fs1 (x @ n) = None \<and> fs1 (x @ n @ compressSuffix) = Some (gzip s)"
    using compress_file(1,2) [OF c ab] Cons.prems(2,3) y by (cases "m = n") (auto simp: compressible_Cons)
  then show ?case using Cons.IH [OF r cx] compress_loop_stays [OF r cx] by blast
qed simp

lemma remove_loop_other:
  "remove_loop rm dir xs err fs = (err', fs') \<Longrightarrow> \<forall>(t, m) \<in> set xs. q \<noteq> path_join [dir, m] \<Longrightarrow> fs' q = fs q"
  by (induction rm dir xs err fs rule: remove_loop.induct) (auto simp: Let_def split: if_splits)

text \<open>
  C28: The clean-up loses no log before its time. Whatever system calls fail, a file of the
  log directory that the clean-up does not take for a log older than the reserve, and that
  is not the compressed form of another file there, has its contents afterwards: in place,
  or compressed beside it.
\<close>

theorem mill_keeps_contents:
  assumes "CHR ''/'' \<notin> set (tw_Prefix l)" and "four_digit (Date (ls_off sys) now)"
    and "\<forall>e \<in> set es. plain_name (fst e)"
    and "millRunOnce sys gzip rm fails now (es, None) l fs = Returns (err, fs')"
    and "plain_name n" and "fs (path_join [tw_Dir l, n]) = Some s" and "\<forall>e \<in> set es. n \<noteq> fst e @ compressSuffix"
    and "\<And>t. entry_time (ls_off sys) (log_prefix l) log_ext n = Some t \<Longrightarrow> now - 86400 * tw_ReserveDay l \<le> t"
  shows "fs' (path_join [tw_Dir l, n]) = Some s
    \<or> fs' (path_join [tw_Dir l, n]) = None \<and> fs' (path_join [tw_Dir l, n] @ compressSuffix) = Some (gzip s)"
proof (cases "tw_ReserveDay l = 0 \<and> \<not> tw_Compress l")
  case True
  then show ?thesis using assms(4,6) by (simp add: millRunOnce_def)
next
  case False
  obtain x where x: "\<And>n. plain_name n \<Longrightarrow> path_join [tw_Dir l, n] = x @ n" using join_plain by blast
  obtain fl where fl: "old_loop (ls_off sys) (path_base (tw_curFilename l)) (log_prefix l) log_ext es = Returns fl"
    using assms(4) False prefixAndExt_eq [OF assms(1,2)]
    by (auto simp: millRunOnce_def oldLogFiles_def split: outcome.splits)
  let ?files = "sort_key (\<lambda>f. - fst f) fl"
  obtain remove compress where p: "mill_plan now l ?files = (remove, compress)" by fastforce
  obtain e1 fs1 where r: "remove_loop rm (tw_Dir l) remove None fs = (e1, fs1)" by fastforce
  have c: "compress_loop gzip fails (tw_Dir l) compress e1 fs1 = (err, fs')"
    using assms(4) False fl p r prefixAndExt_eq [OF assms(1,2)] by (simp add: millRunOnce_def oldLogFiles_def Let_def)
  have mem: "(t, m) \<in> set fl \<Longrightarrow> (m, False) \<in> set es \<and> entry_time (ls_off sys) (log_prefix l) log_ext m = Some t" for t m
    using old_loop_set [OF fl] by auto
  have "path_join [tw_Dir l, n] \<noteq> path_join [tw_Dir l, m]" if "(t, m) \<in> set remove" for t m
  proof -
    have "(t, m) \<in> set fl" "t < now - 86400 * tw_ReserveDay l"
      using that p by (auto simp: mill_plan_def Let_def split: if_splits)
    with mem assms(3,8) have "plain_name m" "m \<noteq> n" by force+
    then show ?thesis using x assms(5) by simp
  qed
  with remove_loop_other [OF r] have f1: "fs1 (x @ n) = Some s" using assms(6) x [OF assms(5)] by fastforce
  have "compressible (tw_Dir l) x n compress"
    unfolding compressible_def
  proof (rule ballI, clarify)
    fix t m assume tm: "(t, m) \<in> set compress"
    then have "(t, m) \<in> set fl" "\<not> HasSuffix m compressSuffix"
      using p by (auto simp: mill_plan_def Let_def split: if_splits)
    with mem assms(3,7) x show "path_join [tw_Dir l, m] = x @ m \<and> \<not> HasSuffix m compressSuffix \<and> n \<noteq> m @ compressSuffix"
      by fastforce
  qed
  from compress_loop_keeps [OF c this f1] show ?thesis by (simp add: x [OF assms(5)])
qed

subsection \<open>One file a day\<close>

text \<open>A run of writes with their times; the results of the writes are ignored, as by \<open>log\<close>.\<close>

fun write_lines :: "log_sys \<Rightarrow> (int \<times> string) list \<Rightarrow> TimeWriter \<Rightarrow> files \<Rightarrow> TimeWriter \<times> files" where
  "write_lines sys [] l fs = (l, fs)"
| "write_lines sys ((now, p) # ws) l fs =
     (case TimeWriter_Write sys now p l fs of (r, l, fs) \<Rightarrow> write_lines sys ws l fs)"

definition healthy :: "log_sys \<Rightarrow> bool" where
  "healthy sys \<longleftrightarrow> (\<forall>f. ls_Stat sys f = None \<and> ls_MkdirAll sys f = None \<and> ls_Append sys f = None \<and> ls_Create sys f = None)
     \<and> (\<forall>n. ls_Write sys n = (n, None))"

definition day_file :: "log_sys \<Rightarrow> TimeWriter \<Rightarrow> date \<Rightarrow> string" where
  "day_file sys l x = path_join [if tw_Dir l \<noteq> '''' then tw_Dir l else ls_TempDir sys, log_name l x]"

text \<open>The lines of a day.\<close>

definition day_text :: "int \<Rightarrow> date \<Rightarrow> (int \<times> string) list \<Rightarrow> string" where
  "day_text off x ws = concat (map snd (filter (\<lambda>w. Date off (fst w) = x) ws))"

text \<open>The writer has the file of the day open, at its end, with these contents.\<close>

definition opened :: "log_sys \<Rightarrow> TimeWriter \<Rightarrow> files \<Rightarrow> date \<Rightarrow> string \<Rightarrow> bool" where
  "opened sys l fs x c \<longleftrightarrow> tw_curFilename l = day_file sys l x \<and> fs (day_file sys l x) = Some c
     \<and> (tw_file l = Some (AppendTo (day_file sys l x)) \<or> tw_file l = Some (WriteAt (day_file sys l x) (length c)))"

lemma put_at_end: "put_at (length c) p c = c @ p"
  by (simp add: put_at_def)

lemma filename_day: "filename sys now l = day_file sys l (Date (ls_off sys) now)"
  by (simp add: filename_def day_file_def)

lemma date_string_inject:
  assumes "valid_date x" "four_digit x" "valid_date y" "four_digit y" "date_string x = date_string y"
  shows "x = y"
proof -
  obtain a b c where x: "x = (a, b, c)" by (cases x)
  obtain a' b' c' where y: "y = (a', b', c')" by (cases y)
  note dx = date_parts [OF assms(1,2) [unfolded x]] and dy = date_parts [OF assms(3,4) [unfolded y]]
  have "pad_dec 4 a = pad_dec 4 a'" "pad_dec 2 b = pad_dec 2 b'" "pad_dec 2 c = pad_dec 2 c'"
    using assms(5) dx(1-3) dy(1-3) by (auto simp: x y date_string_def)
  then show ?thesis
    using ParseInt_pad_dec [OF dx(4,7)] ParseInt_pad_dec [OF dx(5,8)] ParseInt_pad_dec [OF dx(6,9)]
      ParseInt_pad_dec [OF dy(4,7)] ParseInt_pad_dec [OF dy(5,8)] ParseInt_pad_dec [OF dy(6,9)]
    by (metis x y fst_conv)
qed

lemma day_file_inject:
  assumes "CHR ''/'' \<notin> set (tw_Prefix l)" "valid_date x" "four_digit x" "valid_date y" "four_digit y"
  shows "day_file sys l x = day_file sys l y \<longleftrightarrow> x = y"
proof
  assume "day_file sys l x = day_file sys l y"
  then have "log_name l x = log_name l y"
    using base_join [OF plain_log_name(1) [OF assms(1,2)]] base_join [OF plain_log_name(1) [OF assms(1,4)]]
    unfolding day_file_def by metis
  then show "x = y" using date_string_inject [OF assms(2-5)] by (simp add: log_name_def)
qed simp

lemma write_first:
  assumes "healthy sys" and "tw_file l = None" and "TimeWriter_Write sys now p l fs = (r, l', fs')"
  shows "opened sys l' fs' (Date (ls_off sys) now)
      ((case fs (filename sys now l) of None \<Rightarrow> '''' | Some c \<Rightarrow> c) @ p)
    \<and> (\<forall>f. f \<noteq> filename sys now l \<longrightarrow> fs' f = fs f) \<and> tw_Dir l' = tw_Dir l \<and> tw_Prefix l' = tw_Prefix l"
  using assms
  by (auto simp: TimeWriter_Write_def openExistingOrNew_def openNew_def healthy_def Let_def filename_def day_file_def
      log_name_def file_write_def opened_def put_at_def split: option.splits)

lemma write_same_day:
  assumes "healthy sys" and "opened sys l fs (Date (ls_off sys) now) c" and "TimeWriter_Write sys now p l fs = (r, l', fs')"
  shows "opened sys l' fs' (Date (ls_off sys) now) (c @ p)
    \<and> (\<forall>f. f \<noteq> filename sys now l \<longrightarrow> fs' f = fs f) \<and> tw_Dir l' = tw_Dir l \<and> tw_Prefix l' = tw_Prefix l"
  using assms
  by (auto simp: TimeWriter_Write_def healthy_def Let_def filename_day day_file_def log_name_def file_write_def opened_def put_at_end)

lemma write_next_day:
  assumes "healthy sys" and "tw_file l \<noteq> None" and "tw_curFilename l \<noteq> filename sys now l"
    and "TimeWriter_Write sys now p l fs = (r, l', fs')"
  shows "opened sys l' fs' (Date (ls_off sys) now) p
    \<and> (\<forall>f. f \<noteq> filename sys now l \<longrightarrow> fs' f = fs f) \<and> tw_Dir l' = tw_Dir l \<and> tw_Prefix l' = tw_Prefix l"
  using assms
  by (auto simp: TimeWriter_Write_def rotate_def openNew_def healthy_def Let_def filename_def day_file_def tw_close_def mill_def
      log_name_def file_write_def opened_def put_at_def)

lemma day_file_cong: "tw_Dir l' = tw_Dir l \<Longrightarrow> tw_Prefix l' = tw_Prefix l \<Longrightarrow> day_file sys l' x = day_file sys l x"
  by (simp add: day_file_def log_name_def)

lemma Date_mono_eq:
  assumes "0 \<le> a + off" "a \<le> b" "b \<le> c" "Date off a = Date off c"
  shows "Date off a = Date off b"
proof -
  have "(a + off) div 86400 \<le> (b + off) div 86400" "(b + off) div 86400 \<le> (c + off) div 86400"
    using assms(2,3) by (simp_all add: zdiv_mono1)
  with assms show ?thesis by (simp add: Date_eq_iff)
qed

definition log_times_ok :: "int \<Rightarrow> (int \<times> string) list \<Rightarrow> bool" where
  "log_times_ok off ws \<longleftrightarrow>
     sorted (map fst ws) \<and> (\<forall>w \<in> set ws. 0 \<le> fst w + off \<and> four_digit (Date off (fst w)))"

lemma write_lines_opened:
  assumes "healthy sys" and "CHR ''/'' \<notin> set (tw_Prefix l)"
    and "opened sys l fs (Date (ls_off sys) t0) c" and "log_times_ok (ls_off sys) ((t0, u) # ws)"
    and "write_lines sys ws l fs = (l', fs')" and "valid_date y" and "four_digit y"
  shows "fs' (day_file sys l y) =
    (if y = Date (ls_off sys) t0 then Some (c @ day_text (ls_off sys) y ws)
     else if y \<in> (\<lambda>w. Date (ls_off sys) (fst w)) ` set ws then Some (day_text (ls_off sys) y ws)
     else fs (day_file sys l y))"
  using assms(2-5)
proof (induction ws arbitrary: l fs t0 u c)
  case Nil
  then show ?case by (auto simp: opened_def day_text_def)
next
  case (Cons w ws)
  let ?off = "ls_off sys"
  obtain now p where w: "w = (now, p)" by fastforce
  obtain r l1 fs1 where wr: "TimeWriter_Write sys now p l fs = (r, l1, fs1)" by (metis prod_cases3)
  then have rest: "write_lines sys ws l1 fs1 = (l', fs')" using Cons.prems(4) w by simp
  have t: "t0 \<le> now" "0 \<le> t0 + ?off" "log_times_ok ?off ((now, p) # ws)" "four_digit (Date ?off t0)" "four_digit (Date ?off now)"
    using Cons.prems(3) w by (auto simp: log_times_ok_def)
  show ?case
  proof (cases "Date ?off now = Date ?off t0")
    case True
    have o: "opened sys l1 fs1 (Date ?off now) (c @ p)" "\<forall>f. f \<noteq> filename sys now l \<longrightarrow> fs1 f = fs f"
        "tw_Dir l1 = tw_Dir l" "tw_Prefix l1 = tw_Prefix l"
      using write_same_day [OF assms(1) _ wr] Cons.prems(2) True by auto
    have "fs1 (day_file sys l y) = fs (day_file sys l y)" if "y \<noteq> Date ?off t0"
      using o(2) that day_file_inject [OF Cons.prems(1) assms(6,7) valid_Date t(5)] True
      by (simp add: filename_day)
    moreover have "fs' (day_file sys l y) =
      (if y = Date ?off now then Some ((c @ p) @ day_text ?off y ws)
       else if y \<in> (\<lambda>w. Date ?off (fst w)) ` set ws then Some (day_text ?off y ws)
       else fs1 (day_file sys l y))"
      using Cons.IH [OF _ o(1) t(3) rest] Cons.prems(1) o(4) day_file_cong [OF o(3,4), of sys y] by simp
    moreover have "day_text ?off y (w # ws) = (if y = Date ?off now then p @ day_text ?off y ws else day_text ?off y ws)"
      by (simp add: day_text_def w eq_commute)
    ultimately show ?thesis using True w by (cases "y = Date ?off t0") simp_all
  next
    case False
    have f: "tw_file l \<noteq> None" "tw_curFilename l \<noteq> filename sys now l"
      using Cons.prems(2) False day_file_inject [OF Cons.prems(1) valid_Date t(4) valid_Date t(5)]
      by (auto simp: opened_def filename_day)
    have o: "opened sys l1 fs1 (Date ?off now) p" "\<forall>f. f \<noteq> filename sys now l \<longrightarrow> fs1 f = fs f"
        "tw_Dir l1 = tw_Dir l" "tw_Prefix l1 = tw_Prefix l"
      using write_next_day [OF assms(1) f wr] by auto
    have later: "Date ?off (fst v) \<noteq> Date ?off t0" if "v \<in> set (w # ws)" for v
    proof
      assume e: "Date ?off (fst v) = Date ?off t0"
      have "now \<le> fst v" using that t(3) w by (auto simp: log_times_ok_def)
      from Date_mono_eq [OF t(2,1) this e [symmetric]] False show False by simp
    qed
    have keep: "fs1 (day_file sys l y) = fs (day_file sys l y)" if "y \<noteq> Date ?off now"
      using o(2) that day_file_inject [OF Cons.prems(1) assms(6,7) valid_Date t(5)] by (simp add: filename_day)
    have none: "day_text ?off (Date ?off t0) (w # ws) = ''''"
      using later by (auto simp: day_text_def filter_empty_conv)
    have IH: "fs' (day_file sys l y) =
      (if y = Date ?off now then Some (p @ day_text ?off y ws)
       else if y \<in> (\<lambda>w. Date ?off (fst w)) ` set ws then Some (day_text ?off y ws)
       else fs1 (day_file sys l y))"
      using Cons.IH [OF _ o(1) t(3) rest] Cons.prems(1) o(4) day_file_cong [OF o(3,4), of sys y] by simp
    have "Date ?off t0 \<notin> (\<lambda>v. Date ?off (fst v)) ` set (w # ws)"
      using later by (metis (no_types, lifting) imageE)
    then have x: "y = Date ?off t0 \<Longrightarrow> y \<noteq> Date ?off now \<and> y \<notin> (\<lambda>w. Date ?off (fst w)) ` set ws"
      by (simp add: w)
    have "fs (day_file sys l (Date ?off t0)) = Some c" using Cons.prems(2) by (simp add: opened_def)
    moreover have "day_text ?off y (w # ws) = (if y = Date ?off now then p @ day_text ?off y ws else day_text ?off y ws)"
      by (simp add: day_text_def w eq_commute)
    moreover have "y \<in> (\<lambda>w. Date ?off (fst w)) ` set (w # ws) \<longleftrightarrow>
        y = Date ?off now \<or> y \<in> (\<lambda>w. Date ?off (fst w)) ` set ws" by (simp add: w)
    ultimately show ?thesis unfolding IH using keep none x by (cases "y = Date ?off t0") simp_all
  qed
qed

text \<open>
  C15: Every line is in the file of its day. When nothing fails and the clock does not run
  backwards, a writer that starts with no open file appends to the file of the first day what
  is written that day, and the file of every later day on which something is written holds
  exactly the lines of that day, in order; the files of the other days are not touched.
\<close>

theorem one_file_a_day:
  assumes "healthy sys" and "CHR ''/'' \<notin> set (tw_Prefix l)" and "tw_file l = None"
    and "log_times_ok (ls_off sys) ((t0, p) # ws)" and "write_lines sys ((t0, p) # ws) l fs = (l', fs')"
    and "valid_date y" and "four_digit y"
  shows "fs' (day_file sys l y) =
    (if y = Date (ls_off sys) t0
     then Some ((case fs (day_file sys l y) of None \<Rightarrow> '''' | Some c \<Rightarrow> c) @ day_text (ls_off sys) y ((t0, p) # ws))
     else if y \<in> (\<lambda>w. Date (ls_off sys) (fst w)) ` set ws then Some (day_text (ls_off sys) y ws)
     else fs (day_file sys l y))"
proof -
  let ?off = "ls_off sys"
  obtain r l1 fs1 where wr: "TimeWriter_Write sys t0 p l fs = (r, l1, fs1)" by (metis prod_cases3)
  then have rest: "write_lines sys ws l1 fs1 = (l', fs')" using assms(5) by simp
  note o = write_first [OF assms(1,3) wr]
  have fd: "four_digit (Date ?off t0)" using assms(4) by (simp add: log_times_ok_def)
  have keep: "fs1 (day_file sys l y) = fs (day_file sys l y)" if "y \<noteq> Date ?off t0"
    using o that day_file_inject [OF assms(2,6,7) valid_Date fd] by (simp add: filename_day)
  let ?c = "(case fs (filename sys t0 l) of None \<Rightarrow> '''' | Some c \<Rightarrow> c) @ p"
  have "fs' (day_file sys l y) =
    (if y = Date ?off t0 then Some (?c @ day_text ?off y ws)
     else if y \<in> (\<lambda>w. Date ?off (fst w)) ` set ws then Some (day_text ?off y ws)
     else fs1 (day_file sys l y))"
    using write_lines_opened [OF assms(1) _ conjunct1 [OF o] assms(4) rest assms(6,7)] o assms(2) day_file_cong [of l1 l sys y]
    by simp
  moreover have "day_text ?off (Date ?off t0) ((t0, p) # ws) = p @ day_text ?off (Date ?off t0) ws"
    by (simp add: day_text_def)
  ultimately show ?thesis using keep by (cases "y = Date ?off t0") (simp_all add: filename_day)
qed

text \<open>
  During a graceful restart two processes write the same log file. Each of them creates
  the file of the new day at its own first line after midnight, so the second one to do so
  throws away what the first has already written.
\<close>

theorem restart_truncates_log:
  assumes "healthy sys" and "tw_Dir l2 = tw_Dir l1" and "tw_Prefix l2 = tw_Prefix l1"
    and "tw_file l1 \<noteq> None" "tw_curFilename l1 \<noteq> filename sys t l1"
    and "tw_file l2 \<noteq> None" "tw_curFilename l2 \<noteq> filename sys t' l2"
    and "Date (ls_off sys) t' = Date (ls_off sys) t"
    and "TimeWriter_Write sys t a l1 fs = (r, l1', fs1)" and "TimeWriter_Write sys t' b l2 fs1 = (r', l2', fs2)"
  shows "fs1 (filename sys t l1) = Some a \<and> fs2 (filename sys t l1) = Some b"
proof -
  have "filename sys t' l2 = filename sys t l1"
    using day_file_cong [OF assms(2,3)] by (simp add: filename_day assms(8))
  moreover have "fs1 (filename sys t l1) = Some a"
    using write_next_day [OF assms(1,4,5,9)] day_file_cong [of l1' l1 sys] by (simp add: opened_def filename_day)
  moreover have "fs2 (filename sys t' l2) = Some b"
    using write_next_day [OF assms(1,6,7,10)] day_file_cong [of l2' l2 sys] by (simp add: opened_def filename_day)
  ultimately show ?thesis by simp
qed

subsection \<open>Examples\<close>

text \<open>A system on which nothing fails, in UTC, and the writer of the process on port 3000.\<close>

definition demo_sys :: log_sys where
  "demo_sys = \<lparr>ls_off = 0, ls_TempDir = ''/tmp'', ls_Stat = (\<lambda>f. None), ls_MkdirAll = (\<lambda>f. None), ls_Append = (\<lambda>f. None),
     ls_Create = (\<lambda>f. None), ls_Write = (\<lambda>n. (n, None))\<rparr>"

definition demo_writer :: TimeWriter where
  "demo_writer = lg_file (SetDefaultLogger init_settings ''/opt/anyproxy/logs/'' ''anyproxy.3000'' True 3 False)"

lemma demo_writer_eq:
  "demo_writer = \<lparr>tw_Dir = ''/opt/anyproxy/logs/'', tw_Prefix = ''anyproxy.3000'', tw_Compress = True, tw_ReserveDay = 3,
     tw_curFilename = '''', tw_file = None, tw_mill = False\<rparr>"
  by (simp add: demo_writer_def SetDefaultLogger_def)

lemma demo_healthy: "healthy demo_sys"
  by (simp add: healthy_def demo_sys_def)

lemma nth_date_4: "nth_date 4 = (1970, 1, 5)"
  by (simp add: numeral_eq_Suc next_date_def month_len_def)

lemma demo_dates:
  "Date 0 10 = (1970, 1, 1)" "Date 0 86405 = (1970, 1, 2)" "Date 0 345600 = (1970, 1, 5)"
  "valid_date (1970, 1, 1)" "valid_date (1970, 1, 2)" "four_digit (1970, 1, 1)" "four_digit (1970, 1, 2)" "four_digit (1970, 1, 5)"
  by (simp_all add: Date_def nth_date_4 next_date_def month_len_def valid_date_def four_digit_def)

lemma demo_prefix: "CHR ''/'' \<notin> set (tw_Prefix demo_writer)"
  by (simp add: demo_writer_eq)

theorem one_file_a_day_witness:
  "\<exists>l' fs'. write_lines demo_sys [(10, ''a''), (86405, ''b'')] demo_writer (\<lambda>f. None) = (l', fs')
     \<and> fs' (day_file demo_sys demo_writer (1970, 1, 1)) = Some ''a'' \<and> fs' (day_file demo_sys demo_writer (1970, 1, 2)) = Some ''b''"
proof -
  obtain l' fs' where w: "write_lines demo_sys [(10, ''a''), (86405, ''b'')] demo_writer (\<lambda>f. None) = (l', fs')" by fastforce
  have ok: "log_times_ok (ls_off demo_sys) [(10, ''a''), (86405, ''b'')]"
    by (simp add: log_times_ok_def demo_sys_def demo_dates)
  have "tw_file demo_writer = None" by (simp add: demo_writer_eq)
  note f = one_file_a_day [OF demo_healthy demo_prefix this ok w]
  have "fs' (day_file demo_sys demo_writer (1970, 1, 1)) = Some ''a''"
    using f [OF demo_dates(4,6)] by (simp add: demo_sys_def demo_dates day_text_def)
  moreover have "fs' (day_file demo_sys demo_writer (1970, 1, 2)) = Some ''b''"
    using f [OF demo_dates(5,7)] by (simp add: demo_sys_def demo_dates day_text_def)
  ultimately show ?thesis using w by blast
qed

theorem log_name_round_trip_witness:
  "\<exists>prefix ext. prefixAndExt demo_sys 345600 demo_writer = Returns (prefix, ext)
     \<and> timeFromName 0 (path_base (filename demo_sys 86405 demo_writer)) prefix ext = Returns (86400, None)"
  using log_name_round_trip [OF demo_prefix, of demo_sys 345600 86405 0]
  by (auto simp: demo_sys_def demo_dates midnight_def day_number_def year_days_def)

theorem restart_truncates_log_witness:
  "\<exists>fs. fs (filename demo_sys 86405 demo_writer) = Some ''b''
     \<and> (\<exists>l1 l2 r r' l1' l2' fs1. TimeWriter_Write demo_sys 86405 ''a'' l1 (\<lambda>f. None) = (r, l1', fs1)
         \<and> TimeWriter_Write demo_sys 86405 ''b'' l2 fs1 = (r', l2', fs))"
proof -
  let ?l = "demo_writer\<lparr>tw_file := Some (AppendTo ''x'')\<rparr>"
  have d: "filename demo_sys 86405 ?l = filename demo_sys 86405 demo_writer" by (simp add: filename_def log_name_def)
  have "path_base (filename demo_sys 86405 demo_writer) \<noteq> ''.''"
    using base_filename [OF demo_prefix, of demo_sys 86405] by (simp add: log_name_def)
  then have "'''' \<noteq> filename demo_sys 86405 demo_writer" by (auto simp: path_base_def)
  then have n: "tw_curFilename ?l \<noteq> filename demo_sys 86405 ?l" unfolding d by (simp add: demo_writer_eq)
  obtain r l1' fs1 where w1: "TimeWriter_Write demo_sys 86405 ''a'' ?l (\<lambda>f. None) = (r, l1', fs1)" by (metis prod_cases3)
  obtain r' l2' fs2 where w2: "TimeWriter_Write demo_sys 86405 ''b'' ?l fs1 = (r', l2', fs2)" by (metis prod_cases3)
  from restart_truncates_log [OF demo_healthy refl refl _ n _ n refl w1 w2] have "fs2 (filename demo_sys 86405 demo_writer) = Some ''b''"
    by (simp add: d)
  then show ?thesis using w1 w2 by blast
qed

theorem stray_log_name_panics_witness:
  "millRunOnce demo_sys (\<lambda>s. s) (\<lambda>f. None) (\<lambda>f c. None) 345600 ([(''anyproxy.3000.log'', False)], None) demo_writer (\<lambda>f. None)
     = Panics"
  by (rule stray_log_name_panics [OF demo_prefix])
    (simp_all add: demo_sys_def demo_dates demo_writer_eq log_ext_def path_base_def)

text \<open>An old file, one of yesterday, and one that is no log of the writer.\<close>

definition demo_entries :: "(string \<times> bool) list" where
  "demo_entries = [(log_name demo_writer (1970, 1, 1), False), (''anyproxy.err.log'', False), (''old'', True)]"

lemma demo_entries_loop:
  "old_loop 0 (path_base (tw_curFilename demo_writer)) (log_prefix demo_writer) log_ext demo_entries
     = Returns [(0, log_name demo_writer (1970, 1, 1))]"
proof -
  have t: "timeFromName 0 (log_name demo_writer (1970, 1, 1)) (log_prefix demo_writer) log_ext = Returns (0, None)"
    using timeFromName_log(1) [OF demo_dates(4,6)] by (simp add: midnight_def day_number_def year_days_def)
  have "log_name demo_writer (1970, 1, 1) \<noteq> ''.''" by (simp add: log_name_def)
  moreover have "timeFromName 0 ''anyproxy.err.log'' (log_prefix demo_writer) e = Returns (0, Some (ErrMsg ''mismatched prefix''))" for e
    by (simp add: timeFromName_def HasPrefix_def log_prefix_def demo_writer_eq)
  moreover have "path_base (tw_curFilename demo_writer) = ''.''" by (simp add: demo_writer_eq path_base_def)
  ultimately show ?thesis using t by (simp add: demo_entries_def)
qed

theorem mill_takes_old_logs_witness:
  "\<exists>files. oldLogFiles demo_sys 345600 demo_writer (demo_entries, None) = Returns (files, None)
     \<and> log_name demo_writer (1970, 1, 1) \<in> snd ` set (fst (mill_plan 345600 demo_writer files))"
proof -
  have f: "four_digit (Date (ls_off demo_sys) 345600)" by (simp add: demo_sys_def demo_dates)
  have r: "tw_ReserveDay demo_writer > 0" "tw_Compress demo_writer" by (simp_all add: demo_writer_eq)
  have o: "oldLogFiles demo_sys 345600 demo_writer (demo_entries, None) = Returns ([(0, log_name demo_writer (1970, 1, 1))], None)"
    using demo_entries_loop prefixAndExt_eq [OF demo_prefix f] by (simp add: oldLogFiles_def demo_sys_def)
  have "log_name demo_writer (1970, 1, 1) \<noteq> path_base (tw_curFilename demo_writer)"
    by (simp add: log_name_def demo_writer_eq path_base_def)
  moreover have "midnight (ls_off demo_sys) (1970, 1, 1) = 0" by (simp add: midnight_def day_number_def year_days_def demo_sys_def)
  moreover have "(log_name demo_writer (1970, 1, 1), False) \<in> set demo_entries" by (simp add: demo_entries_def)
  moreover note conjunct1 [OF mill_takes_old_logs [OF demo_prefix f r o prod.collapse [symmetric]],
      rule_format, of "(1970, 1, 1)" "log_name demo_writer (1970, 1, 1)"]
  moreover have "tw_ReserveDay demo_writer = 3" by (simp add: demo_writer_eq)
  ultimately have "log_name demo_writer (1970, 1, 1)
      \<in> snd ` set (fst (mill_plan 345600 demo_writer [(0, log_name demo_writer (1970, 1, 1))]))"
    using demo_dates(4,6) by simp
  then show ?thesis using o by blast
qed

theorem mill_keeps_contents_witness:
  "\<exists>err fs'. millRunOnce demo_sys (\<lambda>s. s) (\<lambda>f. None) (\<lambda>f c. None) 345600 (demo_entries, None) demo_writer (\<lambda>f. Some f) = Returns (err, fs')
     \<and> (fs' (path_join [tw_Dir demo_writer, ''anyproxy.err.log'']) = Some (path_join [tw_Dir demo_writer, ''anyproxy.err.log''])
        \<or> fs' (path_join [tw_Dir demo_writer, ''anyproxy.err.log'']) = None)"
proof -
  have f: "four_digit (Date (ls_off demo_sys) 345600)" by (simp add: demo_sys_def demo_dates)
  obtain err fs' where m: "millRunOnce demo_sys (\<lambda>s. s) (\<lambda>f. None) (\<lambda>f c. None) 345600 (demo_entries, None) demo_writer (\<lambda>f. Some f)
      = Returns (err, fs')"
    using demo_entries_loop prefixAndExt_eq [OF demo_prefix f]
    by (fastforce simp: millRunOnce_def oldLogFiles_def demo_sys_def Let_def split: prod.splits)
  have p: "\<forall>e \<in> set demo_entries. plain_name (fst e)"
    using plain_log_name(1) [OF demo_prefix demo_dates(4)] by (simp add: demo_entries_def plain_name_def)
  have n: "\<forall>e \<in> set demo_entries. ''anyproxy.err.log'' \<noteq> fst e @ compressSuffix"
    by (auto simp: demo_entries_def compressSuffix_def dest: arg_cong [where f = last])
  have e: "entry_time o' (log_prefix demo_writer) x ''anyproxy.err.log'' = None" for o' x
    by (simp add: entry_time_def timeFromName_def HasPrefix_def log_prefix_def demo_writer_eq)
  have pn: "plain_name ''anyproxy.err.log''" by (simp add: plain_name_def)
  show ?thesis using mill_keeps_contents [OF demo_prefix f p m pn refl n] m by (auto simp: e)
qed

end
