(* ===== verification/Grace_Server.thy ===== *)
theory Grace_Server
  imports Go_Prelude
begin

section \<open>The graceful server\<close>

text \<open>
  The packages \<open>grace/autoinc\<close> and \<open>grace\<close>: the numbering of connections
  (\<open>autoinc/autoinc.go\<close>), the state every connection keeps (\<open>conn.go\<close>), the accept loop, the
  set of active connections and the shutdown of a server (\<open>server.go\<close>). The server's
  goroutines (the accept loop, one per connection, and the one that handles signals) are
  the events of a step function; a step that is not possible in a state is \<open>None\<close>.
\<close>

subsection \<open>autoinc/autoinc.go\<close>

definition UintMax :: "64 word" where
  "UintMax = NOT 0"

record autoinc =
  ai_start :: "64 word"
  ai_step :: "64 word"
  ai_i :: "64 word"

text \<open>The constructor \<open>New\<close>; the field \<open>ai_i\<close> is the variable of the loop in \<open>process\<close>.\<close>

definition autoinc_New :: "64 word \<Rightarrow> 64 word \<Rightarrow> autoinc" where
  "autoinc_New start step = \<lparr>ai_start = start, ai_step = step, ai_i = start\<rparr>"

text \<open>
  One turn of the loop in \<open>process\<close> with the send; the channel only delays the values, so a
  receive gets the value of the oldest turn not yet received.
\<close>

definition autoinc_ID :: "autoinc \<Rightarrow> 64 word \<times> autoinc" where
  "autoinc_ID ai =
     (let i = (if ai_i ai > UintMax then ai_start ai else ai_i ai)
      in (i, ai\<lparr>ai_i := i + ai_step ai\<rparr>))"

fun autoinc_nth :: "nat \<Rightarrow> autoinc \<Rightarrow> 64 word" where
  "autoinc_nth 0 ai = fst (autoinc_ID ai)"
| "autoinc_nth (Suc n) ai = autoinc_nth n (snd (autoinc_ID ai))"

subsection \<open>conn.go: the state of a connection\<close>

definition StateNew :: int where "StateNew = 0"
definition StateActive :: int where "StateActive = 1"
definition StateIdle :: int where "StateIdle = 2"
definition StateHijacked :: int where "StateHijacked = 3"
definition StateClosed :: int where "StateClosed = 4"

lemmas conn_states = StateNew_def StateActive_def StateIdle_def StateHijacked_def StateClosed_def

definition stateName :: "int \<Rightarrow> string" where
  "stateName st =
     (if st = StateNew then ''new'' else if st = StateActive then ''active''
      else if st = StateIdle then ''idle'' else if st = StateHijacked then ''hijacked''
      else if st = StateClosed then ''closed'' else '''')"

text \<open>
  \<open>cn_pc\<close> says how far the connection's goroutine has come and \<open>cn_open\<close> whether the socket
  is open; \<open>cn_packed\<close> is the field \<open>curState\<close>.
\<close>

datatype conn_pc = Spawned | Handling | Done

record gconn =
  cn_remote :: string
  cn_traceID :: "64 word"
  cn_packed :: "64 word"
  cn_open :: bool
  cn_pc :: conn_pc

definition pack_state :: "64 word \<Rightarrow> int \<Rightarrow> 64 word" where
  "pack_state unix st = push_bit 8 unix OR word_of_int st"

definition unpack_state :: "64 word \<Rightarrow> int \<times> int" where
  "unpack_state packed = (uint (packed AND 0xff), sint (drop_bit 8 packed))"

definition getState :: "gconn \<Rightarrow> int \<times> int" where
  "getState c = unpack_state (cn_packed c)"

subsection \<open>The server\<close>

definition ErrReloadClose :: go_err where
  "ErrReloadClose = ErrMsg ''reload graceful''"

definition TermTimeout :: int where
  "TermTimeout = 10"

text \<open>The constants of \<open>grace.go\<close>; the first two name the positions of signal hooks.\<close>

definition PreSignal :: nat where "PreSignal = 0"
definition PostSignal :: nat where "PostSignal = 1"
definition StateInit :: nat where "StateInit = 2"
definition StateRunning :: nat where "StateRunning = 3"
definition StateShuttingDown :: nat where "StateShuttingDown = 4"
definition StateTerminate :: nat where "StateTerminate = 5"

lemmas server_states = StateInit_def StateRunning_def StateShuttingDown_def StateTerminate_def

text \<open>
  The goroutine of \<open>Serve\<close>: not started, in the accept loop, waiting on \<open>terminalChan\<close>, or
  returned. The goroutine of the signals: waiting for one, about to close the listener
  (with the timeout in seconds), at the head of the polling loop or in its \<open>select\<close> (with
  the deadline and the time of the next tick in milliseconds), or sending on \<open>terminalChan\<close>.
\<close>

datatype main_pc = NotServing | Accepting | Waiting | ServeReturned "go_err option"

datatype shut_pc =
    ShutIdle
  | Closing int
  | Polling int int
  | Selecting int int
  | Sending int

record gserver =
  sv_state :: nat
  sv_ln :: bool
  sv_conns :: "nat \<Rightarrow> gconn"
  sv_next :: nat
  sv_activeConn :: "nat list"
  sv_ids :: autoinc
  sv_tempDelay :: int
  sv_wake :: int
  sv_main :: main_pc
  sv_shut :: shut_pc

definition no_conn :: gconn where
  "no_conn = \<lparr>cn_remote = '''', cn_traceID = 0, cn_packed = 0, cn_open = False, cn_pc = Done\<rparr>"

text \<open>A server whose listener is open and whose \<open>Serve\<close> is about to be called.\<close>

definition listening :: gserver where
  "listening =
     \<lparr>sv_state = StateInit, sv_ln = True, sv_conns = (\<lambda>c. no_conn), sv_next = 0, sv_activeConn = [],
      sv_ids = autoinc_New 1 1, sv_tempDelay = 0, sv_wake = 0, sv_main = NotServing, sv_shut = ShutIdle\<rparr>"

definition set_conn :: "nat \<Rightarrow> gconn \<Rightarrow> gserver \<Rightarrow> gserver" where
  "set_conn c cn s = s\<lparr>sv_conns := (sv_conns s)(c := cn)\<rparr>"

definition trackConn :: "nat \<Rightarrow> bool \<Rightarrow> gserver \<Rightarrow> gserver" where
  "trackConn c add s =
     (if add then s\<lparr>sv_activeConn := List.insert c (sv_activeConn s)\<rparr>
      else s\<lparr>sv_activeConn := removeAll c (sv_activeConn s)\<rparr>)"

text \<open>Times are milliseconds since 1970; \<open>time.Now().Unix()\<close> is an \<open>int64\<close>.\<close>

definition Unix :: "int \<Rightarrow> 64 word" where
  "Unix now = word_of_int (now div 1000)"

definition setState :: "nat \<Rightarrow> int \<Rightarrow> int \<Rightarrow> gserver \<Rightarrow> gserver outcome" where
  "setState c st now s =
     (let s = (if st = StateNew then trackConn c True s
               else if st = StateHijacked \<or> st = StateClosed then trackConn c False s else s)
      in if st > 0xff \<or> st < 0 then Panics
         else Returns (set_conn c ((sv_conns s c)\<lparr>cn_packed := pack_state (Unix now) st\<rparr>) s))"

definition newConn :: "string \<Rightarrow> gserver \<Rightarrow> nat \<times> gserver" where
  "newConn remote s =
     (let c = sv_next s; cn = \<lparr>cn_remote = remote, cn_traceID = 0, cn_packed = 0, cn_open = True, cn_pc = Spawned\<rparr>
      in (c, (set_conn c cn s)\<lparr>sv_next := Suc c\<rparr>))"

text \<open>The result of \<open>AcceptTCP\<close>: a connection, or an error with its text and \<open>Temporary()\<close>.\<close>

datatype accept_res = AcceptConn string | AcceptErr string bool

definition closed_text :: string where
  "closed_text = ''use of closed network connection''"

definition accept_delay :: "int \<Rightarrow> int" where
  "accept_delay tempDelay =
     (let tempDelay = (if tempDelay = 0 then 5 else tempDelay * 2)
      in if tempDelay > 1000 then 1000 else tempDelay)"

text \<open>
  One turn of the loop in \<open>serve\<close>; the error is \<open>None\<close> when the loop goes on. After a
  temporary error the loop sleeps until \<open>sv_wake\<close>.
\<close>

definition serve_turn :: "accept_res \<Rightarrow> int \<Rightarrow> gserver \<Rightarrow> (go_err option \<times> gserver) outcome" where
  "serve_turn res now s =
     (case res of
        AcceptErr text temporary \<Rightarrow>
          if sv_state s = StateShuttingDown \<and> Contains text closed_text then Returns (Some ErrReloadClose, s)
          else if temporary then
            (let d = accept_delay (sv_tempDelay s) in Returns (None, s\<lparr>sv_tempDelay := d, sv_wake := now + d\<rparr>))
          else Returns (Some (ErrNet text), s)
      | AcceptConn remote \<Rightarrow>
          (case newConn remote (s\<lparr>sv_tempDelay := 0\<rparr>) of (c, s) \<Rightarrow>
             (case setState c StateNew now s of Panics \<Rightarrow> Panics | Returns s \<Rightarrow> Returns (None, s))))"

text \<open>What \<open>Serve\<close> does when the loop has ended; the deferred assignment is the last.\<close>

definition serve_end :: "go_err \<Rightarrow> gserver \<Rightarrow> gserver" where
  "serve_end err s =
     (if err \<noteq> ErrReloadClose then s\<lparr>sv_main := ServeReturned (Some err), sv_state := StateTerminate\<rparr>
      else s\<lparr>sv_main := Waiting\<rparr>)"

text \<open>The goroutine of a connection: up to the call of the handler, and after it.\<close>

definition conn_serve :: "nat \<Rightarrow> int \<Rightarrow> gserver \<Rightarrow> gserver outcome" where
  "conn_serve c now s =
     (case autoinc_ID (sv_ids s) of (i, ids) \<Rightarrow>
        setState c StateActive now
          (set_conn c ((sv_conns s c)\<lparr>cn_traceID := i, cn_pc := Handling\<rparr>) (s\<lparr>sv_ids := ids\<rparr>)))"

definition conn_done :: "nat \<Rightarrow> int \<Rightarrow> gserver \<Rightarrow> gserver outcome" where
  "conn_done c now s =
     setState c StateClosed now (set_conn c ((sv_conns s c)\<lparr>cn_open := False, cn_pc := Done\<rparr>) s)"


subsection \<open>Shutting down\<close>

text \<open>
  The loop of \<open>closeIdleConns\<close> over the active connections; their order is that of the list,
  and does not matter.
\<close>

fun closeIdle_loop :: "nat list \<Rightarrow> int \<Rightarrow> bool \<Rightarrow> gserver \<Rightarrow> bool \<times> gserver" where
  "closeIdle_loop [] now quiescent s = (quiescent, s)"
| "closeIdle_loop (c # cs) now quiescent s =
     (case getState (sv_conns s c) of (st, unixSec) \<Rightarrow>
        let st = (if st = StateNew \<and> unixSec < sint (Unix now) - 5 then StateIdle else st)
        in if st \<noteq> StateIdle \<or> unixSec = 0 then closeIdle_loop cs now False s
           else closeIdle_loop cs now quiescent
             (trackConn c False (set_conn c ((sv_conns s c)\<lparr>cn_open := False\<rparr>) s)))"

definition closeIdleConns :: "int \<Rightarrow> gserver \<Rightarrow> bool \<times> gserver" where
  "closeIdleConns now s = closeIdle_loop (sv_activeConn s) now True s"

definition GetConns :: "gserver \<Rightarrow> nat" where
  "GetConns s = length (sv_activeConn s)"

text \<open>
  \<open>shutdown\<close> in steps. The first gives up unless the server is running; the second closes
  the listener and starts the timers, unless the timeout is zero; then one turn of the
  polling loop, its \<open>select\<close>, and the hand-over that lets \<open>Serve\<close> return.
\<close>

definition shutdown_start :: "int \<Rightarrow> gserver \<Rightarrow> gserver" where
  "shutdown_start timeout s =
     (if sv_state s \<noteq> StateRunning then s
      else s\<lparr>sv_state := StateShuttingDown, sv_shut := Closing timeout\<rparr>)"

definition shutdown_close :: "int \<Rightarrow> int \<Rightarrow> gserver \<Rightarrow> gserver" where
  "shutdown_close timeout now s =
     s\<lparr>sv_ln := False,
       sv_shut := if timeout > 0 then Polling (now + timeout * 1000) (now + 500) else Sending now\<rparr>"

definition shutdown_poll :: "int \<Rightarrow> int \<Rightarrow> int \<Rightarrow> gserver \<Rightarrow> gserver" where
  "shutdown_poll after tick now s =
     (let s = snd (closeIdleConns now s)
      in s\<lparr>sv_shut := if sv_activeConn s = [] then Sending after else Selecting after tick\<rparr>)"

definition handover :: "gserver \<Rightarrow> gserver" where
  "handover s = s\<lparr>sv_main := ServeReturned None, sv_state := StateTerminate, sv_shut := ShutIdle\<rparr>"

subsection \<open>The steps\<close>

text \<open>
  What the listener can return: connections and errors while it is open, and only the error
  of a closed listener, which is not temporary, after it was closed.
\<close>

definition listener_gives :: "bool \<Rightarrow> accept_res \<Rightarrow> bool" where
  "listener_gives ln res =
     (case res of
        AcceptConn remote \<Rightarrow> ln
      | AcceptErr text temporary \<Rightarrow> Contains text closed_text = (\<not> ln) \<and> (ln \<or> \<not> temporary))"

datatype grace_event =
    StartServe
  | Accept accept_res
  | StartConn nat
  | EndConn nat
  | Signal bool
  | CloseListener
  | Poll
  | Tick
  | After
  | HandOver

text \<open>\<open>Signal True\<close> is SIGTERM, \<open>Signal False\<close> is SIGINT.\<close>

fun grace_step :: "int \<Rightarrow> grace_event \<Rightarrow> gserver \<Rightarrow> gserver outcome option" where
  "grace_step now StartServe s =
     (if sv_main s = NotServing then Some (Returns (s\<lparr>sv_main := Accepting, sv_state := StateRunning\<rparr>)) else None)"
| "grace_step now (Accept res) s =
     (if sv_main s = Accepting \<and> sv_wake s \<le> now \<and> listener_gives (sv_ln s) res then
        Some (case serve_turn res now s of
            Panics \<Rightarrow> Panics
          | Returns (None, s) \<Rightarrow> Returns s
          | Returns (Some err, s) \<Rightarrow> Returns (serve_end err s))
      else None)"
| "grace_step now (StartConn c) s =
     (if c < sv_next s \<and> cn_pc (sv_conns s c) = Spawned then Some (conn_serve c now s) else None)"
| "grace_step now (EndConn c) s =
     (if c < sv_next s \<and> cn_pc (sv_conns s c) = Handling then Some (conn_done c now s) else None)"
| "grace_step now (Signal term) s =
     (if sv_shut s = ShutIdle then Some (Returns (shutdown_start (if term then TermTimeout else 0) s)) else None)"
| "grace_step now CloseListener s =
     (case sv_shut s of Closing timeout \<Rightarrow> Some (Returns (shutdown_close timeout now s)) | _ \<Rightarrow> None)"
| "grace_step now Poll s =
     (case sv_shut s of Polling after tick \<Rightarrow> Some (Returns (shutdown_poll after tick now s)) | _ \<Rightarrow> None)"
| "grace_step now Tick s =
     (case sv_shut s of
        Selecting after tick \<Rightarrow>
          if tick \<le> now then Some (Returns (s\<lparr>sv_shut := Polling after (tick + 500)\<rparr>)) else None
      | _ \<Rightarrow> None)"
| "grace_step now After s =
     (case sv_shut s of
        Selecting after tick \<Rightarrow> if after \<le> now then Some (Returns (s\<lparr>sv_shut := Sending after\<rparr>)) else None
      | _ \<Rightarrow> None)"
| "grace_step now HandOver s =
     (case sv_shut s of
        Sending after \<Rightarrow> if sv_main s = Waiting then Some (Returns (handover s)) else None
      | _ \<Rightarrow> None)"

subsection \<open>Machines whose events carry a time\<close>

text \<open>\<open>None\<close> when an event of the run is not possible; a panic ends the run.\<close>

fun timed_run :: "('t \<Rightarrow> 'e \<Rightarrow> 's \<Rightarrow> 's outcome option) \<Rightarrow> ('t \<times> 'e) list \<Rightarrow> 's \<Rightarrow> 's outcome option" where
  "timed_run f [] s = Some (Returns s)"
| "timed_run f ((t, e) # es) s =
     (case f t e s of None \<Rightarrow> None | Some Panics \<Rightarrow> Some Panics | Some (Returns s) \<Rightarrow> timed_run f es s)"

locale timed_machine =
  fixes mstep :: "'t \<Rightarrow> 'e \<Rightarrow> 's \<Rightarrow> 's outcome option"
    and ok :: "'s \<Rightarrow> bool"
  assumes step_ok: "ok s \<Longrightarrow> mstep t e s = Some r \<Longrightarrow> \<exists>s'. r = Returns s' \<and> ok s'"
begin

lemma run_ok: "ok s \<Longrightarrow> timed_run mstep es s = Some r \<Longrightarrow> \<exists>s'. r = Returns s' \<and> ok s'"
proof (induction es arbitrary: s)
  case (Cons e es)
  then show ?case using step_ok by (cases e) (fastforce split: option.splits outcome.splits)
qed auto

text \<open>A relation between states that every step keeps holds between the ends of a run.\<close>

lemma run_rel:
  assumes rel: "\<And>s t e s'. ok s \<Longrightarrow> mstep t e s = Some (Returns s') \<Longrightarrow> (t, e) \<in> E \<Longrightarrow> P s \<Longrightarrow> P s'"
    and "ok s" "timed_run mstep es s = Some (Returns s')" "set es \<subseteq> E" "P s"
  shows "P s'"
  using assms(2-)
proof (induction es arbitrary: s)
  case (Cons x es)
  obtain t e where x: "x = (t, e)" by fastforce
  with Cons.prems(2) obtain u where u: "mstep t e s = Some (Returns u)" and r: "timed_run mstep es u = Some (Returns s')"
    by (auto split: option.splits outcome.splits)
  have "ok u" using step_ok [OF Cons.prems(1) u] by auto
  moreover have "P u" using rel [OF Cons.prems(1) u] Cons.prems(3,4) x by simp
  ultimately show ?case using Cons.IH r Cons.prems(3) by simp
qed simp

end

text \<open>A machine that implements an abstract one: each of its steps is a few abstract steps.\<close>

locale timed_refinement = timed_machine mstep ok
  for mstep :: "'t \<Rightarrow> 'e \<Rightarrow> 's \<Rightarrow> 's outcome option" and ok :: "'s \<Rightarrow> bool" +
  fixes absf :: "'s \<Rightarrow> 'a"
    and astep :: "'t \<Rightarrow> 'a \<Rightarrow> 'a \<Rightarrow> bool"
  assumes step_refines: "ok s \<Longrightarrow> mstep t e s = Some (Returns s') \<Longrightarrow> (astep t)\<^sup>*\<^sup>* (absf s) (absf s')"
begin

lemma run_refines:
  assumes "ok s" and "timed_run mstep es s = Some (Returns s')"
  shows "(\<lambda>a b. \<exists>t \<in> fst ` set es. astep t a b)\<^sup>*\<^sup>* (absf s) (absf s')"
proof (rule run_rel [where P = "\<lambda>u. (\<lambda>a b. \<exists>t \<in> fst ` set es. astep t a b)\<^sup>*\<^sup>* (absf s) (absf u)"])
  fix u t e u'
  assume "ok u" and u: "mstep t e u = Some (Returns u')" and te: "(t, e) \<in> set es"
    and s: "(\<lambda>a b. \<exists>t \<in> fst ` set es. astep t a b)\<^sup>*\<^sup>* (absf s) (absf u)"
  from te have "astep t a b \<Longrightarrow> \<exists>t \<in> fst ` set es. astep t a b" for a b by force
  with step_refines [OF \<open>ok u\<close> u] have "(\<lambda>a b. \<exists>t \<in> fst ` set es. astep t a b)\<^sup>*\<^sup>* (absf u) (absf u')"
    by (metis (mono_tags, lifting) mono_rtranclp)
  with s show "(\<lambda>a b. \<exists>t \<in> fst ` set es. astep t a b)\<^sup>*\<^sup>* (absf s) (absf u')" by simp
qed (use assms in auto)

end

subsection \<open>Numbers of connections\<close>

lemma not_above_UintMax: "\<not> i > UintMax"
  by (simp add: UintMax_def not_less word_order.extremum)

lemma autoinc_nth_eq: "autoinc_nth n ai = ai_i ai + of_nat n * ai_step ai"
  by (induction n arbitrary: ai) (simp_all add: autoinc_ID_def not_above_UintMax Let_def algebra_simps)

subsection \<open>The packed state\<close>

lemma low_byte_bit: "0 \<le> st \<Longrightarrow> st < 256 \<Longrightarrow> bit (st :: int) n \<Longrightarrow> n < 8"
  using bit_take_bit_iff [of 8 st n] by (simp add: take_bit_int_eq_self)

lemma pack_state_low:
  assumes "0 \<le> st" and "st < 256"
  shows "uint (pack_state u st AND 0xff) = st"
proof -
  have m: "(0xff :: 64 word) = mask 8" by (simp add: mask_eq_exp_minus_1)
  have "pack_state u st AND 0xff = word_of_int st"
    unfolding m by (rule bit_word_eqI) (auto simp: pack_state_def bit_simps dest: low_byte_bit [OF assms])
  then show ?thesis using assms by (simp add: take_bit_int_eq_self unsigned_of_int)
qed

lemma pack_state_high:
  assumes "0 \<le> st" and "st < 256"
  shows "sint (drop_bit 8 (pack_state u st)) = uint u mod 2 ^ 56"
proof -
  have "drop_bit 8 (pack_state u st) = take_bit 56 u"
    by (rule bit_word_eqI) (auto simp: pack_state_def bit_simps dest: low_byte_bit [OF assms])
  moreover have "sint (take_bit 56 u) = uint (take_bit 56 u)"
    by (simp add: sint_uint signed_take_bit_eq_if_positive bit_simps unsigned_take_bit_eq)
  moreover have "uint (take_bit 56 u) = uint u mod 2 ^ 56"
    by (subst unsigned_take_bit_eq) (rule take_bit_eq_mod)
  ultimately show ?thesis by simp
qed

text \<open>What \<open>setState\<close> stores is what \<open>getState\<close> reads, for times before the year 2 billion.\<close>

lemma unpack_pack:
  assumes "0 \<le> st" and "st < 256"
  shows "unpack_state (pack_state u st) = (st, uint u mod 2 ^ 56)"
  using pack_state_low [OF assms] pack_state_high [OF assms] by (simp add: unpack_state_def)

subsection \<open>The set of active connections\<close>

definition conn_ok :: "gserver \<Rightarrow> nat \<Rightarrow> bool" where
  "conn_ok s c \<longleftrightarrow>
     fst (getState (sv_conns s c)) =
       (case cn_pc (sv_conns s c) of Spawned \<Rightarrow> StateNew | Handling \<Rightarrow> StateActive | Done \<Rightarrow> StateClosed)
     \<and> cn_open (sv_conns s c) = (c \<in> set (sv_activeConn s)) \<and> (cn_pc (sv_conns s c) = Done \<longrightarrow> \<not> cn_open (sv_conns s c))"

definition conns_ok :: "gserver \<Rightarrow> bool" where
  "conns_ok s \<longleftrightarrow>
     distinct (sv_activeConn s) \<and> (\<forall>c \<in> set (sv_activeConn s). c < sv_next s) \<and> (\<forall>c < sv_next s. conn_ok s c)"

lemma fst_unpack_pack: "0 \<le> st \<Longrightarrow> st < 256 \<Longrightarrow> fst (unpack_state (pack_state u st)) = st"
  by (simp add: unpack_pack)

lemma setState_Returns:
  "st \<in> {StateNew, StateActive, StateIdle, StateHijacked, StateClosed} \<Longrightarrow> \<exists>s'. setState c st now s = Returns s'"
  by (auto simp: setState_def Let_def conn_states)

text \<open>What the three steps of a connection do to the state, field by field.\<close>

lemma accept_conn_eq:
  "serve_turn (AcceptConn r) now s = Returns (None, s\<lparr>sv_tempDelay := 0, sv_next := Suc (sv_next s),
     sv_activeConn := List.insert (sv_next s) (sv_activeConn s),
     sv_conns := (sv_conns s)(sv_next s := \<lparr>cn_remote = r, cn_traceID = 0, cn_packed = pack_state (Unix now) StateNew,
       cn_open = True, cn_pc = Spawned\<rparr>)\<rparr>)"
  by (simp add: serve_turn_def newConn_def setState_def Let_def conn_states trackConn_def set_conn_def)

lemma conn_serve_eq:
  "conn_serve c now s = Returns (s\<lparr>sv_ids := snd (autoinc_ID (sv_ids s)),
     sv_conns := (sv_conns s)(c := (sv_conns s c)\<lparr>cn_traceID := fst (autoinc_ID (sv_ids s)), cn_pc := Handling,
       cn_packed := pack_state (Unix now) StateActive\<rparr>)\<rparr>)"
  by (simp add: conn_serve_def setState_def Let_def conn_states set_conn_def split: prod.split)

lemma conn_done_eq:
  "conn_done c now s = Returns (s\<lparr>sv_activeConn := removeAll c (sv_activeConn s),
     sv_conns := (sv_conns s)(c := (sv_conns s c)\<lparr>cn_open := False, cn_pc := Done,
       cn_packed := pack_state (Unix now) StateClosed\<rparr>)\<rparr>)"
  by (simp add: conn_done_def setState_def Let_def conn_states trackConn_def set_conn_def)

text \<open>Which connections \<open>closeIdleConns\<close> closes, and what it leaves.\<close>

definition reaped :: "int \<Rightarrow> gconn \<Rightarrow> bool" where
  "reaped now cn =
     (case getState cn of (st, unixSec) \<Rightarrow>
        (st = StateIdle \<or> (st = StateNew \<and> unixSec < sint (Unix now) - 5)) \<and> unixSec \<noteq> 0)"

lemma closeIdle_loop_eq:
  "closeIdle_loop cs now q s =
     (q \<and> (\<forall>c \<in> set cs. reaped now (sv_conns s c)),
      s\<lparr>sv_activeConn := filter (\<lambda>c. \<not> (c \<in> set cs \<and> reaped now (sv_conns s c))) (sv_activeConn s),
        sv_conns := (\<lambda>c. if c \<in> set cs \<and> reaped now (sv_conns s c) then (sv_conns s c)\<lparr>cn_open := False\<rparr> else sv_conns s c)\<rparr>)"
proof (induction cs arbitrary: q s)
  case Nil
  show ?case by simp
next
  case (Cons c cs)
  obtain st u where g: "getState (sv_conns s c) = (st, u)" by fastforce
  show ?case
  proof (cases "reaped now (sv_conns s c)")
    case True
    let ?s = "trackConn c False (set_conn c ((sv_conns s c)\<lparr>cn_open := False\<rparr>) s)"
    have r: "reaped now (sv_conns ?s d) = reaped now (sv_conns s d)" for d
      by (simp add: trackConn_def set_conn_def reaped_def getState_def)
    have "closeIdle_loop (c # cs) now q s = closeIdle_loop cs now q ?s"
      using True by (auto simp: g reaped_def Let_def)
    then show ?thesis
      using True unfolding Cons.IH r
      by (auto simp: trackConn_def set_conn_def fun_eq_iff removeAll_filter_not_eq intro!: filter_cong arg_cong2 [where f = "\<lambda>a b. s\<lparr>sv_activeConn := a, sv_conns := b\<rparr>"])
  next
    case False
    then have l: "closeIdle_loop (c # cs) now q s = closeIdle_loop cs now False s"
      by (auto simp: g reaped_def Let_def)
    have e: "(d \<in> set (c # cs) \<and> reaped now (sv_conns s d)) = (d \<in> set cs \<and> reaped now (sv_conns s d))" for d
      using False by auto
    show ?thesis unfolding l Cons.IH e using False by auto
  qed
qed

lemma closeIdleConns_eq:
  "closeIdleConns now s =
     (\<forall>c \<in> set (sv_activeConn s). reaped now (sv_conns s c),
      s\<lparr>sv_activeConn := filter (\<lambda>c. \<not> reaped now (sv_conns s c)) (sv_activeConn s),
        sv_conns := (\<lambda>c. if c \<in> set (sv_activeConn s) \<and> reaped now (sv_conns s c)
           then (sv_conns s c)\<lparr>cn_open := False\<rparr> else sv_conns s c)\<rparr>)"
  by (simp add: closeIdleConns_def closeIdle_loop_eq cong: filter_cong)

lemma shutdown_poll_eq:
  "shutdown_poll after tick now s =
     (let act = filter (\<lambda>c. \<not> reaped now (sv_conns s c)) (sv_activeConn s)
      in s\<lparr>sv_activeConn := act,
        sv_conns := (\<lambda>c. if c \<in> set (sv_activeConn s) \<and> reaped now (sv_conns s c)
           then (sv_conns s c)\<lparr>cn_open := False\<rparr> else sv_conns s c),
        sv_shut := if act = [] then Sending after else Selecting after tick\<rparr>)"
  by (simp add: shutdown_poll_def closeIdleConns_eq Let_def)

subsection \<open>The invariant\<close>

text \<open>What the goroutines of \<open>Serve\<close> and of the signals know of each other.\<close>

definition draining :: "shut_pc \<Rightarrow> bool" where
  "draining p \<longleftrightarrow> (case p of Polling a t \<Rightarrow> True | Selecting a t \<Rightarrow> True | Sending a \<Rightarrow> True | _ \<Rightarrow> False)"

definition control_ok :: "gserver \<Rightarrow> bool" where
  "control_ok s \<longleftrightarrow> (\<forall>t. sv_shut s = Closing t \<longrightarrow> sv_ln s) \<and>
     (case sv_main s of
        NotServing \<Rightarrow> sv_state s = StateInit \<and> sv_ln s \<and> sv_shut s = ShutIdle
      | Accepting \<Rightarrow>
          (sv_ln s \<longrightarrow> sv_shut s = ShutIdle \<and> sv_state s = StateRunning
             \<or> (\<exists>t \<in> {0, TermTimeout}. sv_shut s = Closing t) \<and> sv_state s = StateShuttingDown)
          \<and> (\<not> sv_ln s \<longrightarrow> draining (sv_shut s) \<and> sv_state s = StateShuttingDown)
      | Waiting \<Rightarrow> \<not> sv_ln s \<and> draining (sv_shut s) \<and> sv_state s = StateShuttingDown
      | ServeReturned err \<Rightarrow> sv_state s = StateTerminate)"

definition grace_ok :: "gserver \<Rightarrow> bool" where
  "grace_ok s \<longleftrightarrow> conns_ok s \<and> control_ok s"

lemma conn_ok_upd:
  assumes "conns_ok s"
    and "sv_next s' = sv_next s" and "distinct (sv_activeConn s')" and "set (sv_activeConn s') \<subseteq> set (sv_activeConn s)"
    and "\<And>c. c < sv_next s \<Longrightarrow> conn_ok s c \<Longrightarrow> conn_ok s' c"
  shows "conns_ok s'"
  using assms by (auto simp: conns_ok_def)

lemma conns_ok_control:
  "sv_conns s' = sv_conns s \<Longrightarrow> sv_next s' = sv_next s \<Longrightarrow> sv_activeConn s' = sv_activeConn s \<Longrightarrow> conns_ok s' = conns_ok s"
  by (simp add: conns_ok_def conn_ok_def)

lemma conns_ok_upd [simp]:
  "conns_ok (s\<lparr>sv_main := m\<rparr>) = conns_ok s" "conns_ok (s\<lparr>sv_state := n\<rparr>) = conns_ok s"
  "conns_ok (s\<lparr>sv_ln := b\<rparr>) = conns_ok s" "conns_ok (s\<lparr>sv_shut := p\<rparr>) = conns_ok s"
  by (rule conns_ok_control; simp)+

lemma control_ok_cong:
  "sv_main s' = sv_main s \<Longrightarrow> sv_state s' = sv_state s \<Longrightarrow> sv_ln s' = sv_ln s \<Longrightarrow> sv_shut s' = sv_shut s \<Longrightarrow>
     control_ok s' = control_ok s"
  by (simp only: control_ok_def)

lemma grace_ok_listening: "grace_ok listening"
  by (simp add: grace_ok_def conns_ok_def control_ok_def listening_def)

lemma getState_upd [simp]:
  "getState (cn\<lparr>cn_open := b\<rparr>) = getState cn" "getState (cn\<lparr>cn_pc := p\<rparr>) = getState cn"
  "getState (cn\<lparr>cn_traceID := i\<rparr>) = getState cn" "getState (cn\<lparr>cn_packed := w\<rparr>) = unpack_state w"
  by (simp_all add: getState_def)

lemma accept_conns_ok:
  assumes "conns_ok s" and "serve_turn (AcceptConn r) now s = Returns (e, s')"
  shows "conns_ok s'"
proof -
  have n: "sv_next s \<notin> set (sv_activeConn s)" using assms(1) by (auto simp: conns_ok_def)
  have "conn_ok s' c" if "c < Suc (sv_next s)" for c
  proof (cases "c = sv_next s")
    case True
    then show ?thesis
      using assms(2) by (auto simp: accept_conn_eq conn_ok_def getState_def fst_unpack_pack conn_states)
  next
    case False
    with that assms(1) have "conn_ok s c" by (simp add: conns_ok_def)
    with False assms(2) show ?thesis by (auto simp: accept_conn_eq conn_ok_def)
  qed
  with assms n show ?thesis by (auto simp: conns_ok_def accept_conn_eq less_Suc_eq)
qed

lemma start_conns_ok:
  assumes "conns_ok s" and "cn_pc (sv_conns s c) = Spawned" and "conn_serve c now s = Returns s'"
  shows "conns_ok s'"
proof (rule conn_ok_upd [OF assms(1)])
  fix d assume "conn_ok s d"
  then show "conn_ok s' d"
    using assms(2,3) by (cases "d = c") (auto simp: conn_serve_eq conn_ok_def fst_unpack_pack conn_states)
qed (use assms in \<open>auto simp: conn_serve_eq conns_ok_def\<close>)

lemma done_conns_ok:
  assumes "conns_ok s" and "conn_done c now s = Returns s'"
  shows "conns_ok s'"
proof (rule conn_ok_upd [OF assms(1)])
  fix d assume "conn_ok s d"
  then show "conn_ok s' d"
    using assms(2) by (cases "d = c") (auto simp: conn_done_eq conn_ok_def fst_unpack_pack conn_states)
qed (use assms in \<open>auto simp: conn_done_eq conns_ok_def distinct_removeAll\<close>)

lemma poll_conns_ok:
  assumes "conns_ok s"
  shows "conns_ok (shutdown_poll after tick now s)"
proof (rule conn_ok_upd [OF assms])
  fix d assume "conn_ok s d"
  then show "conn_ok (shutdown_poll after tick now s) d"
    by (auto simp: shutdown_poll_eq Let_def conn_ok_def)
qed (use assms in \<open>auto simp: shutdown_poll_eq Let_def conns_ok_def\<close>)

lemma serve_turn_err:
  "serve_turn (AcceptErr text temporary) now s =
     Returns (if sv_state s = StateShuttingDown \<and> Contains text closed_text then (Some ErrReloadClose, s)
       else if temporary then
         (None, s\<lparr>sv_tempDelay := accept_delay (sv_tempDelay s), sv_wake := now + accept_delay (sv_tempDelay s)\<rparr>)
       else (Some (ErrNet text), s))"
  by (simp add: serve_turn_def Let_def)

lemma accept_step_ok:
  assumes "grace_ok s" and "grace_step now (Accept res) s = Some r"
  shows "\<exists>s'. r = Returns s' \<and> grace_ok s'"
proof (cases res)
  case (AcceptConn rem)
  obtain s' where s': "serve_turn res now s = Returns (None, s')" by (simp add: AcceptConn accept_conn_eq)
  with assms(2) have "r = Returns s'" by (auto split: if_splits)
  moreover have "conns_ok s'"
    using accept_conns_ok [OF _ s' [unfolded AcceptConn]] assms(1) by (simp add: grace_ok_def)
  moreover have "control_ok s'"
    using s' assms(1) control_ok_cong [of s' s] by (auto simp: AcceptConn accept_conn_eq grace_ok_def)
  ultimately show ?thesis by (simp add: grace_ok_def)
next
  case (AcceptErr msg temp)
  with assms show ?thesis
    by (auto simp: serve_turn_err serve_end_def grace_ok_def control_ok_def listener_gives_def ErrReloadClose_def
        conns_ok_def conn_ok_def server_states split: if_splits)
qed

lemma grace_step_ok:
  assumes "grace_ok s" and "grace_step now e s = Some r"
  shows "\<exists>s'. r = Returns s' \<and> grace_ok s'"
proof (cases e)
  case (Accept res)
  then show ?thesis using accept_step_ok assms by simp
next
  case (StartConn c)
  with assms obtain s' where s': "conn_serve c now s = Returns s'" and "r = Returns s'" "cn_pc (sv_conns s c) = Spawned"
    by (auto simp: conn_serve_eq split: if_splits)
  moreover have "control_ok s' = control_ok s"
    by (rule control_ok_cong) (use s' in \<open>auto simp: conn_serve_eq\<close>)
  ultimately show ?thesis using start_conns_ok [of s c now s'] assms(1) by (simp add: grace_ok_def)
next
  case (EndConn c)
  with assms obtain s' where s': "conn_done c now s = Returns s'" and "r = Returns s'"
    by (auto simp: conn_done_eq split: if_splits)
  moreover have "control_ok s' = control_ok s"
    by (rule control_ok_cong) (use s' in \<open>auto simp: conn_done_eq\<close>)
  ultimately show ?thesis using done_conns_ok [of s c now s'] assms(1) by (simp add: grace_ok_def)
next
  case Poll
  with assms obtain after tick where p: "sv_shut s = Polling after tick" and r: "r = Returns (shutdown_poll after tick now s)"
    by (auto split: shut_pc.splits)
  have "control_ok (shutdown_poll after tick now s)"
    using p assms(1) by (auto simp: grace_ok_def control_ok_def shutdown_poll_eq Let_def draining_def split: main_pc.splits)
  then show ?thesis using r assms(1) poll_conns_ok by (simp add: grace_ok_def)
next
  case (Signal b)
  let ?s = "shutdown_start (if b then TermTimeout else 0) s"
  from Signal assms(2) have r: "r = Returns ?s" and i: "sv_shut s = ShutIdle" by (auto split: if_splits)
  have "conns_ok ?s = conns_ok s" by (rule conns_ok_control) (simp_all add: shutdown_start_def)
  moreover have "control_ok ?s"
    using i assms(1) by (auto simp: grace_ok_def control_ok_def shutdown_start_def draining_def server_states split: main_pc.splits)
  ultimately show ?thesis using r assms(1) by (simp add: grace_ok_def)
next
  case CloseListener
  with assms(2) obtain t where t: "sv_shut s = Closing t" and r: "r = Returns (shutdown_close t now s)"
    by (auto split: shut_pc.splits)
  then have "control_ok (shutdown_close t now s)" "conns_ok (shutdown_close t now s)"
    using assms(1) by (auto simp: grace_ok_def control_ok_def shutdown_close_def draining_def split: main_pc.splits)
  then show ?thesis using r by (simp add: grace_ok_def)
next
  case HandOver
  with assms(2) have r: "r = Returns (handover s)" by (auto split: shut_pc.splits if_splits)
  have "control_ok (handover s)" "conns_ok (handover s)"
    using assms(1) by (auto simp: grace_ok_def control_ok_def handover_def)
  then show ?thesis using r by (simp add: grace_ok_def)
next
  case StartServe
  with assms(2) have r: "r = Returns (s\<lparr>sv_main := Accepting, sv_state := StateRunning\<rparr>)" (is "_ = Returns ?s")
    and m: "sv_main s = NotServing" by (auto split: if_splits)
  have "control_ok ?s" "conns_ok ?s" using assms(1) m by (auto simp: grace_ok_def control_ok_def)
  then show ?thesis using r by (simp add: grace_ok_def)
next
  case Tick
  with assms(2) obtain d t where "sv_shut s = Selecting d t" and r: "r = Returns (s\<lparr>sv_shut := Polling d (t + 500)\<rparr>)"
    (is "_ = Returns ?s") by (auto split: shut_pc.splits if_splits)
  then have "control_ok ?s" "conns_ok ?s"
    using assms(1) by (auto simp: grace_ok_def control_ok_def draining_def split: main_pc.splits)
  then show ?thesis using r by (simp add: grace_ok_def)
next
  case After
  with assms(2) obtain d t where "sv_shut s = Selecting d t" and r: "r = Returns (s\<lparr>sv_shut := Sending d\<rparr>)"
    (is "_ = Returns ?s") by (auto split: shut_pc.splits if_splits)
  then have "control_ok ?s" "conns_ok ?s"
    using assms(1) by (auto simp: grace_ok_def control_ok_def draining_def split: main_pc.splits)
  then show ?thesis using r by (simp add: grace_ok_def)
qed

interpretation grace_m: timed_machine grace_step grace_ok
  by unfold_locales (rule grace_step_ok)

subsection \<open>The contract of a graceful server\<close>

text \<open>
  A server is a set of open connections and a phase. It takes connections while it serves;
  then it drains until it has no connection or the deadline has passed; then it stops.
\<close>

datatype phase = Serving | Draining int | Drained | Stopped

type_synonym contract = "nat set \<times> phase"

inductive contract_step :: "int \<Rightarrow> contract \<Rightarrow> contract \<Rightarrow> bool" for now where
  open_conn: "c \<notin> A \<Longrightarrow> contract_step now (A, Serving) (insert c A, Serving)"
| close_conn: "contract_step now (A, p) (A - {c}, p)"
| drain: "contract_step now (A, Serving) (A, Draining (now + TermTimeout * 1000))"
| interrupt: "contract_step now (A, Serving) (A, Drained)"
| reap: "B \<subseteq> A \<Longrightarrow> p \<noteq> Serving \<Longrightarrow> contract_step now (A, p) (B, p)"
| drained: "A = {} \<or> d \<le> now \<Longrightarrow> contract_step now (A, Draining d) (A, Drained)"
| stop: "contract_step now (A, Drained) (A, Stopped)"
| fail: "contract_step now (A, Serving) (A, Stopped)"

inductive_cases stopped_stepE: "contract_step now (A, Stopped) x"
inductive_cases drained_stepE: "contract_step now (A, Drained) x"
inductive_cases draining_stepE: "contract_step now (A, Draining d) x"

definition server_phase :: "gserver \<Rightarrow> phase" where
  "server_phase s =
     (case sv_main s of
        ServeReturned err \<Rightarrow> Stopped
      | _ \<Rightarrow> if sv_ln s then Serving
            else (case sv_shut s of Polling d t \<Rightarrow> Draining d | Selecting d t \<Rightarrow> Draining d | _ \<Rightarrow> Drained))"

definition contract_of :: "gserver \<Rightarrow> contract" where
  "contract_of s = (set (sv_activeConn s), server_phase s)"

lemma server_phase_cong:
  "sv_main s' = sv_main s \<Longrightarrow> sv_ln s' = sv_ln s \<Longrightarrow> sv_shut s' = sv_shut s \<Longrightarrow> server_phase s' = server_phase s"
  by (simp only: server_phase_def)

text \<open>The three events that need an argument of their own.\<close>

lemma accept_refines:
  assumes "grace_ok s" and "grace_step now (Accept res) s = Some (Returns s')"
  shows "(contract_step now)\<^sup>*\<^sup>* (contract_of s) (contract_of s')"
proof -
  have n: "sv_next s \<notin> set (sv_activeConn s)" using assms(1) by (auto simp: grace_ok_def conns_ok_def)
  have "sv_main s = Accepting" and g: "listener_gives (sv_ln s) res" using assms(2) by (auto split: if_splits)
  then show ?thesis
  proof (cases res)
    case (AcceptConn r)
    with g have "contract_of s = (set (sv_activeConn s), Serving)"
      "contract_of s' = (insert (sv_next s) (set (sv_activeConn s)), Serving)"
      using \<open>sv_main s = Accepting\<close> assms(2)
      by (auto simp: contract_of_def server_phase_def accept_conn_eq listener_gives_def split: if_splits)
    with open_conn [OF n, of now] show ?thesis by (auto intro: r_into_rtranclp)
  next
    case (AcceptErr msg temp)
    consider "contract_of s' = contract_of s" | "sv_ln s" "contract_of s' = (set (sv_activeConn s), Stopped)"
      using \<open>sv_main s = Accepting\<close> assms AcceptErr g
      by (auto simp: serve_turn_err serve_end_def contract_of_def server_phase_def listener_gives_def
          grace_ok_def control_ok_def split: if_splits)
    then show ?thesis
    proof cases
      case 2
      with \<open>sv_main s = Accepting\<close> fail show ?thesis by (auto simp: contract_of_def server_phase_def)
    qed simp
  qed
qed

lemma close_listener_refines:
  assumes "grace_ok s" and "grace_step now CloseListener s = Some (Returns s')"
  shows "(contract_step now)\<^sup>*\<^sup>* (contract_of s) (contract_of s')"
proof -
  obtain t where t: "sv_shut s = Closing t" and s': "s' = shutdown_close t now s" using assms(2) by (auto split: shut_pc.splits)
  show ?thesis
  proof (cases "server_phase s = Stopped")
    case True
    then show ?thesis
      by (auto simp: contract_of_def server_phase_def s' shutdown_close_def split: main_pc.splits if_splits shut_pc.splits)
  next
    case False
    with assms(1) t have "sv_ln s" "t = 0 \<or> t = TermTimeout" "server_phase s = Serving"
      by (auto simp: grace_ok_def control_ok_def server_phase_def draining_def split: main_pc.splits if_splits)
    then show ?thesis
      using drain interrupt False
      by (auto simp: contract_of_def server_phase_def s' shutdown_close_def TermTimeout_def split: main_pc.splits)
  qed
qed

lemma poll_refines:
  assumes "grace_ok s" and "grace_step now Poll s = Some (Returns s')"
  shows "(contract_step now)\<^sup>*\<^sup>* (contract_of s) (contract_of s')"
proof -
  obtain d t where t: "sv_shut s = Polling d t" and s': "s' = shutdown_poll d t now s" using assms(2) by (auto split: shut_pc.splits)
  let ?B = "set (sv_activeConn s')"
  have B: "?B \<subseteq> set (sv_activeConn s)" by (auto simp: s' shutdown_poll_eq Let_def)
  have "server_phase s \<noteq> Serving"
    using assms(1) t by (auto simp: grace_ok_def control_ok_def server_phase_def draining_def split: main_pc.splits)
  with B have r: "contract_step now (contract_of s) (?B, server_phase s)" by (auto simp: contract_of_def intro: reap)
  have "contract_of s' = (?B, server_phase s) \<or> ?B = {} \<and> server_phase s = Draining d \<and> server_phase s' = Drained"
    using assms(1) t by (auto simp: contract_of_def server_phase_def s' shutdown_poll_eq Let_def grace_ok_def control_ok_def
        draining_def filter_empty_conv split: main_pc.splits if_splits)
  with r show ?thesis
    using drained [of "{}" d now]
    by (auto simp: contract_of_def intro: r_into_rtranclp rtranclp.rtrancl_into_rtrancl)
qed

lemma grace_step_refines:
  assumes "grace_ok s" and "grace_step now e s = Some (Returns s')"
  shows "(contract_step now)\<^sup>*\<^sup>* (contract_of s) (contract_of s')"
proof (cases e)
  case StartServe
  with assms show ?thesis
    by (auto simp: contract_of_def server_phase_def grace_ok_def control_ok_def split: if_splits)
next
  case (Accept res)
  then show ?thesis using accept_refines assms by simp
next
  case (StartConn c)
  with assms have "contract_of s' = contract_of s"
    using server_phase_cong [of s' s] by (auto simp: conn_serve_eq contract_of_def split: if_splits)
  then show ?thesis by simp
next
  case (EndConn c)
  with assms have "contract_of s' = (set (sv_activeConn s) - {c}, server_phase s)"
    using server_phase_cong [of s' s] by (auto simp: conn_done_eq contract_of_def split: if_splits)
  with close_conn show ?thesis by (auto simp: contract_of_def)
next
  case (Signal b)
  with assms have "contract_of s' = contract_of s"
    by (auto simp: shutdown_start_def contract_of_def server_phase_def grace_ok_def control_ok_def draining_def
        split: if_splits main_pc.splits)
  then show ?thesis by simp
next
  case CloseListener
  then show ?thesis using close_listener_refines assms by simp
next
  case Poll
  then show ?thesis using poll_refines assms by simp
next
  case Tick
  with assms show ?thesis
    by (auto simp: contract_of_def server_phase_def split: shut_pc.splits if_splits main_pc.splits)
next
  case After
  then obtain d t where "sv_shut s = Selecting d t" "d \<le> now" "s' = s\<lparr>sv_shut := Sending d\<rparr>"
    using assms(2) by (auto split: shut_pc.splits if_splits)
  then show ?thesis
    using assms(1) drained [of "set (sv_activeConn s)" d now]
    by (auto simp: contract_of_def server_phase_def grace_ok_def control_ok_def draining_def split: main_pc.splits)
next
  case HandOver
  then obtain d where "sv_shut s = Sending d" "sv_main s = Waiting" "s' = handover s"
    using assms(2) by (auto split: shut_pc.splits if_splits)
  then show ?thesis
    using assms(1) stop by (auto simp: contract_of_def server_phase_def grace_ok_def control_ok_def handover_def)
qed

interpretation grace_r: timed_refinement grace_step grace_ok contract_of contract_step
  by unfold_locales (rule grace_step_refines)

subsection \<open>Properties\<close>

lemma autoinc_word: "autoinc_nth n (autoinc_New 1 1) = of_nat (Suc n)"
  by (simp add: autoinc_nth_eq autoinc_New_def)

text \<open>
  The numbers of the connections of a process, drawn from a counter that starts at 1
  with step 1, are the words of 1, 2, 3 and so on; no two of the first 2^64 are equal. The
  test against the greatest number never resets the counter: after the greatest number
  comes 0, and only then the start again.
\<close>

theorem trace_ids_unique:
  "autoinc_nth n (autoinc_New 1 1) = of_nat (Suc n) \<and>
   inj_on (\<lambda>n. autoinc_nth n (autoinc_New 1 1)) {..< 2 ^ 64} \<and>
   autoinc_nth (2 ^ 64 - 2) (autoinc_New 1 1) = UintMax \<and> autoinc_nth (2 ^ 64 - 1) (autoinc_New 1 1) = 0"
proof (intro conjI)
  show "inj_on (\<lambda>n. autoinc_nth n (autoinc_New 1 1)) {..< 2 ^ 64}"
  proof (rule inj_onI)
    fix m n :: nat
    assume "m \<in> {..< 2 ^ 64}" "n \<in> {..< 2 ^ 64}" and "autoinc_nth m (autoinc_New 1 1) = autoinc_nth n (autoinc_New 1 1)"
    then have "(of_nat m :: 64 word) = of_nat n" and "m < 2 ^ LENGTH(64)" and "n < 2 ^ LENGTH(64)"
      by (simp_all add: autoinc_word)
    then show "m = n" by (metis unat_of_nat take_bit_eq_mod mod_less unsigned_of_nat)
  qed
  have "Suc (2 ^ 64 - 2) = 2 ^ 64 - (1 :: nat)" and "Suc (2 ^ 64 - 1) = (2 ^ 64 :: nat)" by simp_all
  then show "autoinc_nth (2 ^ 64 - 2) (autoinc_New 1 1) = UintMax" "autoinc_nth (2 ^ 64 - 1) (autoinc_New 1 1) = 0"
    unfolding autoinc_word by (simp_all add: UintMax_def)
qed (rule autoinc_word)

definition conn_state_of :: "conn_pc \<Rightarrow> int" where
  "conn_state_of p = (case p of Spawned \<Rightarrow> StateNew | Handling \<Rightarrow> StateActive | Done \<Rightarrow> StateClosed)"

text \<open>
  C24: In every possible run of a server no step panics, and the packed word of every
  connection it has accepted holds the state of the connection's goroutine: new before the
  handler runs, active while it runs, closed after it. A connection is in the set of active
  connections exactly when its socket is open.
\<close>

theorem connection_states:
  assumes "timed_run grace_step es listening = Some r"
  shows "\<exists>s. r = Returns s \<and> (\<forall>c < sv_next s.
      fst (getState (sv_conns s c)) = conn_state_of (cn_pc (sv_conns s c))
      \<and> (cn_open (sv_conns s c) \<longleftrightarrow> c \<in> set (sv_activeConn s)))"
  using grace_m.run_ok [OF grace_ok_listening assms]
  by (auto simp: grace_ok_def conns_ok_def conn_ok_def conn_state_of_def)

lemma contract_listening: "contract_of listening = ({}, Serving)"
  by (simp add: contract_of_def server_phase_def listening_def)


lemma run_from_listening:
  "timed_run grace_step es listening = Some (Returns s) \<Longrightarrow> grace_ok s"
  using grace_m.run_ok [OF grace_ok_listening] by blast

lemma handling_not_reaped:
  "grace_ok s \<Longrightarrow> c < sv_next s \<Longrightarrow> cn_pc (sv_conns s c) = Handling \<Longrightarrow> \<not> reaped now (sv_conns s c)"
  by (auto simp: grace_ok_def conns_ok_def conn_ok_def reaped_def conn_states)

lemma draining_step:
  assumes "grace_ok s" and "grace_step now e s = Some (Returns s')" and "e \<noteq> EndConn c"
    and "\<not> sv_ln s" and "c < sv_next s" and "cn_pc (sv_conns s c) = Handling" and "cn_open (sv_conns s c)"
  shows "\<not> sv_ln s' \<and> sv_next s' = sv_next s \<and> cn_pc (sv_conns s' c) = Handling \<and> cn_open (sv_conns s' c)"
proof (cases e)
  case (Accept res)
  with assms show ?thesis
    by (cases res) (auto simp: serve_turn_err serve_end_def listener_gives_def split: if_splits)
next
  case Poll
  with assms show ?thesis
    using handling_not_reaped by (auto simp: shutdown_poll_eq Let_def split: shut_pc.splits)
qed (use assms in \<open>auto simp: conn_serve_eq conn_done_eq shutdown_start_def shutdown_close_def handover_def
    split: if_splits shut_pc.splits\<close>)

text \<open>
  C25: Once the listener is closed, shutting down neither takes a new connection nor touches
  one that is being handled: in every continuation of the run the socket of such a
  connection stays open until its own handler has returned.
\<close>

theorem drain_keeps_requests:
  assumes "timed_run grace_step es listening = Some (Returns s)" and "\<not> sv_ln s"
    and "c < sv_next s" and "cn_pc (sv_conns s c) = Handling" and "cn_open (sv_conns s c)"
    and "timed_run grace_step es' s = Some (Returns s')" and "EndConn c \<notin> snd ` set es'"
  shows "sv_next s' = sv_next s \<and> cn_pc (sv_conns s' c) = Handling \<and> cn_open (sv_conns s' c)
    \<and> c \<in> set (sv_activeConn s')"
proof -
  let ?P = "\<lambda>u. \<not> sv_ln u \<and> sv_next u = sv_next s \<and> cn_pc (sv_conns u c) = Handling \<and> cn_open (sv_conns u c)"
  have "?P s'"
  proof (rule grace_m.run_rel [where P = ?P, OF _ run_from_listening [OF assms(1)] assms(6) subset_refl])
    fix u t e u'
    assume "grace_ok u" "grace_step t e u = Some (Returns u')" "(t, e) \<in> set es'" "?P u"
    moreover from this assms(7) have "e \<noteq> EndConn c" by force
    ultimately show "?P u'" using draining_step [of u t e u' c] assms(3) by simp
  qed (use assms in simp)
  moreover have "grace_ok s'" using grace_m.run_ok [OF run_from_listening [OF assms(1)] assms(6)] by simp
  ultimately show ?thesis using assms(3) by (auto simp: grace_ok_def conns_ok_def conn_ok_def)
qed

subsection \<open>The shutdown ends\<close>

lemma timed_run_append:
  "timed_run f es s = Some (Returns u) \<Longrightarrow> timed_run f (es @ es') s = timed_run f es' u"
  by (induction f es s rule: timed_run.induct) (auto split: option.splits outcome.splits)

text \<open>The goroutine of \<open>Serve\<close> notices the closed listener.\<close>

lemma serve_waits:
  assumes "grace_ok s" and "\<not> sv_ln s" and "server_phase s \<noteq> Stopped" and "sv_wake s \<le> now"
  shows "\<exists>es s'. length es \<le> 1 \<and> fst ` set es \<subseteq> {now} \<and> timed_run grace_step es s = Some (Returns s')
    \<and> sv_main s' = Waiting \<and> sv_shut s' = sv_shut s \<and> grace_ok s'"
proof (cases "sv_main s")
  case Accepting
  with assms have "sv_state s = StateShuttingDown" by (simp add: grace_ok_def control_ok_def)
  moreover have c: "Contains closed_text closed_text" by code_simp
  ultimately have "timed_run grace_step [(now, Accept (AcceptErr closed_text False))] s = Some (Returns (s\<lparr>sv_main := Waiting\<rparr>))"
    (is "timed_run _ ?es s = Some (Returns ?s)")
    using assms(2,4) Accepting by (simp add: serve_turn_err serve_end_def listener_gives_def)
  then show ?thesis using grace_m.run_ok [OF assms(1), of ?es "Returns ?s"]
    by (intro exI [of _ ?es] exI [of _ ?s]) auto
next
  case Waiting
  then show ?thesis using assms(1) by (intro exI [of _ "[]"] exI [of _ s]) simp
qed (use assms in \<open>auto simp: server_phase_def grace_ok_def control_ok_def\<close>)

lemma shutdown_sends:
  assumes "grace_ok s" and "sv_main s = Waiting" and "\<And>d t. sv_shut s = Polling d t \<or> sv_shut s = Selecting d t \<Longrightarrow> d \<le> now"
  shows "\<exists>es s' d. length es \<le> 2 \<and> fst ` set es \<subseteq> {now} \<and> timed_run grace_step es s = Some (Returns s')
    \<and> sv_main s' = Waiting \<and> sv_shut s' = Sending d"
proof -
  have sel: "\<exists>s'. timed_run grace_step [(now, After)] u = Some (Returns s') \<and> sv_main s' = Waiting \<and> sv_shut s' = Sending d"
    if "sv_shut u = Selecting d t" "d \<le> now" "sv_main u = Waiting" for u d t
    using that by simp
  have "draining (sv_shut s)" using assms(1,2) by (simp add: grace_ok_def control_ok_def)
  then consider d t where "sv_shut s = Polling d t" | d t where "sv_shut s = Selecting d t" | d where "sv_shut s = Sending d"
    by (auto simp: draining_def split: shut_pc.splits)
  then show ?thesis
  proof cases
    case (1 d t)
    let ?u = "shutdown_poll d t now s"
    have p: "timed_run grace_step [(now, Poll)] s = Some (Returns ?u)" using 1 by simp
    have m: "sv_main ?u = Waiting" using assms(2) by (simp add: shutdown_poll_eq Let_def)
    have "sv_shut ?u = Sending d \<or> sv_shut ?u = Selecting d t" by (simp add: shutdown_poll_eq Let_def)
    then show ?thesis
    proof
      assume "sv_shut ?u = Sending d"
      then show ?thesis using p m by (intro exI [of _ "[(now, Poll)]"] exI [of _ ?u]) simp
    next
      assume "sv_shut ?u = Selecting d t"
      from sel [OF this _ m] assms(3) 1 obtain s' where "timed_run grace_step [(now, After)] ?u = Some (Returns s')"
        "sv_main s' = Waiting" "sv_shut s' = Sending d" by auto
      then show ?thesis using timed_run_append [OF p, of "[(now, After)]"]
        by (intro exI [of _ "[(now, Poll), (now, After)]"] exI [of _ s']) simp
    qed
  next
    case (2 d t)
    then show ?thesis using sel [OF 2 _ assms(2)] assms(3)
      by (intro exI [of _ "[(now, After)]"]) auto
  next
    case (3 d)
    then show ?thesis using assms(2) by (intro exI [of _ "[]"]) simp
  qed
qed

text \<open>
  C26: The shutdown ends. From every reachable state whose listener is closed, as soon as the
  deadline has passed and the accept loop is awake, at most four steps of the server's own
  goroutines, none of which waits for a connection, make \<open>Serve\<close> return without an error,
  however many connections are still open.
\<close>

theorem shutdown_ends:
  assumes "timed_run grace_step es listening = Some (Returns s)"
    and "\<not> sv_ln s" and "server_phase s \<noteq> Stopped"
    and "sv_wake s \<le> now" and "\<And>d. server_phase s = Draining d \<Longrightarrow> d \<le> now"
  shows "\<exists>es' s'. length es' \<le> 4 \<and> fst ` set es' \<subseteq> {now} \<and> timed_run grace_step es' s = Some (Returns s')
    \<and> sv_main s' = ServeReturned None"
proof -
  obtain a u where a: "length a \<le> 1" "fst ` set a \<subseteq> {now}" "timed_run grace_step a s = Some (Returns u)"
      "sv_main u = Waiting" "sv_shut u = sv_shut s" "grace_ok u"
    using serve_waits [OF run_from_listening [OF assms(1)] assms(2-4)] by blast
  have d: "d \<le> now" if "sv_shut u = Polling d t \<or> sv_shut u = Selecting d t" for d t
  proof (rule assms(5))
    show "server_phase s = Draining d" using that a(5) assms(2,3)
      by (auto simp: server_phase_def split: main_pc.splits)
  qed
  obtain b v d where b: "length b \<le> 2" "fst ` set b \<subseteq> {now}" "timed_run grace_step b u = Some (Returns v)"
      "sv_main v = Waiting" "sv_shut v = Sending d"
    using shutdown_sends [OF a(6,4), of now] d by blast
  have "timed_run grace_step (a @ b @ [(now, HandOver)]) s = Some (Returns (handover v))"
    using timed_run_append [OF a(3)] timed_run_append [OF b(3)] b(4,5) by simp
  then show ?thesis using a(1,2) b(1,2)
    by (intro exI [of _ "a @ b @ [(now, HandOver)]"] exI [of _ "handover v"]) (auto simp: handover_def)
qed

text \<open>How often the polling loop can run up to a time \<open>T\<close>.\<close>

definition polls :: "(int \<times> grace_event) list \<Rightarrow> nat" where
  "polls es = length (filter (\<lambda>e. snd e = Poll) es)"

definition polls_left :: "int \<Rightarrow> shut_pc \<Rightarrow> int" where
  "polls_left T p =
     (case p of
        Polling d t \<Rightarrow> 1 + max 0 ((T - t) div 500 + 1)
      | Selecting d t \<Rightarrow> max 0 ((T - t) div 500 + 1)
      | _ \<Rightarrow> 0)"

lemma poll_step:
  assumes "grace_ok s" and "\<not> sv_ln s" and "grace_step now e s = Some (Returns s')" and "now \<le> T"
  shows "\<not> sv_ln s' \<and> (if e = Poll then 1 else 0) + polls_left T (sv_shut s') \<le> polls_left T (sv_shut s)"
proof (cases e)
  case (Accept res)
  with assms show ?thesis
    by (cases res) (auto simp: serve_turn_err serve_end_def accept_conn_eq listener_gives_def split: if_splits)
next
  case Poll
  with assms show ?thesis
    by (auto simp: shutdown_poll_eq Let_def polls_left_def split: shut_pc.splits if_splits)
next
  case (Signal b)
  with assms have "sv_shut s = ShutIdle" by (auto split: if_splits)
  with assms(1,2) have "sv_state s \<noteq> StateRunning"
    by (auto simp: grace_ok_def control_ok_def draining_def server_states split: main_pc.splits)
  with Signal assms show ?thesis by (auto simp: shutdown_start_def split: if_splits)
next
  case Tick
  with assms obtain d t where s: "sv_shut s = Selecting d t" "t \<le> now" "s' = s\<lparr>sv_shut := Polling d (t + 500)\<rparr>"
    by (auto split: shut_pc.splits if_splits)
  have "0 \<le> (T - t) div 500" using s(2) assms(4) by (intro div_int_pos_iff [THEN iffD2]) auto
  moreover have "(T - (t + 500)) div 500 = (T - t) div 500 - 1" by (simp add: algebra_simps)
  ultimately show ?thesis using s Tick assms(2) by (auto simp: polls_left_def)
next
  case CloseListener
  with assms have False
    by (auto simp: grace_ok_def control_ok_def draining_def split: shut_pc.splits main_pc.splits)
  then show ?thesis ..
qed (use assms in \<open>auto simp: conn_serve_eq conn_done_eq handover_def polls_left_def split: if_splits shut_pc.splits\<close>)

lemma polls_run:
  assumes "grace_ok s" and "\<not> sv_ln s" and "timed_run grace_step es s = Some (Returns s')" and "\<forall>x \<in> set es. fst x \<le> T"
  shows "int (polls es) + polls_left T (sv_shut s') \<le> polls_left T (sv_shut s)"
  using assms
proof (induction es arbitrary: s)
  case Nil
  then show ?case by (simp add: polls_def)
next
  case (Cons x es)
  obtain now e where x: "x = (now, e)" by fastforce
  with Cons.prems(3) obtain u where u: "grace_step now e s = Some (Returns u)" and r: "timed_run grace_step es u = Some (Returns s')"
    by (auto split: option.splits outcome.splits)
  have "grace_ok u" using grace_step_ok [OF Cons.prems(1) u] by simp
  moreover note poll_step [OF Cons.prems(1,2) u, of T]
  moreover have "polls (x # es) = (if e = Poll then 1 else 0) + polls es" by (simp add: polls_def x)
  ultimately show ?case using Cons.IH [of u] r Cons.prems(4) x by (auto split: if_splits)
qed

lemma polls_left_nonneg: "0 \<le> polls_left T p"
  by (simp add: polls_left_def split: shut_pc.splits)

text \<open>
  C39: Waiting for the connections to finish is bounded: after the listener was closed
  at the time \<open>t\<close> on SIGTERM, the polling loop runs at most 21 times before the deadline
  \<open>t + 10 s\<close>, whatever the connections do.
\<close>

theorem polls_bounded:
  assumes "timed_run grace_step es listening = Some (Returns s)"
    and "grace_step t CloseListener s = Some (Returns u)" and "sv_shut s = Closing TermTimeout"
    and "timed_run grace_step es' u = Some (Returns s')" and "\<forall>x \<in> set es'. fst x \<le> t + TermTimeout * 1000"
  shows "polls es' \<le> 21"
proof -
  have u: "u = shutdown_close TermTimeout t s" using assms(2,3) by simp
  have "grace_ok u" using grace_step_ok [OF run_from_listening [OF assms(1)] assms(2)] by simp
  moreover have "\<not> sv_ln u" and "sv_shut u = Polling (t + 10000) (t + 500)"
    by (simp_all add: u shutdown_close_def TermTimeout_def)
  ultimately show ?thesis
    using polls_run [OF _ _ assms(4,5)] polls_left_nonneg [of "t + TermTimeout * 1000" "sv_shut s'"]
    by (simp add: polls_left_def TermTimeout_def)
qed

text \<open>A signal that arrives before \<open>Serve\<close> has begun is dropped.\<close>

lemma early_signal_dropped:
  "grace_step now (Signal term) listening = Some (Returns listening)"
  by (simp add: shutdown_start_def listening_def server_states)

subsection \<open>An example run\<close>

text \<open>A connection is accepted and handled while the server is told to terminate.\<close>

definition demo_serve :: "(int \<times> grace_event) list" where
  "demo_serve = [(5000, StartServe), (5100, Accept (AcceptErr ''accept4: too many open files'' True)),
     (5105, Accept (AcceptConn ''10.0.0.2:4711'')), (5106, StartConn 0)]"

definition demo_close :: "(int \<times> grace_event) list" where
  "demo_close = [(6000, Signal True), (6001, CloseListener)]"

lemma demo_open_files: "\<not> Contains ''accept4: too many open files'' closed_text"
  by code_simp

lemma demo_serve_run:
  "\<exists>s. timed_run grace_step demo_serve listening = Some (Returns s) \<and> sv_next s = 1 \<and> sv_conns s 0 =
     \<lparr>cn_remote = ''10.0.0.2:4711'', cn_traceID = 1, cn_packed = pack_state (Unix 5106) StateActive, cn_open = True, cn_pc = Handling\<rparr>
     \<and> sv_main s = Accepting \<and> sv_state s = StateRunning \<and> sv_ln s \<and> sv_shut s = ShutIdle \<and> sv_activeConn s = [0] \<and> sv_wake s = 5105"
  using demo_open_files
  by (simp add: demo_serve_def listening_def serve_turn_err accept_conn_eq conn_serve_eq listener_gives_def
      accept_delay_def autoinc_ID_def autoinc_New_def UintMax_def server_states)

lemma demo_term_run:
  "\<exists>s. timed_run grace_step (demo_serve @ [(6000, Signal True)]) listening = Some (Returns s) \<and> sv_next s = 1
     \<and> cn_pc (sv_conns s 0) = Handling \<and> cn_open (sv_conns s 0) \<and> getState (sv_conns s 0) = (StateActive, 5)
     \<and> sv_main s = Accepting \<and> sv_state s = StateShuttingDown \<and> sv_ln s \<and> sv_shut s = Closing TermTimeout
     \<and> sv_activeConn s = [0] \<and> sv_wake s = 5105"
proof -
  obtain s where s: "timed_run grace_step demo_serve listening = Some (Returns s)" "sv_next s = 1" "sv_conns s 0 =
     \<lparr>cn_remote = ''10.0.0.2:4711'', cn_traceID = 1, cn_packed = pack_state (Unix 5106) StateActive, cn_open = True, cn_pc = Handling\<rparr>"
     "sv_main s = Accepting" "sv_state s = StateRunning" "sv_ln s" "sv_shut s = ShutIdle" "sv_activeConn s = [0]" "sv_wake s = 5105"
    using demo_serve_run by blast
  have "getState (sv_conns s 0) = (StateActive, 5)"
    by (simp add: s getState_def unpack_pack conn_states Unix_def)
  then show ?thesis
    using timed_run_append [OF s(1), of "[(6000, Signal True)]"] s(2-)
    by (simp add: shutdown_start_def)
qed

lemma demo_close_run:
  "\<exists>s. timed_run grace_step (demo_serve @ demo_close) listening = Some (Returns s) \<and> sv_next s = 1
     \<and> cn_pc (sv_conns s 0) = Handling \<and> cn_open (sv_conns s 0) \<and> getState (sv_conns s 0) = (StateActive, 5)
     \<and> sv_main s = Accepting \<and> sv_state s = StateShuttingDown \<and> \<not> sv_ln s \<and> sv_shut s = Polling 16001 6501
     \<and> sv_activeConn s = [0] \<and> sv_wake s = 5105"
proof -
  obtain s where s: "timed_run grace_step (demo_serve @ [(6000, Signal True)]) listening = Some (Returns s)" "sv_next s = 1"
     "cn_pc (sv_conns s 0) = Handling" "cn_open (sv_conns s 0)" "getState (sv_conns s 0) = (StateActive, 5)"
     "sv_main s = Accepting" "sv_state s = StateShuttingDown" "sv_ln s" "sv_shut s = Closing TermTimeout" "sv_activeConn s = [0]"
     "sv_wake s = 5105"
    using demo_term_run by blast
  then show ?thesis
    using timed_run_append [OF s(1), of "[(6001, CloseListener)]"]
    by (simp add: demo_close_def shutdown_close_def TermTimeout_def)
qed

theorem connection_states_witness:
  "\<exists>s. timed_run grace_step demo_serve listening = Some (Returns s)
     \<and> fst (getState (sv_conns s 0)) = StateActive \<and> 0 \<in> set (sv_activeConn s)"
proof -
  obtain s where s: "timed_run grace_step demo_serve listening = Some (Returns s)" "sv_next s = 1"
      "cn_pc (sv_conns s 0) = Handling" "cn_open (sv_conns s 0)"
    using demo_serve_run by auto
  with connection_states [OF s(1)] show ?thesis by (auto simp: conn_state_of_def)
qed


text \<open>The accept loop ends, and the connection is polled twice.\<close>

definition demo_drain :: "(int \<times> grace_event) list" where
  "demo_drain = [(6002, Accept (AcceptErr closed_text False)), (6003, Poll), (6501, Tick), (6502, Poll)]"

lemma demo_drain_run:
  assumes "sv_conns s 0 = cn" "getState cn = (StateActive, 5)" "sv_main s = Accepting" "sv_state s = StateShuttingDown"
    "\<not> sv_ln s" "sv_shut s = Polling 16001 6501" "sv_activeConn s = [0]" "sv_wake s = 5105"
  shows "\<exists>s'. timed_run grace_step demo_drain s = Some (Returns s') \<and> sv_shut s' = Selecting 16001 7001"
proof -
  have "\<not> reaped now cn" for now using assms(2) by (simp add: reaped_def conn_states)
  moreover have "Contains closed_text closed_text" by code_simp
  ultimately show ?thesis
    using assms by (simp add: demo_drain_def serve_turn_err serve_end_def listener_gives_def shutdown_poll_eq Let_def)
qed

theorem drain_keeps_requests_witness:
  "\<exists>s s'. timed_run grace_step (demo_serve @ demo_close) listening = Some (Returns s)
     \<and> timed_run grace_step demo_drain s = Some (Returns s') \<and> cn_open (sv_conns s' 0)"
proof -
  obtain s where s: "timed_run grace_step (demo_serve @ demo_close) listening = Some (Returns s)" "\<not> sv_ln s" "0 < sv_next s"
      "cn_pc (sv_conns s 0) = Handling" "cn_open (sv_conns s 0)"
      and d: "\<exists>s'. timed_run grace_step demo_drain s = Some (Returns s')"
    using demo_close_run demo_drain_run by fastforce
  from d obtain s' where "timed_run grace_step demo_drain s = Some (Returns s')" by blast
  with drain_keeps_requests [OF s this] s(1) show ?thesis by (auto simp: demo_drain_def)
qed

theorem shutdown_ends_witness:
  "\<exists>es s s'. timed_run grace_step (demo_serve @ demo_close) listening = Some (Returns s)
     \<and> timed_run grace_step es s = Some (Returns s') \<and> length es \<le> 4 \<and> sv_main s' = ServeReturned None"
proof -
  obtain s where s: "timed_run grace_step (demo_serve @ demo_close) listening = Some (Returns s)" "\<not> sv_ln s"
      "server_phase s = Draining 16001" "sv_wake s \<le> 16001"
    using demo_close_run by (auto simp: server_phase_def)
  with shutdown_ends [OF s(1,2) _ s(4)] show ?thesis by fastforce
qed

theorem polls_bounded_witness:
  "polls demo_drain = 2 \<and> polls demo_drain \<le> 21"
proof -
  obtain s where s: "timed_run grace_step (demo_serve @ [(6000, Signal True)]) listening = Some (Returns s)"
     "getState (sv_conns s 0) = (StateActive, 5)"
     "sv_main s = Accepting" "sv_state s = StateShuttingDown" "sv_shut s = Closing TermTimeout" "sv_activeConn s = [0]"
     "sv_wake s = 5105"
    using demo_term_run by blast
  let ?u = "shutdown_close TermTimeout 6001 s"
  have u: "grace_step 6001 CloseListener s = Some (Returns ?u)" using s(5) by simp
  obtain s' where "timed_run grace_step demo_drain ?u = Some (Returns s')"
    using demo_drain_run [of ?u "sv_conns s 0"] s by (auto simp: shutdown_close_def TermTimeout_def)
  from polls_bounded [OF s(1) u s(5) this] show ?thesis
    by (simp add: demo_drain_def polls_def TermTimeout_def)
qed

end
