(* ===== verification/Grace_Fork.thy ===== *)
theory Grace_Fork
  imports Grace_Server Go_Flag
begin

section \<open>Restarting without losing the listener\<close>

text \<open>
  The rest of the package \<open>grace\<close>: the registry of servers of a process and \<open>NewServer\<close>
  (\<open>grace.go\<close>), \<open>getListener\<close>, \<open>ListenAndServe\<close>, the signal hooks and \<open>handleSignals\<close>, and
  \<open>fork\<close>, which starts the new process with the listeners of the old one (\<open>server.go\<close>). A
  listener is a number that stands for the socket; starting a process, sending a signal and
  opening a socket are parameters.
\<close>

subsection \<open>grace.go: the registry\<close>

text \<open>The fields of a server the restart is about; the rest is in the theory on serving.\<close>

record grace_srv =
  gs_Addr :: string
  gs_Network :: string
  gs_isChild :: bool
  gs_ln :: "nat option"

text \<open>The package variables; \<open>isChild\<close> and \<open>socketOrder\<close> are set by the flags.\<close>

record registry =
  rg_runningServers :: "(string \<times> grace_srv) list"
  rg_runningServersOrder :: "string list"
  rg_socketPtrOffsetMap :: "(string \<times> nat) list"
  rg_runningServersForked :: bool
  rg_isChild :: bool
  rg_socketOrder :: string

definition grace_flags :: flagset where
  "grace_flags = [(''graceful'', FlagBool), (''socketorder'', FlagString)]"

definition grace_init :: "(string \<times> string) list \<Rightarrow> registry" where
  "grace_init sets =
     \<lparr>rg_runningServers = [], rg_runningServersOrder = [], rg_socketPtrOffsetMap = [],
      rg_runningServersForked = False, rg_isChild = flag_bool sets ''graceful'',
      rg_socketOrder = flag_get sets ''socketorder'' ''''\<rparr>"

text \<open>The loop over the pieces of the socket order, from index \<open>i\<close> on.\<close>

fun order_loop :: "nat \<Rightarrow> string list \<Rightarrow> (string \<times> nat) list \<Rightarrow> (string \<times> nat) list" where
  "order_loop i [] m = m"
| "order_loop i (a # as) m = order_loop (Suc i) as (AList.update a i m)"

definition grace_NewServer :: "string \<Rightarrow> string \<Rightarrow> registry \<Rightarrow> registry" where
  "grace_NewServer addr network rg =
     (let m = (if length (rg_socketOrder rg) > 0
               then order_loop 0 (Split (rg_socketOrder rg) '','') (rg_socketPtrOffsetMap rg)
               else AList.update addr (length (rg_runningServersOrder rg)) (rg_socketPtrOffsetMap rg));
          srv = \<lparr>gs_Addr = addr, gs_Network = network, gs_isChild = rg_isChild rg, gs_ln = None\<rparr>
      in rg\<lparr>rg_socketPtrOffsetMap := m, rg_runningServersOrder := rg_runningServersOrder rg @ [addr],
        rg_runningServers := AList.update addr srv (rg_runningServers rg)\<rparr>)"

text \<open>Reading a Go map at a missing key gives zero.\<close>

definition socket_offset :: "registry \<Rightarrow> string \<Rightarrow> nat" where
  "socket_offset rg addr = (case map_of (rg_socketPtrOffsetMap rg) addr of None \<Rightarrow> 0 | Some i \<Rightarrow> i)"

subsection \<open>server.go: the listener\<close>

text \<open>
  What the process can get a listener from: the inherited descriptors from 3 on
  (\<open>net.FileListener\<close> fails on one that is not a listening socket), and the network.
\<close>

record socket_env =
  se_inherited :: "nat option list"
  se_listen :: "string \<Rightarrow> string \<Rightarrow> nat + go_err"

definition getListener :: "socket_env \<Rightarrow> registry \<Rightarrow> grace_srv \<Rightarrow> string \<Rightarrow> nat + go_err" where
  "getListener se rg srv laddr =
     (if gs_isChild srv then
        let ptrOffset = (if length (rg_socketPtrOffsetMap rg) > 0 then socket_offset rg laddr else 0)
        in (case (if ptrOffset < length (se_inherited se) then se_inherited se ! ptrOffset else None) of
              Some l \<Rightarrow> Inl l
            | None \<Rightarrow> Inr (ErrMsg ''net.FileListener error''))
      else
        (case se_listen se (gs_Network srv) laddr of
           Inl l \<Rightarrow> Inl l
         | Inr err \<Rightarrow> Inr (ErrMsg ''net.Listen error'')))"

text \<open>
  \<open>ListenAndServe\<close> up to the call of \<open>Serve\<close>: the error, the server with its listener, and
  the process SIGTERM was sent to. \<open>kill\<close> is the outcome of finding and signalling it.
\<close>

definition grace_default_addr :: string where
  "grace_default_addr = '':3000''"

definition ListenAndServe ::
  "socket_env \<Rightarrow> registry \<Rightarrow> int \<Rightarrow> (int \<Rightarrow> go_err option) \<Rightarrow> grace_srv \<Rightarrow> go_err option \<times> grace_srv \<times> int option" where
  "ListenAndServe se rg ppid kill srv =
     (let addr = (if gs_Addr srv = '''' then grace_default_addr else gs_Addr srv)
      in case getListener se rg srv addr of
           Inr err \<Rightarrow> (Some err, srv, None)
         | Inl l \<Rightarrow>
             (let srv = srv\<lparr>gs_ln := Some l\<rparr>
              in if gs_isChild srv \<and> ppid \<noteq> 1 then
                   (case kill ppid of
                      Some err \<Rightarrow> (Some err, srv, None)
                    | None \<Rightarrow> (None, srv, Some ppid))
                 else (None, srv, None)))"

text \<open>The server in the registry is the same object, so its listener is seen there.\<close>

definition set_listener :: "string \<Rightarrow> nat \<Rightarrow> registry \<Rightarrow> registry" where
  "set_listener addr l rg =
     rg\<lparr>rg_runningServers := map (\<lambda>(a, srv). (a, if a = addr then srv\<lparr>gs_ln := Some l\<rparr> else srv)) (rg_runningServers rg)\<rparr>"

subsection \<open>server.go: signals\<close>

datatype signal = SIGHUP | SIGINT | SIGTERM | OtherSignal nat

definition hookableSignals :: "signal list" where
  "hookableSignals = [SIGHUP, SIGINT, SIGTERM]"

type_synonym 'h hooks = "nat \<Rightarrow> signal \<Rightarrow> 'h list option"

text \<open>The hook table \<open>NewServer\<close> creates.\<close>

definition no_hooks :: "'h hooks" where
  "no_hooks pp sig = (if pp \<in> {PreSignal, PostSignal} \<and> sig \<in> set hookableSignals then Some [] else None)"

definition RegisterSignalHook :: "nat \<Rightarrow> signal \<Rightarrow> 'h \<Rightarrow> 'h hooks \<Rightarrow> go_err option \<times> 'h hooks" where
  "RegisterSignalHook ppFlag sig f h =
     (if ppFlag \<noteq> PreSignal \<and> ppFlag \<noteq> PostSignal then (Some (ErrMsg ''Invalid ppFlag argument''), h)
      else if sig \<in> set hookableSignals then
        (None, h(ppFlag := (h ppFlag)(sig := Some (case h ppFlag sig of None \<Rightarrow> [f] | Some fs \<Rightarrow> fs @ [f]))))
      else (Some (ErrMsg ''Signal is not supported''), h))"

definition signalHooks :: "nat \<Rightarrow> signal \<Rightarrow> 'h hooks \<Rightarrow> 'h list" where
  "signalHooks ppFlag sig h = (case h ppFlag sig of None \<Rightarrow> [] | Some fs \<Rightarrow> fs)"

datatype 'h signal_action = RunHook 'h | DoFork | DoShutdown int

text \<open>What one turn of \<open>handleSignals\<close> does, in order.\<close>

definition handleSignal :: "signal \<Rightarrow> 'h hooks \<Rightarrow> 'h signal_action list" where
  "handleSignal sig h =
     map RunHook (signalHooks PreSignal sig h)
     @ (case sig of SIGHUP \<Rightarrow> [DoFork] | SIGINT \<Rightarrow> [DoShutdown 0] | SIGTERM \<Rightarrow> [DoShutdown TermTimeout] | OtherSignal n \<Rightarrow> [])
     @ map RunHook (signalHooks PostSignal sig h)"

subsection \<open>server.go: fork\<close>

text \<open>
  The loop that fills the tables of descriptors and addresses; an index past the end panics.
  The list of servers is the order in which the iteration over the map visits them.
\<close>

fun fork_loop :: "registry \<Rightarrow> (string \<times> grace_srv) list \<Rightarrow> nat option list \<Rightarrow> string list \<Rightarrow> (nat option list \<times> string list) outcome" where
  "fork_loop rg [] files orderArgs = Returns (files, orderArgs)"
| "fork_loop rg ((a, srv) # ss) files orderArgs =
     (let i = socket_offset rg (gs_Addr srv)
      in if i < length files then fork_loop rg ss (files[i := gs_ln srv]) (orderArgs[i := gs_Addr srv])
         else Panics)"

text \<open>The arguments of the new process.\<close>

definition fork_args :: "registry \<Rightarrow> string list \<Rightarrow> string list \<Rightarrow> string list" where
  "fork_args rg osArgs orderArgs =
     takeWhile (\<lambda>a. a \<noteq> ''-graceful'') (tl osArgs) @ [''-graceful'']
     @ (if length (rg_runningServers rg) > 1 then [''-socketorder='' @ Join orderArgs '',''] else [])"

text \<open>The start of the command fails: \<open>log.Fatalf\<close> ends the old process.\<close>

datatype fork_result = AlreadyForked | Started "string list" "nat option list" | Fatal

definition fork ::
  "string list \<Rightarrow> bool \<Rightarrow> (string \<times> grace_srv) list \<Rightarrow> registry \<Rightarrow> (fork_result \<times> registry) outcome" where
  "fork osArgs starts visited rg =
     (if rg_runningServersForked rg then Returns (AlreadyForked, rg)
      else
        let rg = rg\<lparr>rg_runningServersForked := True\<rparr>; n = length (rg_runningServers rg)
        in (case fork_loop rg visited (replicate n None) (replicate n '''') of
              Panics \<Rightarrow> Panics
            | Returns (files, orderArgs) \<Rightarrow>
                Returns (if starts then Started (fork_args rg osArgs orderArgs) files else Fatal, rg)))"

subsection \<open>The registry of a program\<close>

text \<open>A program that creates a server for each address, and the servers once they listen.\<close>

definition register_all :: "string \<Rightarrow> string list \<Rightarrow> registry \<Rightarrow> registry" where
  "register_all network as rg = fold (\<lambda>a rg. grace_NewServer a network rg) as rg"

definition all_listening :: "string list \<Rightarrow> nat list \<Rightarrow> registry \<Rightarrow> registry" where
  "all_listening as ls rg = fold (\<lambda>(a, l) rg. set_listener a l rg) (zip as ls) rg"

definition addresses_ok :: "string list \<Rightarrow> bool" where
  "addresses_ok as \<longleftrightarrow> as \<noteq> [] \<and> distinct as \<and> '''' \<notin> set as \<and> (\<forall>a \<in> set as. CHR '','' \<notin> set a)"

lemma Split_Join_comma:
  "as \<noteq> [] \<Longrightarrow> \<forall>a \<in> set as. CHR '','' \<notin> set a \<Longrightarrow> Split (Join as '','') '','' = as"
proof (induction as)
  case (Cons a as)
  then show ?case
    by (cases as) (simp_all add: Split_byte_none Split_byte_append)
qed simp

lemma order_loop_other: "a \<notin> set as \<Longrightarrow> map_of (order_loop k as m) a = map_of m a"
  by (induction k as m rule: order_loop.induct) (auto simp: AList.update_conv')

lemma order_loop_nth:
  "distinct as \<Longrightarrow> i < length as \<Longrightarrow> map_of (order_loop k as m) (as ! i) = Some (k + i)"
proof (induction k as m arbitrary: i rule: order_loop.induct)
  case (2 k a as m)
  then show ?case by (cases i) (auto simp: order_loop_other AList.update_conv')
qed simp

text \<open>What registering the first \<open>k\<close> of the addresses has set up.\<close>

definition registered :: "string \<Rightarrow> string list \<Rightarrow> nat \<Rightarrow> registry \<Rightarrow> bool" where
  "registered network as k rg \<longleftrightarrow>
     rg_runningServersOrder rg = take k as
     \<and> rg_runningServers rg = map (\<lambda>a. (a, \<lparr>gs_Addr = a, gs_Network = network, gs_isChild = rg_isChild rg, gs_ln = None\<rparr>)) (take k as)
     \<and> (\<forall>i < k. map_of (rg_socketPtrOffsetMap rg) (as ! i) = Some i)
     \<and> \<not> rg_runningServersForked rg
     \<and> (rg_socketOrder rg = '''' \<or> rg_socketOrder rg = Join as '','')"

lemma update_new: "a \<notin> fst ` set al \<Longrightarrow> AList.update a v al = al @ [(a, v)]"
  by (induction al) auto

lemma servers_registered_step:
  assumes "addresses_ok as" and "registered network as k rg" and "k < length as"
  shows "registered network as (Suc k) (grace_NewServer (as ! k) network rg)"
proof -
  have new: "as ! k \<notin> set (take k as)"
    using assms(1,3) by (auto simp: addresses_ok_def in_set_conv_nth nth_eq_iff_index_eq)
  then have run: "AList.update (as ! k) v (rg_runningServers rg) = rg_runningServers rg @ [(as ! k, v)]" for v
    using assms(2) by (intro update_new) (auto simp: registered_def)
  have "map_of (rg_socketPtrOffsetMap (grace_NewServer (as ! k) network rg)) (as ! i) = Some i" if "i < Suc k" for i
  proof (cases "rg_socketOrder rg = ''''")
    case True
    have "i < k \<or> i = k" using that by auto
    moreover have "i < k \<Longrightarrow> as ! i \<noteq> as ! k" using new assms(3) by (auto simp: in_set_conv_nth)
    ultimately show ?thesis
      using True assms(2,3) by (auto simp: grace_NewServer_def Let_def registered_def AList.update_conv')
  next
    case False
    with assms(1,2) have "Split (rg_socketOrder rg) '','' = as"
      using Split_Join_comma by (auto simp: registered_def addresses_ok_def)
    with False that assms(1,3) show ?thesis
      using order_loop_nth [of as i 0] by (simp add: grace_NewServer_def Let_def addresses_ok_def)
  qed
  with assms(2,3) run show ?thesis
    by (auto simp: registered_def grace_NewServer_def Let_def take_Suc_conv_app_nth)
qed

lemma register_all_ok:
  assumes "addresses_ok as" and "registered network as 0 rg"
  shows "registered network as (length as) (register_all network as rg)"
proof -
  have "registered network as k (register_all network (take k as) rg)" if "k \<le> length as" for k
    using that
  proof (induction k)
    case (Suc k)
    then show ?case
      using servers_registered_step [OF assms(1), of network k "register_all network (take k as) rg"]
      by (simp add: register_all_def take_Suc_conv_app_nth)
  qed (use assms in \<open>simp add: register_all_def\<close>)
  from this [of "length as"] show ?thesis by simp
qed

lemma set_listener_other [simp]:
  "rg_socketPtrOffsetMap (set_listener a l rg) = rg_socketPtrOffsetMap rg"
  "rg_runningServersForked (set_listener a l rg) = rg_runningServersForked rg"
  "map fst (rg_runningServers (set_listener a l rg)) = map fst (rg_runningServers rg)"
  by (simp_all add: set_listener_def split_def comp_def)

lemma all_listening_other:
  "rg_socketPtrOffsetMap (all_listening as ls rg) = rg_socketPtrOffsetMap rg
     \<and> rg_runningServersForked (all_listening as ls rg) = rg_runningServersForked rg
     \<and> map fst (rg_runningServers (all_listening as ls rg)) = map fst (rg_runningServers rg)"
proof -
  have "rg_socketPtrOffsetMap (fold (\<lambda>(a, l) rg. set_listener a l rg) xs rg) = rg_socketPtrOffsetMap rg
     \<and> rg_runningServersForked (fold (\<lambda>(a, l) rg. set_listener a l rg) xs rg) = rg_runningServersForked rg
     \<and> map fst (rg_runningServers (fold (\<lambda>(a, l) rg. set_listener a l rg) xs rg)) = map fst (rg_runningServers rg)" for xs
    by (induction xs arbitrary: rg) (simp_all add: split_def)
  then show ?thesis by (simp add: all_listening_def)
qed

lemma listening_servers:
  assumes "distinct as" and "length ls = length as" and "map fst (rg_runningServers rg) = as"
    and "(a, srv) \<in> set (rg_runningServers (all_listening as ls rg))"
  shows "\<exists>i srv0. i < length as \<and> a = as ! i \<and> (a, srv0) \<in> set (rg_runningServers rg) \<and> srv = srv0\<lparr>gs_ln := Some (ls ! i)\<rparr>"
proof -
  have gen: "(a, srv) \<in> set (rg_runningServers (fold (\<lambda>(a, l) rg. set_listener a l rg) xs rg)) \<Longrightarrow> distinct (map fst xs) \<Longrightarrow>
      \<exists>srv0. (a, srv0) \<in> set (rg_runningServers rg)
        \<and> srv = (case map_of xs a of None \<Rightarrow> srv0 | Some l \<Rightarrow> srv0\<lparr>gs_ln := Some l\<rparr>)" for xs rg
  proof (induction xs arbitrary: rg)
    case (Cons x xs)
    obtain b l where x: "x = (b, l)" by fastforce
    with Cons.prems Cons.IH [of "set_listener b l rg"] obtain srv0
      where "(a, srv0) \<in> set (rg_runningServers (set_listener b l rg))"
        and "srv = (case map_of xs a of None \<Rightarrow> srv0 | Some l \<Rightarrow> srv0\<lparr>gs_ln := Some l\<rparr>)" by auto
    moreover have "a = b \<Longrightarrow> map_of xs a = None" using Cons.prems(2) x by (auto simp: map_of_eq_None_iff)
    ultimately show ?case using x by (cases "a = b") (auto simp: set_listener_def)
  qed simp
  obtain srv0 where s: "(a, srv0) \<in> set (rg_runningServers rg)"
      "srv = (case map_of (zip as ls) a of None \<Rightarrow> srv0 | Some l \<Rightarrow> srv0\<lparr>gs_ln := Some l\<rparr>)"
    using gen [of "zip as ls" rg] assms(1,2,4) by (auto simp: all_listening_def)
  then have "a \<in> set as" using assms(3) by force
  then obtain i where i: "i < length as" "a = as ! i" by (auto simp: in_set_conv_nth)
  then have "map_of (zip as ls) a = Some (ls ! i)" using assms(1,2) by (simp add: map_of_zip_nth)
  with s i show ?thesis by auto
qed

text \<open>
  The tables of \<open>fork\<close> do not depend on the order of the iteration: at the offset of each
  address visited they hold its listener and the address.
\<close>

lemma fork_loop_result:
  assumes "\<forall>x \<in> set ss. socket_offset rg (gs_Addr (snd x)) < n \<and> gs_ln (snd x) = L (socket_offset rg (gs_Addr (snd x)))
      \<and> gs_Addr (snd x) = A (socket_offset rg (gs_Addr (snd x)))"
    and "length files = n" and "length ord = n"
  shows "\<exists>files' ord'. fork_loop rg ss files ord = Returns (files', ord') \<and> length files' = n \<and> length ord' = n
    \<and> (\<forall>i < n. (files' ! i, ord' ! i) =
        (if i \<in> (\<lambda>x. socket_offset rg (gs_Addr (snd x))) ` set ss then (L i, A i) else (files ! i, ord ! i)))"
  using assms
proof (induction rg ss files ord rule: fork_loop.induct)
  case (2 rg a srv ss files ord)
  let ?i = "socket_offset rg (gs_Addr srv)"
  have i: "?i < n" "gs_ln srv = L ?i" "gs_Addr srv = A ?i" using 2(2) by auto
  obtain files' ord' where r: "fork_loop rg ss (files[?i := gs_ln srv]) (ord[?i := gs_Addr srv]) = Returns (files', ord')"
      "length files' = n" "length ord' = n"
      "\<forall>i < n. (files' ! i, ord' ! i) =
        (if i \<in> (\<lambda>x. socket_offset rg (gs_Addr (snd x))) ` set ss then (L i, A i)
         else (files[?i := gs_ln srv] ! i, ord[?i := gs_Addr srv] ! i))"
    using 2(1) [OF refl] i(1) 2(2-4) by auto
  show ?case
  proof (intro exI conjI allI impI)
    show "fork_loop rg ((a, srv) # ss) files ord = Returns (files', ord')" using r(1) i(1) 2(3) by (simp add: Let_def)
    fix j assume "j < n"
    then show "(files' ! j, ord' ! j) = (if j \<in> (\<lambda>x. socket_offset rg (gs_Addr (snd x))) ` set ((a, srv) # ss)
        then (L j, A j) else (files ! j, ord ! j))"
      using r(4) i 2(3,4) by (cases "j = ?i") auto
  qed (use r in auto)
qed simp

lemma fork_tables:
  assumes ok: "addresses_ok as" and reg: "registered network as (length as) rg" and ls: "length ls = length as"
    and vis: "set visited = set (rg_runningServers (all_listening as ls rg))"
  shows "fork_loop (all_listening as ls rg) visited (replicate (length as) None) (replicate (length as) '''')
    = Returns (map Some ls, as)"
proof -
  let ?rg = "all_listening as ls rg"
  have d: "distinct as" using ok by (simp add: addresses_ok_def)
  have m: "map fst (rg_runningServers rg) = as" using reg by (simp add: registered_def o_def)
  have off: "i < length as \<Longrightarrow> socket_offset ?rg (as ! i) = i" for i
    using reg by (simp add: socket_offset_def all_listening_other registered_def)
  have srv: "\<exists>i. i < length as \<and> gs_Addr srv = as ! i \<and> gs_ln srv = Some (ls ! i)" if "(a, srv) \<in> set visited" for a srv
    using listening_servers [OF d ls m, of a srv] that vis reg by (fastforce simp: registered_def)
  have all: "i \<in> (\<lambda>x. socket_offset ?rg (gs_Addr (snd x))) ` set visited" if "i < length as" for i
  proof -
    have "fst ` set (rg_runningServers ?rg) = set as"
      using all_listening_other [of as ls rg] m by (metis list.set_map)
    then have "as ! i \<in> fst ` set visited" using vis that by simp
    then obtain s where s: "(as ! i, s) \<in> set visited" by auto
    have "gs_Addr s = as ! i"
      using listening_servers [OF d ls m, of "as ! i" s] s vis reg by (fastforce simp: registered_def)
    with s off [OF that] show ?thesis by force
  qed
  obtain files ord where f: "fork_loop ?rg visited (replicate (length as) None) (replicate (length as) '''') = Returns (files, ord)"
      "length files = length as" "length ord = length as"
      "\<forall>i < length as. (files ! i, ord ! i) = (Some (ls ! i), as ! i)"
  proof -
    have "\<forall>x \<in> set visited. socket_offset ?rg (gs_Addr (snd x)) < length as
        \<and> gs_ln (snd x) = Some (ls ! socket_offset ?rg (gs_Addr (snd x)))
        \<and> gs_Addr (snd x) = as ! socket_offset ?rg (gs_Addr (snd x))"
      using srv off by (metis prod.collapse)
    from fork_loop_result [OF this, of "replicate (length as) None" "replicate (length as) ''''"] all
    show thesis by (auto intro: that)
  qed
  then have "files = map Some ls" "ord = as" using ls by (auto intro: nth_equalityI)
  then show ?thesis using f(1) by simp
qed

subsection \<open>The flags of the new process\<close>

lemma graceful_flags:
  assumes "map_of fs ''graceful'' = Some FlagBool" and "map_of fs ''socketorder'' = Some FlagString"
  shows "flag_Parse fs [''-graceful''] = Some ([(''graceful'', ''true'')], [])"
    and "flag_Parse fs [''-graceful'', ''-socketorder='' @ x] = Some ([(''graceful'', ''true''), (''socketorder'', x)], [])"
proof -
  have g: "flag_name ''graceful'' = (''graceful'', None)" by (simp add: flag_name_def)
  have so: "flag_name (''socketorder='' @ x) = (''socketorder'', Some x)" by (simp add: flag_name_def)
  show "flag_Parse fs [''-graceful''] = Some ([(''graceful'', ''true'')], [])"
    using assms(1) g by (simp add: flag_Parse.simps(2) flag_cons_def flag_ok_def ParseBool_def)
  have "flag_Parse fs [''-socketorder='' @ x] = Some ([(''socketorder'', x)], [])"
    using assms(2) so by (simp add: flag_Parse.simps(2) flag_cons_def flag_ok_def)
  then show "flag_Parse fs [''-graceful'', ''-socketorder='' @ x] = Some ([(''graceful'', ''true''), (''socketorder'', x)], [])"
    using assms(1) g by (simp add: flag_Parse.simps(2) [of fs "''-graceful''"] flag_cons_def flag_ok_def ParseBool_def)
qed

lemma register_all_flags:
  "rg_isChild (register_all network as rg) = rg_isChild rg \<and> rg_socketOrder (register_all network as rg) = rg_socketOrder rg"
  unfolding register_all_def
  by (induction as arbitrary: rg) (simp_all add: grace_NewServer_def Let_def)

lemma registered_init:
  "flag_get sets ''socketorder'' '''' \<in> {'''', Join as '',''} \<Longrightarrow> registered network as 0 (grace_init sets)"
  by (auto simp: registered_def grace_init_def)

lemma child_listener:
  assumes "addresses_ok as" and "registered network as (length as) cg" and "rg_isChild cg"
    and "length ls = length as" and "i < length as"
  shows "getListener \<lparr>se_inherited = map Some ls, se_listen = lis\<rparr> cg (the (map_of (rg_runningServers cg) (as ! i))) (as ! i)
    = Inl (ls ! i)"
proof -
  have "map_of (rg_socketPtrOffsetMap cg) (as ! i) = Some i" using assms(2,5) by (simp add: registered_def)
  moreover from this have "rg_socketPtrOffsetMap cg \<noteq> []" by auto
  moreover have "map_of (map (\<lambda>a. (a, h a)) as) (as ! i) = Some (h (as ! i))" for h :: "string \<Rightarrow> grace_srv"
    using assms(5) by (metis map_of_map_restrict nth_mem restrict_map_def comp_apply)
  then have "map_of (rg_runningServers cg) (as ! i) =
      Some \<lparr>gs_Addr = as ! i, gs_Network = network, gs_isChild = rg_isChild cg, gs_ln = None\<rparr>"
    using assms(2) by (simp add: registered_def)
  ultimately show ?thesis using assms(3,4,5) by (simp add: getListener_def socket_offset_def)
qed

text \<open>The new process, in detail.\<close>

lemma fork_hands_over:
  assumes ok: "addresses_ok as" and ls: "length ls = length as"
    and fs: "map_of fs ''graceful'' = Some FlagBool" "map_of fs ''socketorder'' = Some FlagString"
    and old: "flag_get sets0 ''socketorder'' '''' \<in> {'''', Join as '',''}"
    and rg: "rg = all_listening as ls (register_all network as (grace_init sets0))"
    and vis: "set visited = set (rg_runningServers rg)"
    and args: "flag_Parse fs (takeWhile (\<lambda>a. a \<noteq> ''-graceful'') (tl osArgs)) = Some (sets, [])"
      "''--'' \<notin> set (tl osArgs)" "''socketorder'' \<notin> fst ` set sets"
  shows "\<exists>new files rg' sets' cg.
    fork osArgs True visited rg = Returns (Started new files, rg')
    \<and> fork osArgs True visited rg' = Returns (AlreadyForked, rg')
    \<and> flag_Parse fs new = Some (sets', [])
    \<and> new = takeWhile (\<lambda>a. a \<noteq> ''-graceful'') (tl osArgs) @ ''-graceful''
        # (if length as > 1 then [''-socketorder='' @ Join as '',''] else [])
    \<and> sets' = sets @ (''graceful'', ''true'') # (if length as > 1 then [(''socketorder'', Join as '','')] else [])
    \<and> cg = register_all network as (grace_init sets')
    \<and> (\<forall>i < length as. getListener \<lparr>se_inherited = files, se_listen = lis\<rparr> cg
          (the (map_of (rg_runningServers cg) (as ! i))) (as ! i) = Inl (ls ! i))
    \<and> takeWhile (\<lambda>a. a \<noteq> ''-graceful'') new = takeWhile (\<lambda>a. a \<noteq> ''-graceful'') (tl osArgs)
    \<and> flag_get sets' ''socketorder'' '''' \<in> {'''', Join as '',''}"
proof -
  let ?base = "takeWhile (\<lambda>a. a \<noteq> ''-graceful'') (tl osArgs)"
  let ?more = "if length as > 1 then [''-socketorder='' @ Join as '',''] else []"
  let ?set = "(''graceful'', ''true'') # (if length as > 1 then [(''socketorder'', Join as '','')] else [])"
  let ?rg0 = "register_all network as (grace_init sets0)"
  have reg: "registered network as (length as) ?rg0" by (rule register_all_ok [OF ok registered_init [OF old]])
  have "map fst (rg_runningServers rg) = map fst (rg_runningServers ?rg0)" by (simp add: rg all_listening_other)
  moreover have "length (rg_runningServers ?rg0) = length as" using reg by (simp add: registered_def)
  ultimately have n: "length (rg_runningServers rg) = length as" by (metis length_map)
  have nf: "\<not> rg_runningServersForked rg" using reg by (simp add: rg all_listening_other registered_def)
  let ?rg' = "rg\<lparr>rg_runningServersForked := True\<rparr>"
  have "fork_loop ?rg' ss files ord = fork_loop rg ss files ord" for ss files ord
    by (induction ss arbitrary: files ord) (auto simp: Let_def socket_offset_def)
  then have f: "fork osArgs True visited rg = Returns (Started (?base @ ''-graceful'' # ?more) (map Some ls), ?rg')"
    using fork_tables [OF ok reg ls vis [unfolded rg]] n nf by (simp add: fork_def Let_def fork_args_def flip: rg)
  have "''--'' \<notin> set ?base" using args(2) set_takeWhileD by fastforce
  then have p: "flag_Parse fs (?base @ ''-graceful'' # ?more) = Some (sets @ ?set, [])"
    using flag_Parse_append [OF args(1)] graceful_flags [OF fs] by simp
  have so: "flag_get (sets @ ?set) ''socketorder'' '''' \<in> {'''', Join as '',''}"
  proof -
    have "map_of (rev sets) ''socketorder'' = None" using args(3) by (simp add: map_of_eq_None_iff)
    then show ?thesis by (simp add: flag_get_def map_add_def)
  qed
  have ch: "flag_bool (sets @ ?set) ''graceful''"
    by (simp add: flag_bool_def flag_get_def ParseBool_def)
  let ?cg = "register_all network as (grace_init (sets @ ?set))"
  have "registered network as (length as) ?cg" by (rule register_all_ok [OF ok registered_init [OF so]])
  moreover have "rg_isChild ?cg" using ch by (simp add: register_all_flags grace_init_def)
  ultimately have l: "\<forall>i < length as. getListener \<lparr>se_inherited = map Some ls, se_listen = lis\<rparr> ?cg
      (the (map_of (rg_runningServers ?cg) (as ! i))) (as ! i) = Inl (ls ! i)"
    using child_listener [OF ok _ _ ls] by blast
  have t: "takeWhile (\<lambda>a. a \<noteq> ''-graceful'') (?base @ ''-graceful'' # ?more) = ?base"
    by (simp add: takeWhile_append2 takeWhile_tail)
  show ?thesis
    by (intro exI [of _ "?base @ ''-graceful'' # ?more"] exI [of _ "map Some ls"] exI [of _ ?rg']
        exI [of _ "sets @ ?set"] exI [of _ ?cg])
      (use f p so l t in \<open>simp add: fork_def\<close>)
qed

text \<open>
  C14: A restart hands every listener on. When a process that created servers for distinct
  addresses forks, the new process parses the arguments it is given, creates the same
  servers, and each of them takes over exactly the listener its address had in the old
  process, in whatever order the old process walked through its map of servers. The old
  process does not fork twice, and the new one can be restarted in the same way.
\<close>

theorem restart_keeps_listeners:
  assumes ok: "addresses_ok as" and ls: "length ls = length as"
    and fs: "map_of fs ''graceful'' = Some FlagBool" "map_of fs ''socketorder'' = Some FlagString"
    and old: "flag_get sets0 ''socketorder'' '''' \<in> {'''', Join as '',''}"
    and rg: "rg = all_listening as ls (register_all network as (grace_init sets0))"
    and vis: "set visited = set (rg_runningServers rg)"
    and args: "flag_Parse fs (takeWhile (\<lambda>a. a \<noteq> ''-graceful'') (tl osArgs)) = Some (sets, [])"
      "''--'' \<notin> set (tl osArgs)" "''socketorder'' \<notin> fst ` set sets"
  shows "\<exists>new files rg' sets' cg.
    fork osArgs True visited rg = Returns (Started new files, rg')
    \<and> fork osArgs True visited rg' = Returns (AlreadyForked, rg')
    \<and> flag_Parse fs new = Some (sets', [])
    \<and> cg = register_all network as (grace_init sets')
    \<and> (\<forall>i < length as. getListener \<lparr>se_inherited = files, se_listen = lis\<rparr> cg
          (the (map_of (rg_runningServers cg) (as ! i))) (as ! i) = Inl (ls ! i))
    \<and> takeWhile (\<lambda>a. a \<noteq> ''-graceful'') new = takeWhile (\<lambda>a. a \<noteq> ''-graceful'') (tl osArgs)
    \<and> flag_get sets' ''socketorder'' '''' \<in> {'''', Join as '',''}"
  using fork_hands_over [OF assms, of lis] by blast

text \<open>Two servers and the command line of a process that was started with a flag.\<close>

definition demo_addresses :: "string list" where
  "demo_addresses = [''127.0.0.1:3000'', '':8080'']"

theorem restart_keeps_listeners_witness:
  "\<exists>new files rg' cg.
    fork [''anyproxy'', ''-l'', ''127.0.0.1:3000''] True
      (rev (rg_runningServers (all_listening demo_addresses [7, 9] (register_all ''tcp'' demo_addresses (grace_init [])))))
      (all_listening demo_addresses [7, 9] (register_all ''tcp'' demo_addresses (grace_init [])))
      = Returns (Started new files, rg')
    \<and> getListener \<lparr>se_inherited = files, se_listen = (\<lambda>n a. Inr EOF)\<rparr> cg (the (map_of (rg_runningServers cg) '':8080'')) '':8080'' = Inl 9"
proof -
  have a: "addresses_ok demo_addresses" by (simp add: addresses_ok_def demo_addresses_def)
  have p: "flag_Parse (grace_flags @ [(''l'', FlagString)])
      (takeWhile (\<lambda>a. a \<noteq> ''-graceful'') (tl [''anyproxy'', ''-l'', ''127.0.0.1:3000'']))
      = Some ([(''l'', ''127.0.0.1:3000'')], [])"
    by (simp add: flag_Parse.simps(2) grace_flags_def flag_name_def flag_cons_def flag_ok_def)
  have d: "demo_addresses ! 1 = '':8080''" "length demo_addresses = 2" by (simp_all add: demo_addresses_def)
  obtain new files rg' cg where "fork [''anyproxy'', ''-l'', ''127.0.0.1:3000''] True
      (rev (rg_runningServers (all_listening demo_addresses [7, 9] (register_all ''tcp'' demo_addresses (grace_init [])))))
      (all_listening demo_addresses [7, 9] (register_all ''tcp'' demo_addresses (grace_init []))) = Returns (Started new files, rg')"
    and l: "\<forall>i < length demo_addresses. getListener \<lparr>se_inherited = files, se_listen = (\<lambda>n a. Inr EOF)\<rparr> cg
        (the (map_of (rg_runningServers cg) (demo_addresses ! i))) (demo_addresses ! i) = Inl ([7, 9] ! i)"
    using restart_keeps_listeners [OF a _ _ _ _ refl set_rev p, of "[7, 9]" "[]" "''tcp''" "\<lambda>n a. Inr EOF"]
    by (auto simp: grace_flags_def flag_get_def d)
  moreover have "getListener \<lparr>se_inherited = files, se_listen = (\<lambda>n a. Inr EOF)\<rparr> cg
      (the (map_of (rg_runningServers cg) '':8080'')) '':8080'' = Inl 9"
    using l [rule_format, of 1] d by simp
  ultimately show ?thesis by blast
qed

text \<open>
  The offsets are those of the addresses given to \<open>NewServer\<close>, but \<open>ListenAndServe\<close> looks its
  own default address up: a restarted server without an address takes the first socket.
\<close>

lemma default_address_first_socket:
  assumes "CHR '','' \<notin> set a" and "a \<noteq> ''''" and "a \<noteq> grace_default_addr"
    and "rg_isChild rg" and "rg_socketOrder rg = Join [a, ''''] '',''" and "rg_socketPtrOffsetMap rg = []"
    and "cg = register_all network [a, ''''] rg"
    and "srv = \<lparr>gs_Addr = '''', gs_Network = network, gs_isChild = True, gs_ln = None\<rparr>"
  shows "ListenAndServe \<lparr>se_inherited = [Some l, Some m], se_listen = lis\<rparr> cg 1 kill srv = (None, srv\<lparr>gs_ln := Some l\<rparr>, None)"
proof -
  have "Split (a @ '','') '','' = [a, '''']" using assms(1) by (simp add: Split_byte_append Split_byte_none)
  then have "rg_socketPtrOffsetMap cg = [(a, 0), ('''', 1)]"
    using assms(2,5-7) by (simp add: register_all_def grace_NewServer_def Let_def)
  then show ?thesis
    using assms(3,8) by (simp add: ListenAndServe_def getListener_def socket_offset_def grace_default_addr_def)
qed

text \<open>Two servers with one address: the table of descriptors is too short.\<close>

lemma fork_duplicate_panics:
  assumes "rg = register_all network [a, a] (grace_init [])"
  shows "fork osArgs starts (rg_runningServers rg) rg = Panics"
  using assms
  by (simp add: fork_def register_all_def grace_NewServer_def grace_init_def flag_get_def flag_bool_def ParseBool_def
      Let_def socket_offset_def)

end
