(* ===== verification/Main_Program.thy ===== *)
theory Main_Program
  imports Log_Writer Grace_Fork
begin

section \<open>The main program\<close>

text \<open>
  \<open>anyproxy.go\<close>: the flags, and what \<open>main\<close> does with them up to the call of
  \<open>ListenAndServe\<close>: which address, port, proxy, log files, websocket roles, network and
  handler the process gets, or how it ends before. The configuration that
  \<open>LoadAllConfig\<close> leaves behind is the parameter \<open>conf\<close>. The profiling and websocket servers
  are goroutines; the plan holds the addresses they are started with.
\<close>

subsection \<open>The flags\<close>

definition main_flags :: flagset where
  "main_flags = grace_flags @
     [(''daemon'', FlagBool), (''l'', FlagString), (''p'', FlagString), (''c'', FlagString), (''ws-listen'', FlagString),
      (''ws-connect'', FlagString), (''mode'', FlagString), (''debug'', FlagInt), (''pprof'', FlagString),
      (''v'', FlagBool), (''h'', FlagBool)]"

record gflags =
  gListenAddrPort :: string
  gProxyServerSpec :: string
  gConfigFile :: string
  gWebsocketListen :: string
  gWebsocketConn :: string
  gMode :: string
  gHelp :: bool
  gDebug :: int
  gPprof :: string
  gVersion :: bool
  gDaemon :: bool

definition main_values :: "(string \<times> string) list \<Rightarrow> gflags" where
  "main_values sets =
     \<lparr>gListenAddrPort = flag_get sets ''l'' '''', gProxyServerSpec = flag_get sets ''p'' '''',
      gConfigFile = flag_get sets ''c'' '''', gWebsocketListen = flag_get sets ''ws-listen'' '''',
      gWebsocketConn = flag_get sets ''ws-connect'' '''', gMode = flag_get sets ''mode'' '''',
      gHelp = flag_bool sets ''h'', gDebug = flag_int sets ''debug'', gPprof = flag_get sets ''pprof'' '''',
      gVersion = flag_bool sets ''v'', gDaemon = flag_bool sets ''daemon''\<rparr>"

subsection \<open>The process\<close>

text \<open>
  What \<open>main\<close> finds around it: the arguments, the environment, the parent, the directory
  of the program, the configuration file's content by path, the state of the log
  directory, the error of opening the error log, and the result of forking.
\<close>

record process =
  pr_Args :: "string list"
  pr_Getenv :: "string \<Rightarrow> string"
  pr_Getppid :: int
  pr_AppPath :: string
  pr_conf :: "string \<Rightarrow> router option"
  pr_stat :: "string \<Rightarrow> stat_result"
  pr_open_err :: "string \<Rightarrow> go_err option"
  pr_fork :: "string list \<Rightarrow> int go_ret"

datatype run_mode = TunnelServer | ProxyClient

record run_plan =
  rp_cfg :: settings
  rp_log :: logger
  rp_pprof :: "string option"
  rp_ws_listen :: "string option"
  rp_ws_connect :: "string option"
  rp_network :: string
  rp_addr :: string
  rp_mode :: run_mode

datatype main_end =
    FlagError
  | ShowUsage
  | ShowVersion
  | Exit int
  | LogFatal
  | Parent "string list"
  | Serve run_plan

definition cmdName :: string where
  "cmdName = ''anyproxy''"

definition envRunMode :: string where
  "envRunMode = cmdName @ ''_run_mode''"

definition log_dir :: "process \<Rightarrow> router \<Rightarrow> string" where
  "log_dir pr conf = IfEmptyThen (r_LogDir conf) (pr_AppPath pr @ ''/'' @ ''logs'' @ ''/'') ''''"

text \<open>From the flags, the configuration and whether the process is in the foreground.\<close>

definition main_plan :: "gflags \<Rightarrow> router \<Rightarrow> string \<Rightarrow> bool \<Rightarrow> run_plan" where
  "main_plan g conf logDir foreground =
     (let cfg = SetDebugLevel (gDebug g) init_settings;
          addr = FillPort (IfEmptyThen (gListenAddrPort g) (r_Listen conf) '':3000'');
          cfg = SetListenPort addr cfg;
          lg = SetDefaultLogger cfg logDir (cmdName @ ''.'' @ port_str (ListenPort cfg)) True 3 foreground;
          cfg = SetProxyServer (IfEmptyThen (gProxyServerSpec g) (d_Proxy (r_Default conf)) '''') cfg;
          wsl = IfEmptyThen (gWebsocketListen g) (ws_Listen (r_Websocket conf)) '''';
          wsc = IfEmptyThen (gWebsocketConn g) (ws_Connect (r_Websocket conf)) ''''
      in \<lparr>rp_cfg = cfg, rp_log = lg,
          rp_pprof = (if length (gPprof g) > 0 then Some (FillPort (gPprof g)) else None),
          rp_ws_listen = (if wsl \<noteq> '''' then Some (FillPort wsl) else None),
          rp_ws_connect = (if wsc \<noteq> '''' then Some (FillPort wsc) else None),
          rp_network = (if r_Network conf \<noteq> '''' then r_Network conf else ''tcp''),
          rp_addr = addr,
          rp_mode = (if gMode g = ''tunnel'' then TunnelServer else ProxyClient)\<rparr>)"

definition main :: "process \<Rightarrow> main_end" where
  "main pr =
     (case flag_Parse main_flags (tl (pr_Args pr)) of
        None \<Rightarrow> FlagError
      | Some (sets, rest) \<Rightarrow>
          let g = main_values sets
          in if gHelp g then ShowUsage
             else if gVersion g then ShowVersion
             else
               (case pr_conf pr (gConfigFile g) of
                  None \<Rightarrow> Exit 2
                | Some conf \<Rightarrow>
                    let logDir = log_dir pr conf
                    in if pr_stat pr logDir \<noteq> StatOk then Exit 2
                       else
                         (case ErrlogFd (pr_stat pr logDir) None (pr_open_err pr) logDir cmdName of
                            None \<Rightarrow> LogFatal
                          | Some fd \<Rightarrow>
                              (case Daemonize (gDaemon g) (pr_Getppid pr) (pr_Args pr) of
                                 Continue \<Rightarrow> Serve (main_plan g conf logDir (IsForeground (pr_Getenv pr) envRunMode))
                               | ForkChild args \<Rightarrow>
                                   (case pr_fork pr args of
                                      (pid, Some err) \<Rightarrow> LogFatal
                                    | (pid, None) \<Rightarrow>
                                        if pid > 0 then Parent args
                                        else Serve (main_plan g conf logDir (IsForeground (pr_Getenv pr) envRunMode)))))))"

subsection \<open>Address and port\<close>

text \<open>The forms of an address: a port, a colon and a port, a host and a port.\<close>

definition names_port :: "string \<Rightarrow> 16 word \<Rightarrow> bool" where
  "names_port spec w \<longleftrightarrow> spec = port_str w \<or> (\<exists>h. spec = h @ CHR '':'' # port_str w)"

lemma names_port_fill:
  assumes "names_port spec w"
  shows "\<exists>h. FillPort spec = h @ CHR '':'' # port_str w"
  using assms
proof (cases "spec = port_str w")
  case True
  then show ?thesis by (intro exI [of _ "''''"]) simp
next
  case False
  with assms obtain h where "spec = h @ CHR '':'' # port_str w" by (auto simp: names_port_def)
  then show ?thesis by (intro exI [of _ h]) simp
qed

lemma SetListenPort_port: "ListenPort (SetListenPort (h @ CHR '':'' # port_str w) cfg) = w"
  by (simp add: SetListenPort_def colon_notin_port Atoi_port_str uint16_uint)

lemma SetProxyServer_ListenPort [simp]: "ListenPort (SetProxyServer spec cfg) = ListenPort cfg"
  by (simp add: SetProxyServer_def Let_def split: option.splits prod.splits)

lemma main_Serve:
  "main pr = Serve plan \<Longrightarrow> \<exists>sets rest conf b. flag_Parse main_flags (tl (pr_Args pr)) = Some (sets, rest)
     \<and> pr_conf pr (gConfigFile (main_values sets)) = Some conf \<and> plan = main_plan (main_values sets) conf (log_dir pr conf) b"
  by (auto simp: main_def Let_def split: option.splits if_splits daemon_action.splits prod.splits)

text \<open>
  C31: One port throughout. Whatever of the flag, the configuration and the default
  determines the address, when it names a port, alone or behind a colon, then the process
  listens on an address with that port, takes it for its own port in the check against
  loops and in the connections of the websocket client to itself, and names its log files
  after it.
\<close>

theorem one_port_throughout:
  assumes "main pr = Serve plan" and "flag_Parse main_flags (tl (pr_Args pr)) = Some (sets, rest)"
    and "pr_conf pr (flag_get sets ''c'' '''') = Some conf"
    and "names_port (IfEmptyThen (flag_get sets ''l'' '''') (r_Listen conf) '':3000'') w"
  shows "(\<exists>h. rp_addr plan = h @ CHR '':'' # port_str w) \<and> GetPort (rp_addr plan) = port_str w
    \<and> ListenPort (rp_cfg plan) = w \<and> tw_Prefix (lg_file (rp_log plan)) = ''anyproxy.'' @ port_str w"
proof -
  obtain b where p: "plan = main_plan (main_values sets) conf (log_dir pr conf) b"
    using main_Serve [OF assms(1)] assms(2,3) by (auto simp: main_values_def)
  obtain h where h: "FillPort (IfEmptyThen (flag_get sets ''l'' '''') (r_Listen conf) '':3000'') = h @ CHR '':'' # port_str w"
    using names_port_fill [OF assms(4)] by blast
  then show ?thesis
    by (simp add: p main_plan_def Let_def main_values_def SetListenPort_port SetDefaultLogger_def cmdName_def colon_notin_port)
qed

subsection \<open>Restarting the program\<close>

lemma main_flags_graceful:
  "map_of main_flags ''graceful'' = Some FlagBool" "map_of main_flags ''socketorder'' = Some FlagString"
  by (simp_all add: main_flags_def grace_flags_def)

lemma main_values_graceful: "main_values (sets @ [(''graceful'', v)]) = main_values sets"
  by (simp add: main_values_def flag_get_def flag_bool_def flag_int_def)

lemma main_cong:
  assumes "flag_Parse main_flags (tl args) = Some (sets, rest)" and "flag_Parse main_flags (tl (pr_Args pr)) = Some (sets', rest')"
    and "main_values sets = main_values sets'" and "\<not> gDaemon (main_values sets')"
  shows "main (pr\<lparr>pr_Args := args, pr_Getppid := ppid\<rparr>) = main pr"
proof -
  have d: "Daemonize False p as = Continue" for p as by (simp add: Daemonize_def)
  from assms(4) have g: "gDaemon (main_values sets') = False" by simp
  have l: "log_dir (pr\<lparr>pr_Args := args, pr_Getppid := ppid\<rparr>) = log_dir pr" by (simp add: log_dir_def fun_eq_iff)
  show ?thesis
    by (simp add: main_def Let_def assms(1,2,3) g d l del: flag_Parse.simps cong: option.case_cong if_cong)
qed

text \<open>
  C27: A restart changes nothing but the process. When a running program that was not asked
  to become a daemon forks on SIGHUP, the new process computes from the arguments it is
  given the same plan: address, ports, proxy, log files, websocket roles, network and
  handler; and its server takes over the listening socket of the old one.
\<close>

theorem restart_same_plan:
  assumes "main pr = Serve plan" and "flag_Parse main_flags (tl (pr_Args pr)) = Some (sets, [])"
    and "''--'' \<notin> set (tl (pr_Args pr))" and "''-graceful'' \<notin> set (tl (pr_Args pr))"
    and "''socketorder'' \<notin> fst ` set sets" and "\<not> gDaemon (main_values sets)"
    and "rp_addr plan \<noteq> ''''" and "CHR '','' \<notin> set (rp_addr plan)"
    and "rg = set_listener (rp_addr plan) l (grace_NewServer (rp_addr plan) (rp_network plan) (grace_init sets))"
  shows "\<exists>new files rg' sets' cg.
    fork (pr_Args pr) True (rg_runningServers rg) rg = Returns (Started new files, rg')
    \<and> main (pr\<lparr>pr_Args := exe # new, pr_Getppid := ppid\<rparr>) = Serve plan
    \<and> flag_Parse main_flags new = Some (sets', [])
    \<and> cg = grace_NewServer (rp_addr plan) (rp_network plan) (grace_init sets')
    \<and> getListener \<lparr>se_inherited = files, se_listen = lis\<rparr> cg
        (the (map_of (rg_runningServers cg) (rp_addr plan))) (rp_addr plan) = Inl l"
proof -
  let ?as = "[rp_addr plan]"
  have a: "addresses_ok ?as" using assms(7,8) by (simp add: addresses_ok_def)
  have t: "takeWhile (\<lambda>a. a \<noteq> ''-graceful'') (tl (pr_Args pr)) = tl (pr_Args pr)"
    by (rule takeWhile_eq_all_conv [THEN iffD2]) (use assms(4) in metis)
  have o: "flag_get sets ''socketorder'' '''' \<in> {'''', Join ?as '',''}"
    using assms(5) by (simp add: flag_get_def map_of_eq_None_iff [of "rev sets" "''socketorder''", THEN iffD2])
  have rg: "rg = all_listening ?as [l] (register_all (rp_network plan) ?as (grace_init sets))"
    by (simp add: assms(9) all_listening_def register_all_def)
  obtain new files rg' sets' cg where n: "fork (pr_Args pr) True (rg_runningServers rg) rg = Returns (Started new files, rg')"
      "flag_Parse main_flags new = Some (sets', [])" "sets' = sets @ [(''graceful'', ''true'')]"
      "cg = register_all (rp_network plan) ?as (grace_init sets')"
      "\<forall>i < length ?as. getListener \<lparr>se_inherited = files, se_listen = lis\<rparr> cg
          (the (map_of (rg_runningServers cg) (?as ! i))) (?as ! i) = Inl ([l] ! i)"
    using fork_hands_over [OF a _ main_flags_graceful o rg refl, of "pr_Args pr" sets lis] assms(2,3,5) t by auto
  have "main (pr\<lparr>pr_Args := exe # new, pr_Getppid := ppid\<rparr>) = main pr"
    using main_cong [of "exe # new" sets' "[]" pr sets "[]"] n(2,3) assms(2,6) by (simp add: main_values_graceful)
  then show ?thesis using n assms(1) by (simp add: register_all_def)
qed

subsection \<open>Daemons\<close>

lemma daemon_args_first:
  "''-daemon'' \<notin> set as \<Longrightarrow> ''-daemon=true'' \<notin> set as \<Longrightarrow> d \<in> {''-daemon'', ''-daemon=true''} \<Longrightarrow>
     daemon_args (as @ d # bs) = as @ ''-daemon=false'' # bs"
  by (induction as) auto

text \<open>The spellings of the flag set it to the value they say.\<close>

definition daemon_value :: "string \<Rightarrow> string" where
  "daemon_value d = (if d = ''-daemon=false'' then ''false'' else ''true'')"

lemma ParseBool_true_false:
  "ParseBool ''true'' = (True, None)" "ParseBool ''false'' = (False, None)"
  by (simp_all add: ParseBool_def)

lemma daemon_flag_Parse:
  assumes "d \<in> {''-daemon'', ''-daemon=true'', ''-daemon=false''}"
  shows "flag_Parse main_flags (d # bs) =
    map_option (\<lambda>(ss, rest). ((''daemon'', daemon_value d) # ss, rest)) (flag_Parse main_flags bs)"
proof -
  have m: "map_of main_flags ''daemon'' = Some FlagBool" by (simp add: main_flags_def grace_flags_def)
  have n: "flag_name ''daemon'' = (''daemon'', None)" "flag_name ''daemon=true'' = (''daemon'', Some ''true'')"
    "flag_name ''daemon=false'' = (''daemon'', Some ''false'')"
    by (simp_all add: flag_name_def)
  have c: "flag_cons FlagBool (''daemon'', v) r = map_option (\<lambda>(ss, rest). ((''daemon'', v) # ss, rest)) r"
    if "v \<in> {''true'', ''false''}" for v r
    using that by (auto simp: flag_cons_def flag_ok_def ParseBool_true_false split: option.split)
  show ?thesis
    using assms m n
    by (elim insertE emptyE) (simp_all add: flag_Parse.simps(2) c daemon_value_def Let_def)
qed

lemma daemon_line_Parse:
  assumes "flag_Parse main_flags as = Some (s1, [])" and "''--'' \<notin> set as"
    and "d \<in> {''-daemon'', ''-daemon=true'', ''-daemon=false''}" and "flag_Parse main_flags bs = Some (s2, rest)"
  shows "flag_Parse main_flags (as @ d # bs) = Some (s1 @ (''daemon'', daemon_value d) # s2, rest)"
  using flag_Parse_append [OF assms(1,2), of "d # bs"] daemon_flag_Parse [OF assms(3), of bs] assms(4) by simp

lemma flag_get_other:
  "n \<noteq> k \<Longrightarrow> flag_get (s1 @ (k, v) # s2) n d = flag_get (s1 @ s2) n d"
  by (simp add: flag_get_def map_add_def split: option.split)

lemma flag_get_only: "k \<notin> fst ` set s2 \<Longrightarrow> flag_get (s1 @ (k, v) # s2) k d = v"
  by (simp add: flag_get_def map_of_eq_None_iff [of "rev s2" k, THEN iffD2] map_add_def)

lemma main_values_daemon:
  assumes "''daemon'' \<notin> fst ` set (s1 @ s2)"
  shows "main_values (s1 @ (''daemon'', v) # s2) = (main_values (s1 @ s2))\<lparr>gDaemon := fst (ParseBool v)\<rparr>"
proof -
  have d: "''daemon'' \<notin> fst ` set s2" using assms by auto
  show ?thesis by (simp add: main_values_def flag_bool_def flag_int_def flag_get_other flag_get_only [OF d])
qed

text \<open>What forking leaves in the environment of the child.\<close>

definition daemon_env :: "(string \<Rightarrow> string) \<Rightarrow> string \<Rightarrow> string" where
  "daemon_env getenv = (\<lambda>n. if n = envRunMode \<and> getenv n = '''' then ''daemon'' else getenv n)"

definition daemon_child :: "process \<Rightarrow> string list \<Rightarrow> int \<Rightarrow> process" where
  "daemon_child pr args ppid = pr\<lparr>pr_Args := hd (pr_Args pr) # args, pr_Getppid := ppid, pr_Getenv := daemon_env (pr_Getenv pr)\<rparr>"

text \<open>The part of \<open>main\<close> after a successful look at the flags, the configuration and the logs.\<close>

definition startable :: "process \<Rightarrow> gflags \<Rightarrow> router \<Rightarrow> bool" where
  "startable pr g conf \<longleftrightarrow> \<not> gHelp g \<and> \<not> gVersion g \<and> pr_conf pr (gConfigFile g) = Some conf
     \<and> pr_stat pr (log_dir pr conf) = StatOk \<and> (\<forall>f. pr_open_err pr f = None)"

lemma main_startable:
  assumes "flag_Parse main_flags (tl (pr_Args pr)) = Some (sets, rest)" and "startable pr (main_values sets) conf"
  shows "main pr = (case Daemonize (gDaemon (main_values sets)) (pr_Getppid pr) (pr_Args pr) of
      Continue \<Rightarrow> Serve (main_plan (main_values sets) conf (log_dir pr conf) (IsForeground (pr_Getenv pr) envRunMode))
    | ForkChild args \<Rightarrow>
        (case pr_fork pr args of
           (pid, Some err) \<Rightarrow> LogFatal
         | (pid, None) \<Rightarrow>
             if pid > 0 then Parent args
             else Serve (main_plan (main_values sets) conf (log_dir pr conf) (IsForeground (pr_Getenv pr) envRunMode))))"
  using assms by (simp add: main_def startable_def ErrlogFd_def Let_def)

lemma startable_daemon_child:
  "startable (daemon_child pr args ppid) g conf \<longleftrightarrow> startable pr g conf"
  "log_dir (daemon_child pr args ppid) conf = log_dir pr conf"
  by (simp_all add: startable_def daemon_child_def log_dir_def)

lemma main_plan_daemon [simp]: "main_plan (g\<lparr>gDaemon := b\<rparr>) conf logDir f = main_plan g conf logDir f"
  by (cases g) (simp only: main_plan_def gflags.simps)

lemma startable_daemon [simp]: "startable pr (g\<lparr>gDaemon := b\<rparr>) conf \<longleftrightarrow> startable pr g conf"
  by (simp add: startable_def)

text \<open>The process that forks, and what its child does.\<close>

lemma daemon_forks:
  assumes "pr_Args pr = exe # as @ d # bs" and "d \<in> {''-daemon'', ''-daemon=true''}"
    and "''-daemon'' \<notin> set as" and "''-daemon=true'' \<notin> set as" and "''--'' \<notin> set as"
    and "flag_Parse main_flags as = Some (s1, [])" and "flag_Parse main_flags bs = Some (s2, rest)"
    and "''daemon'' \<notin> fst ` set (s1 @ s2)"
    and "startable pr (main_values (s1 @ s2)) conf" and "pr_Getppid pr > 1" and "\<And>args. pr_fork pr args = (pid, None)" and "pid > 0"
    and "args = as @ ''-daemon=false'' # bs"
  shows "main pr = Parent args"
    and "flag_Parse main_flags args = Some (s1 @ (''daemon'', ''false'') # s2, rest)"
    and "main (daemon_child pr args ppid) = Serve (main_plan (main_values (s1 @ s2)) conf (log_dir pr conf) False)"
proof -
  have v: "daemon_value d = ''true''" "daemon_value ''-daemon=false'' = ''false''"
    using assms(2) by (auto simp: daemon_value_def)
  have "flag_Parse main_flags (tl (pr_Args pr)) = Some (s1 @ (''daemon'', ''true'') # s2, rest)"
    using daemon_line_Parse [OF assms(6,5) _ assms(7), of d] assms(1,2) v by auto
  note start = main_startable [OF this, of conf]
  show "main pr = Parent args"
    using assms(9-12) daemon_args_first [OF assms(3,4,2)] assms(1,13)
    by (simp add: start Daemonize_def main_values_daemon [OF assms(8)] ParseBool_true_false)
  let ?ch = "daemon_child pr args ppid"
  show p: "flag_Parse main_flags args = Some (s1 @ (''daemon'', ''false'') # s2, rest)"
    using daemon_line_Parse [OF assms(6,5) _ assms(7), of "''-daemon=false''"] v by (simp add: assms(13))
  then have "flag_Parse main_flags (tl (pr_Args ?ch)) = Some (s1 @ (''daemon'', ''false'') # s2, rest)"
    by (simp add: daemon_child_def)
  note start = main_startable [OF this, of conf]
  have "\<not> IsForeground (pr_Getenv ?ch) envRunMode"
    by (simp add: IsForeground_def daemon_child_def daemon_env_def)
  then show "main ?ch = Serve (main_plan (main_values (s1 @ s2)) conf (log_dir pr conf) False)"
    using assms(9)
    by (simp add: start startable_daemon_child Daemonize_def main_values_daemon [OF assms(8)] ParseBool_true_false)
qed

text \<open>
  C30: Becoming a daemon happens once. A program started by a living parent with the flag
  \<open>-daemon\<close> ends after starting a child with the same command line, in which only that flag
  is switched off; the child, whatever its parent is by then, does not fork again but serves
  with the settings of the command line, and its log lines go to the files only.
\<close>

theorem daemon_once:
  assumes "pr_Args pr = exe # as @ d # bs" and "d \<in> {''-daemon'', ''-daemon=true''}"
    and "''-daemon'' \<notin> set as" and "''-daemon=true'' \<notin> set as" and "''--'' \<notin> set as"
    and "flag_Parse main_flags as = Some (s1, [])" and "flag_Parse main_flags bs = Some (s2, rest)"
    and "''daemon'' \<notin> fst ` set (s1 @ s2)"
    and "startable pr (main_values (s1 @ s2)) conf" and "pr_Getppid pr > 1" and "\<And>args. pr_fork pr args = (pid, None)" and "pid > 0"
  shows "main pr = Parent (as @ ''-daemon=false'' # bs)
    \<and> main (daemon_child pr (as @ ''-daemon=false'' # bs) ppid)
      = Serve (main_plan (main_values (s1 @ s2)) conf (log_dir pr conf) False)"
  using daemon_forks [OF assms refl] by simp

text \<open>
  C36: A daemon started by init cannot be restarted. A program whose parent is process 1
  serves itself although it is asked to become a daemon. When it then forks on SIGHUP, the
  new process, whose parent is the old one, does become a daemon: it ends after starting a
  child, which inherits no listening socket and so fails to get one.
\<close>

theorem daemon_restart_fails:
  assumes "pr_Args pr = exe # as @ d # bs" and "d \<in> {''-daemon'', ''-daemon=true''}"
    and "''-daemon'' \<notin> set as" and "''-daemon=true'' \<notin> set as" and "''--'' \<notin> set (as @ bs)" and "''-graceful'' \<notin> set (as @ bs)"
    and "flag_Parse main_flags as = Some (s1, [])" and "flag_Parse main_flags bs = Some (s2, [])"
    and "''daemon'' \<notin> fst ` set (s1 @ s2)"
    and "startable pr (main_values (s1 @ s2)) conf" and "pr_Getppid pr = 1" and "\<And>args. pr_fork pr args = (pid, None)" and "pid > 0"
    and "length (rg_runningServers rg) = 1" and "fork (pr_Args pr) True visited rg = Returns (Started new files, rg')"
    and "nw = pr\<lparr>pr_Args := exe # new, pr_Getppid := oldpid\<rparr>" and "oldpid > 1"
  shows "\<exists>b args plan sets. main pr = Serve (main_plan (main_values (s1 @ s2)) conf (log_dir pr conf) b)
    \<and> main nw = Parent args \<and> main (daemon_child nw args ppid) = Serve plan
    \<and> flag_Parse main_flags args = Some (sets, [])
    \<and> getListener \<lparr>se_inherited = [], se_listen = lis\<rparr> (grace_NewServer (rp_addr plan) (rp_network plan) (grace_init sets))
        (the (map_of (rg_runningServers (grace_NewServer (rp_addr plan) (rp_network plan) (grace_init sets))) (rp_addr plan)))
        (rp_addr plan) = Inr (ErrMsg ''net.FileListener error'')"
proof -
  have d: "d \<noteq> ''--''" "d \<noteq> ''-graceful''" using assms(2) by auto
  have t: "takeWhile (\<lambda>a. a \<noteq> ''-graceful'') (as @ d # bs) = as @ d # bs"
    by (rule takeWhile_eq_all_conv [THEN iffD2]) (use assms(6) d in auto)
  have "new = as @ d # bs @ [''-graceful'']"
    using assms(14,15) t by (auto simp: fork_def fork_args_def Let_def assms(1) split: if_splits outcome.splits prod.splits)
  then have a: "pr_Args nw = exe # as @ d # (bs @ [''-graceful''])" by (simp add: assms(16))
  have p: "flag_Parse main_flags (bs @ [''-graceful'']) = Some (s2 @ [(''graceful'', ''true'')], [])"
    using flag_Parse_append [OF assms(8), of "[''-graceful'']"] graceful_flags(1) [OF main_flags_graceful] assms(5) by simp
  have g: "main_values (s1 @ s2 @ [(''graceful'', ''true'')]) = main_values (s1 @ s2)"
    using main_values_graceful [of "s1 @ s2" "''true''"] by simp
  have st: "startable nw (main_values (s1 @ s2 @ [(''graceful'', ''true'')])) conf"
    using assms(10,16) by (simp add: g startable_def log_dir_def)
  have n: "''--'' \<notin> set as" using assms(5) by simp
  have k: "''daemon'' \<notin> fst ` set (s1 @ s2 @ [(''graceful'', ''true'')])" using assms(9) by auto
  have e: "pr_Getppid nw > 1" "\<And>args. pr_fork nw args = (pid, None)" using assms(12,16,17) by auto
  note f = daemon_forks [OF a assms(2,3,4) n assms(7) p k st e assms(13) refl]
  let ?args = "as @ ''-daemon=false'' # bs @ [''-graceful'']"
  let ?sets = "s1 @ (''daemon'', ''false'') # s2 @ [(''graceful'', ''true'')]"
  let ?plan = "main_plan (main_values (s1 @ s2)) conf (log_dir nw conf) False"
  have "flag_get ?sets ''graceful'' ''false'' = ''true''"
    using flag_get_only [of "''graceful''" "[]" "s1 @ (''daemon'', ''false'') # s2"] by simp
  then have "rg_isChild (grace_init ?sets)" by (simp add: grace_init_def flag_bool_def ParseBool_true_false)
  then have l: "getListener \<lparr>se_inherited = [], se_listen = lis\<rparr> (grace_NewServer x y (grace_init ?sets))
        (the (map_of (rg_runningServers (grace_NewServer x y (grace_init ?sets))) x)) x = Inr (ErrMsg ''net.FileListener error'')" for x y
    by (simp add: getListener_def grace_NewServer_def Let_def AList.update_conv')
  have "flag_Parse main_flags (tl (pr_Args pr)) = Some (s1 @ (''daemon'', ''true'') # s2, [])"
    using daemon_line_Parse [OF assms(7) n _ assms(8), of d] assms(1,2) by (auto simp: daemon_value_def)
  from main_startable [OF this, of conf] assms(10,11)
  have s: "main pr = Serve (main_plan (main_values (s1 @ s2)) conf (log_dir pr conf) (IsForeground (pr_Getenv pr) envRunMode))"
    by (simp add: Daemonize_def main_values_daemon [OF assms(9)])
  show ?thesis
    by (intro exI conjI) (rule s f(1) f(3) [unfolded g] f(2) l)+
qed

subsection \<open>A concrete process\<close>

definition demo_process :: "string list \<Rightarrow> int \<Rightarrow> process" where
  "demo_process args ppid =
     \<lparr>pr_Args = ''anyproxy'' # args, pr_Getenv = (\<lambda>n. ''''), pr_Getppid = ppid, pr_AppPath = ''/opt'',
      pr_conf = (\<lambda>f. Some empty_router), pr_stat = (\<lambda>d. StatOk), pr_open_err = (\<lambda>f. None), pr_fork = (\<lambda>a. (42, None))\<rparr>"

lemma demo_flags:
  "flag_Parse main_flags [''-l'', ''3000''] = Some ([(''l'', ''3000'')], [])" (is ?l)
  "flag_Parse main_flags [] = Some ([], [])" (is ?e)
proof -
  have "map_of main_flags ''l'' = Some FlagString" by (simp add: main_flags_def grace_flags_def)
  then show ?l by (simp add: flag_Parse.simps(2) flag_name_def flag_cons_def flag_ok_def)
qed simp

lemma demo_values:
  "main_values [(''l'', ''3000'')] = (main_values [])\<lparr>gListenAddrPort := ''3000''\<rparr>"
  "\<not> gHelp (main_values [])" "\<not> gVersion (main_values [])" "\<not> gDaemon (main_values [])"
  by (simp_all add: main_values_def flag_get_def flag_bool_def flag_int_def ParseBool_def)

lemma demo_startable:
  "\<not> gHelp g \<Longrightarrow> \<not> gVersion g \<Longrightarrow> startable (demo_process args ppid) g empty_router"
  by (simp add: startable_def demo_process_def)

lemma demo_main:
  "\<exists>b. main (demo_process [''-l'', ''3000''] 1) =
     Serve (main_plan (main_values [(''l'', ''3000'')]) empty_router ''/opt/logs/'' b)"
proof -
  have "flag_Parse main_flags (tl (pr_Args (demo_process [''-l'', ''3000''] 1))) = Some ([(''l'', ''3000'')], [])"
    by (simp add: demo_process_def demo_flags)
  from main_startable [OF this demo_startable] show ?thesis
    by (simp add: demo_values Daemonize_def) (auto simp: log_dir_def demo_process_def empty_router_def IfEmptyThen_def)
qed

lemma port_3000: "port_str 3000 = ''3000''"
  by (simp add: port_str_def Itoa_def dec_digits.simps digit_char_def char_of_eq_iff take_bit_eq_mod)

lemma demo_addr:
  "rp_addr (main_plan (main_values [(''l'', ''3000'')]) empty_router ''/opt/logs/'' b) = '':3000''"
  using FillPort_port [of 3000] by (simp add: main_plan_def Let_def demo_values IfEmptyThen_def port_3000)

theorem one_port_throughout_witness:
  "\<exists>plan. main (demo_process [''-l'', ''3000''] 1) = Serve plan \<and> GetPort (rp_addr plan) = ''3000'' \<and> ListenPort (rp_cfg plan) = 3000"
proof -
  obtain plan where p: "main (demo_process [''-l'', ''3000''] 1) = Serve plan" using demo_main by blast
  have "names_port (IfEmptyThen (flag_get [(''l'', ''3000'')] ''l'' '''') (r_Listen empty_router) '':3000'') 3000"
    by (simp add: names_port_def port_3000 flag_get_def IfEmptyThen_def)
  with one_port_throughout [OF p, of "[(''l'', ''3000'')]" "[]" empty_router 3000] p show ?thesis
    by (simp add: demo_process_def demo_flags port_3000)
qed

theorem restart_same_plan_witness:
  "\<exists>plan new files rg'.
    main (demo_process [''-l'', ''3000''] 1) = Serve plan
    \<and> fork [''anyproxy'', ''-l'', ''3000''] True
        (rg_runningServers (set_listener '':3000'' 7 (grace_NewServer '':3000'' (rp_network plan) (grace_init [(''l'', ''3000'')]))))
        (set_listener '':3000'' 7 (grace_NewServer '':3000'' (rp_network plan) (grace_init [(''l'', ''3000'')])))
        = Returns (Started new files, rg')
    \<and> main (demo_process new 4711) = Serve plan"
proof -
  obtain b where p: "main (demo_process [''-l'', ''3000''] 1) =
      Serve (main_plan (main_values [(''l'', ''3000'')]) empty_router ''/opt/logs/'' b)" (is "_ = Serve ?plan")
    using demo_main by blast
  have a: "pr_Args (demo_process [''-l'', ''3000''] 1) = [''anyproxy'', ''-l'', ''3000'']"
    "(demo_process [''-l'', ''3000''] 1)\<lparr>pr_Args := ''anyproxy'' # as, pr_Getppid := 4711\<rparr> = demo_process as 4711" for as
    by (simp_all add: demo_process_def)
  have nd: "\<not> gDaemon (main_values [(''l'', ''3000'')])" by (simp add: demo_values)
  show ?thesis
    using restart_same_plan [where exe = "''anyproxy''" and ppid = 4711 and l = 7 and sets = "[(''l'', ''3000'')]" and lis = "\<lambda>n a. Inr EOF", OF p _ _ _ _ _ _ _ refl] p
    by (auto simp: a demo_flags demo_addr nd)
qed

theorem daemon_once_witness:
  "\<exists>plan. main (demo_process [''-daemon'', ''-l'', ''3000''] 100) = Parent [''-daemon=false'', ''-l'', ''3000'']
    \<and> main (daemon_child (demo_process [''-daemon'', ''-l'', ''3000''] 100) [''-daemon=false'', ''-l'', ''3000''] 1) = Serve plan"
proof -
  let ?pr = "demo_process [''-daemon'', ''-l'', ''3000''] 100"
  have a: "pr_Args ?pr = ''anyproxy'' # [] @ ''-daemon'' # [''-l'', ''3000'']" by (simp add: demo_process_def)
  have s: "startable ?pr (main_values ([] @ [(''l'', ''3000'')])) empty_router"
    by (rule demo_startable) (simp_all add: demo_values)
  show ?thesis
    using daemon_once [OF a _ _ _ _ demo_flags(2,1) _ s, of 42 1] by (auto simp: demo_process_def)
qed

theorem daemon_restart_fails_witness:
  "\<exists>b args plan. main (demo_process [''-daemon'', ''-l'', ''3000''] 1)
      = Serve (main_plan (main_values [(''l'', ''3000'')]) empty_router ''/opt/logs/'' b)
    \<and> main (demo_process [''-daemon'', ''-l'', ''3000'', ''-graceful''] 100) = Parent args
    \<and> main (daemon_child (demo_process [''-daemon'', ''-l'', ''3000'', ''-graceful''] 100) args 1) = Serve plan"
proof -
  let ?pr = "demo_process [''-daemon'', ''-l'', ''3000''] 1"
  let ?rg = "grace_NewServer '':3000'' ''tcp'' (grace_init [])"
  have a: "pr_Args ?pr = ''anyproxy'' # [] @ ''-daemon'' # [''-l'', ''3000'']" by (simp add: demo_process_def)
  have s: "startable ?pr (main_values ([] @ [(''l'', ''3000'')])) empty_router"
    by (rule demo_startable) (simp_all add: demo_values)
  have l: "log_dir ?pr empty_router = ''/opt/logs/''"
    by (simp add: log_dir_def demo_process_def empty_router_def IfEmptyThen_def)
  have n: "length (rg_runningServers ?rg) = 1" by (simp add: grace_NewServer_def grace_init_def Let_def)
  have f: "fork (pr_Args ?pr) True [] ?rg = Returns (Started [''-daemon'', ''-l'', ''3000'', ''-graceful''] [None],
      ?rg\<lparr>rg_runningServersForked := True\<rparr>)"
    by (simp add: fork_def fork_args_def a grace_NewServer_def grace_init_def Let_def flag_get_def)
  have w: "demo_process [''-daemon'', ''-l'', ''3000'', ''-graceful''] 100
      = ?pr\<lparr>pr_Args := ''anyproxy'' # [''-daemon'', ''-l'', ''3000'', ''-graceful''], pr_Getppid := 100\<rparr>"
    by (simp add: demo_process_def)
  have e: "pr_Getppid ?pr = 1" "\<And>args. pr_fork ?pr args = (42, None)" by (simp_all add: demo_process_def)
  show ?thesis
    using daemon_restart_fails [OF a _ _ _ _ _ demo_flags(2,1) _ s e _ n f w, of 1 "\<lambda>n a. Inl 5"] l by auto
qed

end
