(* ===== verification/Spec2Isabelle.thy ===== *)
theory Spec2Isabelle
  imports Tools Proxy_Chain Stress_Copy Example_Programs
    Conf_Router Tunnel Http_Stream Socks5 Main_Program
begin

text \<open>
  A model of anyproxy, a proxy server written in Go that accepts HTTP, HTTPS, SOCKS5 and
  redirected TCP connections on one port, chooses a route for each from a configuration and
  copies bytes between the two sides.

  \<^bold>\<open>How the program works.\<close> \<open>main\<close> (\<open>src/anyproxy.go\<close>) parses the flags, loads the
  configuration, becomes a daemon when asked to, sets up the logger and starts a graceful
  server (\<open>src/grace\<close>) with one of two handlers (\<open>src/proto/client.go\<close>, \<open>server.go\<close>). A
  handler makes a \<open>Request\<close> of the connection (\<open>src/proto/request.go\<close>), which looks at the
  first bytes through a buffered reader (\<open>src/proto/tcp\<close>) and picks one of four streams:
  HTTP (\<open>http.go\<close>, with the header of \<open>src/proto/http\<close> and the lines of \<open>src/proto/text\<close>),
  SOCKS5 (\<open>socks5.go\<close>), plain TCP (\<open>stream.go\<close>) or a copy to a fixed address (\<open>tcpcopy.go\<close>).
  The response of a stream opens a tunnel (\<open>tunnel.go\<close>): the client is checked against the
  allow list, a route is chosen from the configuration (\<open>src/utils/conf\<close>, \<open>src/config\<close>) and
  the DNS cache (\<open>src/utils/cache\<close>), a server or a further proxy is dialled (with AES for the
  program's own protocol, \<open>src/crypto\<close>), and two goroutines copy until one side ends. A
  connection that is kept alive goes back to \<open>KeepHandler\<close> (\<open>keep.go\<close>). Requests with a
  special header can instead be given to a subscriber behind a websocket (\<open>src/nat\<close>,
  \<open>src/proto/websocket.go\<close>): a hub of clients, a hub of bridges, and a bridge per request.

  \<^bold>\<open>Conventions.\<close> Strings and byte slices are lists of 8-bit characters, machine integers
  are words (\<open>Go_Prelude\<close>). A run-time panic is the value \<open>Panics\<close>, an error is an optional
  \<open>go_err\<close> beside the result, as in Go. A connection is the list of the results its reads
  give, so every cutting of a stream into segments is covered; writes have arbitrary
  outcomes. A loop that may not end is a partial function with \<open>None\<close> for not returning, and
  that it returns is a theorem. There is no fuel. Goroutines are steps of a relation or the
  events of a step function, and statements about them hold for every interleaving.

  \<^bold>\<open>The theories, in the order of the program.\<close>

  \<^item> Library. \<open>Go_Prelude\<close> (bytes, \<open>strings\<close>, \<open>strconv\<close>, the named collections), \<open>Net_Addr\<close>
    (\<open>net\<close>), \<open>Net_Url\<close> (\<open>net/url\<close>), \<open>Base64\<close>, \<open>Go_Flag\<close> (\<open>flag\<close>), \<open>Go_Time\<close> (calendar and
    local dates): what the source uses of the standard library, with round trips of
    printing and parsing.
  \<^item> \<open>Tcp_Reader\<close> (\<open>proto/tcp/reader.go\<close>): the buffered reader; one invariant carries that no
    operation loses, repeats or reorders a byte (\<open>reader_lossless\<close>).
  \<^item> \<open>Text_Reader\<close>, \<open>Http_Header\<close> (\<open>proto/text/reader.go\<close>, \<open>proto/http/header.go\<close>): lines,
    header blocks and the header map; a header that is written is read back.
  \<^item> \<open>Http_Stream\<close>, \<open>Socks5\<close> (\<open>proto/http.go\<close>, \<open>socks5.go\<close>): recognition and reading of the
    two protocols. \<open>Dispatch\<close> (\<open>request.go\<close>, \<open>keep.go\<close>): the choice of the stream; reading a
    request always returns, and gives the line, destination and body the bytes say.
  \<^item> \<open>Crypto\<close>, \<open>Dns_Cache\<close>, \<open>Stats\<close>, \<open>Conf_Router\<close>, \<open>Tools\<close>: the packages of the same purpose;
    \<open>Tools\<close> also holds \<open>config\<close>, \<open>utils/trace\<close> and \<open>utils/daemon\<close>.
  \<^item> \<open>Tunnel\<close> (first half of \<open>proto/tunnel.go\<close>): allow list, rules, route and dialling, over an
    environment of functions of the history; what the handshake may contact and remembers.
  \<^item> \<open>Copying\<close>, \<open>Copying_Streams\<close> (second half of \<open>proto/tunnel.go\<close>): the two copying loops as
    interleaved steps; transparency, the boundary of a kept connection, the end of every run,
    the last over \<open>Step_Runs\<close>, the theory of step relations that end.
  \<^item> \<open>Nat_Hub\<close>, \<open>Nat_Auth\<close>, \<open>Nat_Tunnel\<close> (\<open>src/nat\<close>, \<open>proto/websocket.go\<close>): the hubs as
    machines over bounded channels, which never panic; authentication on both sides; the
    path of a request and of its answer through the websocket.
  \<^item> \<open>Handlers\<close>: the responses of the streams and the three handlers, from the accepted
    connection to the bytes at the server.
  \<^item> \<open>Proxy_Chain\<close>: a process in the client mode whose upstream is a process in the tunnel
    mode; how the answer of a proxy is read, and that the two processes are one tunnel.
  \<^item> \<open>Grace_Server\<close> (\<open>grace/server.go\<close>, \<open>conn.go\<close>, \<open>autoinc\<close>): accepting, the packed state of a
    connection, shutting down, as a machine with times; it refines the contract
    \<open>contract_step\<close> of a server that drains, and the shutdown ends. \<open>Grace_Fork\<close>
    (\<open>grace/grace.go\<close>, rest of \<open>server.go\<close>): the registry, the listener, the signals and the
    restart, which hands every listener on.
  \<^item> \<open>Log_Writer\<close> (\<open>src/logging\<close>): one file a day, and the removal and compression of old ones.
  \<^item> \<open>Stress_Copy\<close> (\<open>examples/stress/tcpcopy.go\<close>): the tool that multiplies the traffic of a
    connection, built on the reader and the loops of the proxy. \<open>Example_Programs\<close>: the chat of
    the websocket library as a further hub, and the experiments with channels and URLs, which
    test the models of both.
  \<^item> \<open>Main_Program\<close> (\<open>anyproxy.go\<close>): from the command line and configuration to the plan of
    the process; the same plan after a restart; becoming a daemon.

  \<^bold>\<open>Interfaces.\<close> The locales state what a part promises to its users, and each is interpreted
  on the definitions of the code: a source of bytes (\<open>byte_source\<close> in \<open>Tcp_Reader\<close>, for
  connections and for the buffered reader; \<open>finite_source\<close> in \<open>Nat_Tunnel\<close> for sources that
  end), a source of lines and of request heads (\<open>line_source\<close> in \<open>Text_Reader\<close>, \<open>head_source\<close> in
  \<open>Dispatch\<close>), the header as a map of fields (\<open>field_map\<close> in \<open>Http_Header\<close>), the cache of
  addresses (\<open>address_cache\<close> in \<open>Dns_Cache\<close>), hubs over bounded channels (\<open>hub_loop\<close> and
  \<open>hub_queues\<close> in \<open>Nat_Hub\<close>), step relations that end (\<open>terminating_steps\<close> in \<open>Step_Runs\<close>, for
  the loops of a tunnel and of the stress tool), and machines whose events carry a time with
  their refinement (\<open>timed_machine\<close>, \<open>timed_refinement\<close> in \<open>Grace_Server\<close>).

  \<^bold>\<open>Bounds.\<close> Buffers have the sizes of the source (4096 bytes of the reader, 32 KB of a
  copying loop where it matters, 65536 places of the cache, the capacities of the channels).
  Times are integers in the unit the code computes with. The laws of \<open>Log_Writer\<close> on names
  hold for years of four digits.

  \<^bold>\<open>Parameters.\<close> The network, the file system, the YAML parser, the AES block function, MD5,
  gzip, the SOCKS5 client of \<open>golang.org/x/net\<close>, the websocket library and the encoding of
  its messages, and starting processes are arguments of the definitions that use them.

  \<^bold>\<open>Not modelled.\<close> The text of log lines and of the help (\<open>utils/help\<close>), which are pure output;
  ping timers and deadlines of websockets; reflection-based access to the descriptor of a
  connection beyond its result; the profiling server; \<open>badRequest\<close>, which nothing calls;
  \<open>GetConnRange\<close>, which only lists connections; \<open>getIPAdress\<close>, whose result is logged; and
  the demonstration servers and clients under \<open>src/examples\<close>, which only call libraries.
  Data races on variables that the code shares without a lock (the maps of \<open>GetClient\<close>,
  \<open>Eable\<close> and \<open>GetConns\<close>, the counter of the stress tool) are outside the model: operations
  are atomic there.
\<close>

end
